(* ===== verification/Prelude.thy ===== *)
theory Prelude
  imports Main "HOL-Library.Word" "HOL-Library.Multiset" "HOL-Library.Sublist"
begin

text \<open>
  The vocabulary every component shares: byte strings and machine integers at
  their Go width, the result type of code that may terminate the process, loops
  over such code, and generic facts about them.

  In the packages of this repository \<^verbatim>\<open>log.Error\<close> and \<^verbatim>\<open>log.Crit\<close> end the process
  (\<^verbatim>\<open>src/log/root.go\<close> calls \<^verbatim>\<open>os.Exit(1)\<close>), so a call of either is the value
  \<^verbatim>\<open>Inl (Exit msg)\<close> of the model; a run-time panic is \<^verbatim>\<open>Inl (Panic msg)\<close>; an
  \<^verbatim>\<open>error\<close> that the function returns is \<^verbatim>\<open>Inl (Err msg)\<close>; waiting for a mutex that is held,
  or for room in a full channel, is \<^verbatim>\<open>Inl (Blocked msg)\<close>.
\<close>

type_synonym byte = "8 word"
type_synonym bytes = "byte list"
type_synonym u32 = "32 word"
type_synonym u64 = "64 word"
type_synonym address = bytes

datatype go_fail = Exit string | Panic string | Err string | Blocked string

type_synonym 'a go = "go_fail + 'a"

definition go_bind :: "'a go \<Rightarrow> ('a \<Rightarrow> 'b go) \<Rightarrow> 'b go" where
  "go_bind m f = (case m of Inl e \<Rightarrow> Inl e | Inr a \<Rightarrow> f a)"

fun go_fold :: "('a \<Rightarrow> 's \<Rightarrow> 's go) \<Rightarrow> 'a list \<Rightarrow> 's \<Rightarrow> 's go" where
  "go_fold f [] s = Inr s"
| "go_fold f (x # xs) s = go_bind (f x s) (go_fold f xs)"

named_theorems go_simps \<open>evaluation of code that may end the process\<close>

lemma go_bind_Inl [simp, go_simps]: "go_bind (Inl e) f = Inl e"
  by (simp add: go_bind_def)

lemma go_bind_Inr [simp, go_simps]: "go_bind (Inr a) f = f a"
  by (simp add: go_bind_def)

lemma go_bind_eq_Inr_iff: "go_bind m f = Inr b \<longleftrightarrow> (\<exists>a. m = Inr a \<and> f a = Inr b)"
  by (cases m) auto

lemma go_bind_eq_InrE:
  assumes "go_bind m f = Inr b"
  obtains a where "m = Inr a" "f a = Inr b"
  using assms by (auto simp: go_bind_eq_Inr_iff)

lemma go_fold_append: "go_fold f (xs @ ys) s = go_bind (go_fold f xs s) (go_fold f ys)"
proof (induction xs arbitrary: s)
  case (Cons x xs)
  then show ?case by (cases "f x s") auto
qed simp

text \<open>A relation that each iteration of a loop establishes holds between its ends.\<close>

lemma go_fold_invariant:
  assumes "go_fold f xs s = Inr s'" "I s"
    and "\<And>x s s'. x \<in> set xs \<Longrightarrow> I s \<Longrightarrow> f x s = Inr s' \<Longrightarrow> I s'"
  shows "I s'"
  using assms
proof (induction xs arbitrary: s)
  case (Cons x xs)
  from Cons.prems(1) obtain t where t: "f x s = Inr t" "go_fold f xs t = Inr s'"
    by (auto simp: go_bind_eq_Inr_iff)
  have "I t" using Cons.prems(3)[of x s t] Cons.prems(2) t(1) by simp
  then show ?case using Cons.IH[OF t(2)] Cons.prems(3) by auto
qed simp

section \<open>Big-endian integers\<close>

text \<open>\<^verbatim>\<open>binary.BigEndian\<close> of the standard library: fixed-width unsigned integers.\<close>

fun beBytes :: "nat \<Rightarrow> nat \<Rightarrow> bytes" where
  "beBytes 0 x = []"
| "beBytes (Suc n) x = beBytes n (x div 256) @ [word_of_nat (x mod 256)]"

definition beNat :: "bytes \<Rightarrow> nat" where
  "beNat bs = foldl (\<lambda>a b. a * 256 + unat b) 0 bs"

definition putUint64 :: "u64 \<Rightarrow> bytes" where
  "putUint64 x = beBytes 8 (unat x)"

definition getUint64 :: "bytes \<Rightarrow> u64 go" where
  "getUint64 bs = (if length bs < 8 then Inl (Panic ''index out of range'')
                   else Inr (word_of_nat (beNat (take 8 bs))))"

definition putUint32 :: "u32 \<Rightarrow> bytes" where
  "putUint32 x = beBytes 4 (unat x)"

definition getUint32 :: "bytes \<Rightarrow> u32 go" where
  "getUint32 bs = (if length bs < 4 then Inl (Panic ''index out of range'')
                   else Inr (word_of_nat (beNat (take 4 bs))))"

lemma length_beBytes [simp]: "length (beBytes n x) = n"
  by (induction n x rule: beBytes.induct) auto

lemma beNat_snoc [simp]: "beNat (bs @ [b]) = beNat bs * 256 + unat b"
  by (simp add: beNat_def)

lemma beNat_Nil [simp]: "beNat [] = 0"
  by (simp add: beNat_def)

lemma beNat_less: "beNat bs < 256 ^ length bs"
proof (induction bs rule: rev_induct)
  case (snoc b bs)
  have "unat b < 256" using unsigned_less[of b] by simp
  with snoc show ?case by simp
qed simp

lemma beNat_beBytes: "x < 256 ^ n \<Longrightarrow> beNat (beBytes n x) = x"
proof (induction n x rule: beBytes.induct)
  case (2 n x)
  then have "x div 256 < 256 ^ n" by (simp add: less_mult_imp_div_less mult.commute)
  with 2 show ?case by (simp add: unat_of_nat)
qed simp

lemma beBytes_inj: "x < 256 ^ n \<Longrightarrow> y < 256 ^ n \<Longrightarrow> beBytes n x = beBytes n y \<Longrightarrow> x = y"
  by (metis beNat_beBytes)

lemma length_putUint [simp]: "length (putUint64 x) = 8" "length (putUint32 y) = 4"
  by (simp_all add: putUint64_def putUint32_def)

lemma getUint64_putUint64 [simp]: "getUint64 (putUint64 x @ rest) = Inr x"
proof -
  have "unat x < 256 ^ 8" using unsigned_less[of x] by simp
  then show ?thesis by (simp add: getUint64_def putUint64_def beNat_beBytes)
qed

lemma getUint32_putUint32 [simp]: "getUint32 (putUint32 x @ rest) = Inr x"
proof -
  have "unat x < 256 ^ 4" using unsigned_less[of x] by simp
  then show ?thesis by (simp add: getUint32_def putUint32_def beNat_beBytes)
qed

lemma putUint64_inj [simp]: "putUint64 x = putUint64 y \<longleftrightarrow> x = y"
  by (metis append_Nil2 getUint64_putUint64 sum.inject(2))

lemma putUint32_inj [simp]: "putUint32 x = putUint32 y \<longleftrightarrow> x = y"
  by (metis append_Nil2 getUint32_putUint32 sum.inject(2))

text \<open>The shortest big-endian representation, without leading zero bytes.\<close>

fun minBytes :: "nat \<Rightarrow> bytes" where
  "minBytes x = (if x = 0 then [] else minBytes (x div 256) @ [word_of_nat (x mod 256)])"

declare minBytes.simps [simp del]

lemma minBytes_0 [simp]: "minBytes 0 = []"
  by (simp add: minBytes.simps)

lemma beNat_minBytes [simp]: "beNat (minBytes x) = x"
proof (induction x rule: minBytes.induct)
  case (1 x)
  show ?case
  proof (cases "x = 0")
    case False
    then have "minBytes x = minBytes (x div 256) @ [word_of_nat (x mod 256)]"
      by (subst minBytes.simps) simp
    with 1[OF False] show ?thesis by (simp add: unat_of_nat)
  qed simp
qed

lemma minBytes_inj [simp]: "minBytes x = minBytes y \<longleftrightarrow> x = y"
  by (metis beNat_minBytes)

lemma minBytes_Nil_iff [simp]: "minBytes x = [] \<longleftrightarrow> x = 0"
  by (metis minBytes_0 minBytes_inj)

lemma length_minBytes: "x < 256 ^ n \<Longrightarrow> length (minBytes x) \<le> n"
proof (induction n arbitrary: x)
  case (Suc n)
  then have "x div 256 < 256 ^ n" by (simp add: less_mult_imp_div_less mult.commute)
  from Suc.IH[OF this] show ?case by (subst minBytes.simps) simp
qed simp

section \<open>Runs of event handlers\<close>

text \<open>
  A component that reacts to events: a handler takes an event and the state and gives
  the messages it sends and the new state. A run handles a list of events in order.
\<close>

fun runEvents :: "('e \<Rightarrow> 's \<Rightarrow> ('o list \<times> 's) go) \<Rightarrow> 'e list \<Rightarrow> 's \<Rightarrow> ('o list \<times> 's) go" where
  "runEvents step [] s = Inr ([], s)"
| "runEvents step (e # es) s =
    go_bind (step e s) (\<lambda>(out, s'). go_bind (runEvents step es s') (\<lambda>(outs, s''). Inr (out @ outs, s'')))"

lemma runEvents_append:
  "runEvents step (es @ fs) s =
    go_bind (runEvents step es s) (\<lambda>(out, s'). go_bind (runEvents step fs s') (\<lambda>(outs, s''). Inr (out @ outs, s'')))"
proof (induction es arbitrary: s)
  case Nil
  then show ?case by (cases "runEvents step fs s") auto
next
  case (Cons e es)
  show ?case
  proof (cases "step e s")
    case (Inr a)
    obtain out s1 where a: "a = (out, s1)" by force
    show ?thesis
    proof (cases "runEvents step es s1")
      case (Inr b)
      obtain out2 s2 where b: "b = (out2, s2)" by force
      show ?thesis using \<open>step e s = Inr a\<close> a Inr b Cons.IH[of s1]
        by (cases "runEvents step fs s2") auto
    qed (use \<open>step e s = Inr a\<close> a Cons.IH[of s1] in simp)
  qed simp
qed

text \<open>
  The induction principle for runs: \<^verbatim>\<open>hinv\<close> relates the events handled so far, the messages
  sent so far and the state. Every component whose handlers keep such a relation
  interprets this locale.
\<close>

locale event_machine =
  fixes step :: "'e \<Rightarrow> 's \<Rightarrow> ('o list \<times> 's) go"
    and start :: "'s \<Rightarrow> bool"
    and hinv :: "'e list \<Rightarrow> 'o list \<Rightarrow> 's \<Rightarrow> bool"
  assumes hinv_start: "start s \<Longrightarrow> hinv [] [] s"
    and hinv_step: "hinv es outs s \<Longrightarrow> step e s = Inr (out, s') \<Longrightarrow> hinv (es @ [e]) (outs @ out) s'"
begin

lemma hinv_run_from:
  assumes "runEvents step fs s = Inr (outs', s')" "hinv es outs s"
  shows "hinv (es @ fs) (outs @ outs') s'"
  using assms
proof (induction fs arbitrary: es outs s outs')
  case (Cons e fs)
  from Cons.prems(1) obtain out s1 outs1 where
    "step e s = Inr (out, s1)" "runEvents step fs s1 = Inr (outs1, s')" "outs' = out @ outs1"
    by (auto simp: go_bind_eq_Inr_iff)
  with Cons.IH[of s1 outs1 "es @ [e]" "outs @ out"] hinv_step[OF Cons.prems(2)] show ?case by simp
qed simp

lemma hinv_run: "runEvents step es s = Inr (outs, s') \<Longrightarrow> start s \<Longrightarrow> hinv es outs s'"
  using hinv_run_from[of es s outs s' "[]" "[]"] hinv_start by simp

end

end
