(* ===== verification/Core_Types.thy ===== *)
theory Core_Types
  imports Prelude
begin

text \<open>
  The data the whole system exchanges: transactions and their types
  (\<^verbatim>\<open>src/core/transaction.go\<close>), their statuses (\<^verbatim>\<open>src/result/txStatus.go\<close>), blocks
  and headers (\<^verbatim>\<open>src/core/block.go\<close>) and accounts (\<^verbatim>\<open>src/core/state_account.go\<close>).

  A \<^verbatim>\<open>*big.Int\<close> is an \<^typ>\<open>int\<close>, an \<^typ>\<open>int option\<close> where the code tests it for nil.
  RLP and Keccak are not part of the repository: the hash of an encoded value is
  the parameter \<^verbatim>\<open>rlpHash\<close> of the definitions that take one.
\<close>

section \<open>Transactions\<close>

definition UndefinedTXType :: u64 where "UndefinedTXType = 0"
definition IntraTXType :: u64 where "IntraTXType = 1"
definition CrossTXType1 :: u64 where "CrossTXType1 = 2"
definition CrossTXType2 :: u64 where "CrossTXType2 = 3"
definition RollbackTXType :: u64 where "RollbackTXType = 4"

lemmas txtype_defs = UndefinedTXType_def IntraTXType_def CrossTXType1_def CrossTXType2_def
  RollbackTXType_def

definition TxTypeStr :: "u64 \<Rightarrow> string" where
  "TxTypeStr txType =
    (if txType = IntraTXType then ''IntraTXType''
     else if txType = CrossTXType1 then ''CrossTXType1''
     else if txType = CrossTXType2 then ''CrossTXType2''
     else if txType = RollbackTXType then ''RollbackType''
     else ''UnknownType'')"

definition DefaultStatus :: u64 where "DefaultStatus = 0"
definition IntraSuccess :: u64 where "IntraSuccess = 1"
definition CrossTXType1Success :: u64 where "CrossTXType1Success = 2"
definition CrossTXType2Success :: u64 where "CrossTXType2Success = 3"
definition RollbackSuccess :: u64 where "RollbackSuccess = 4"
definition Dropped :: u64 where "Dropped = 5"
definition CrossTXType2Fail :: u64 where "CrossTXType2Fail = 6"
definition RollbackFail :: u64 where "RollbackFail = 7"

lemmas status_defs = DefaultStatus_def IntraSuccess_def CrossTXType1Success_def
  CrossTXType2Success_def RollbackSuccess_def Dropped_def CrossTXType2Fail_def RollbackFail_def

record Transaction =
  TXtype :: u64
  ID :: u64
  Sender :: address
  Recipient :: address
  SenderNonce :: u64
  Value :: int
  Timestamp :: u64
  ConfirmTimestamp :: u64
  ConfirmHeight :: u64
  Cross1ConfirmHeight :: u64
  Sender_sid :: u32
  Recipient_sid :: u32
  TXStatus :: u64
  Cid :: u64
  RollbackHeight :: u64

definition NewTransaction :: "u64 \<Rightarrow> address \<Rightarrow> address \<Rightarrow> u64 \<Rightarrow> int \<Rightarrow> Transaction" where
  "NewTransaction txtype sender to senderNonce amount =
    \<lparr>TXtype = txtype, ID = 0, Sender = sender, Recipient = to, SenderNonce = senderNonce,
     Value = amount, Timestamp = 0, ConfirmTimestamp = 0, ConfirmHeight = 0,
     Cross1ConfirmHeight = 0, Sender_sid = 0, Recipient_sid = 0, TXStatus = 0, Cid = 0,
     RollbackHeight = 0\<rparr>"

definition CopyTransaction :: "Transaction \<Rightarrow> Transaction" where
  "CopyTransaction oldtx =
    \<lparr>TXtype = TXtype oldtx, ID = ID oldtx, Sender = Sender oldtx, Recipient = Recipient oldtx,
     SenderNonce = SenderNonce oldtx, Value = Value oldtx, Timestamp = Timestamp oldtx,
     ConfirmTimestamp = ConfirmTimestamp oldtx, ConfirmHeight = 0, Cross1ConfirmHeight = 0,
     Sender_sid = Sender_sid oldtx, Recipient_sid = Recipient_sid oldtx,
     TXStatus = DefaultStatus, Cid = 0, RollbackHeight = 0\<rparr>"

section \<open>Accounts, headers and blocks\<close>

record StateAccount =
  Nonce :: u64
  Balance :: int
  Root :: bytes
  CodeHash :: bytes

definition EncodeNonce :: "u64 \<Rightarrow> bytes" where
  "EncodeNonce i = putUint64 i"

definition BlockNonce_Uint64 :: "bytes \<Rightarrow> u64 go" where
  "BlockNonce_Uint64 n = getUint64 n"

record Header =
  hParentHash :: bytes
  hCoinbase :: address
  hRoot :: bytes
  hTxHash :: bytes
  hDifficulty :: "int option"
  hNumber :: "int option"
  hTime :: u64
  hMixDigest :: bytes
  hNonce :: bytes
  hShardID :: u64

record Block =
  bHeader :: Header
  bTransactions :: "Transaction list"
  bHash :: bytes
  bTd :: "int option"

definition zeroHash :: bytes where
  "zeroHash = replicate 32 0"

definition EmptyRootHash :: bytes where
  "EmptyRootHash = [0x56,0xe8,0x1f,0x17,0x1b,0xcc,0x55,0xa6,0xff,0x83,0x45,0xe6,0x92,0xc0,0xf8,0x6e,
    0x5b,0x48,0xe0,0x1b,0x99,0x6c,0xad,0xc0,0x01,0x62,0x2f,0xb5,0xe3,0x63,0xb4,0x21]"

definition CopyHeader :: "Header \<Rightarrow> Header" where
  "CopyHeader h = h\<lparr>hDifficulty := Some (case hDifficulty h of None \<Rightarrow> 0 | Some d \<Rightarrow> d),
                    hNumber := Some (case hNumber h of None \<Rightarrow> 0 | Some n \<Rightarrow> n)\<rparr>"

definition NewBlock :: "(Transaction list \<Rightarrow> bytes) \<Rightarrow> Header \<Rightarrow> Transaction list \<Rightarrow> Block" where
  "NewBlock DeriveSha header txs =
    (let hd0 = CopyHeader header in
     if length txs = 0
     then \<lparr>bHeader = hd0\<lparr>hTxHash := EmptyRootHash\<rparr>, bTransactions = [], bHash = zeroHash, bTd = Some 0\<rparr>
     else \<lparr>bHeader = hd0\<lparr>hTxHash := DeriveSha txs\<rparr>, bTransactions = txs, bHash = zeroHash,
           bTd = Some 0\<rparr>)"

definition Header_Hash :: "(Header \<Rightarrow> bytes option) \<Rightarrow> Header \<Rightarrow> bytes go" where
  "Header_Hash rlpHash h =
    (case rlpHash h of None \<Rightarrow> Inl (Exit ''block Header hash fail.'') | Some hash \<Rightarrow> Inr hash)"

definition GetHash :: "(Header \<Rightarrow> bytes option) \<Rightarrow> Block \<Rightarrow> (bytes \<times> Block) go" where
  "GetHash rlpHash b =
    (if bHash b = zeroHash
     then go_bind (Header_Hash rlpHash (bHeader b)) (\<lambda>h. Inr (h, b\<lparr>bHash := h\<rparr>))
     else Inr (bHash b, b))"

definition WithBody :: "Block \<Rightarrow> Transaction list \<Rightarrow> Block" where
  "WithBody b txs = \<lparr>bHeader = CopyHeader (bHeader b), bTransactions = txs, bHash = zeroHash, bTd = None\<rparr>"

text \<open>\<^verbatim>\<open>big.Int.Uint64\<close>: the low 64 bits (of the magnitude for a negative number).\<close>

definition bigUint64 :: "int \<Rightarrow> u64" where
  "bigUint64 x = word_of_int \<bar>x\<bar>"

text \<open>A header and an empty block, for concrete instances.\<close>

definition sampleHeader :: Header where
  "sampleHeader = \<lparr>hParentHash = zeroHash, hCoinbase = [], hRoot = [], hTxHash = EmptyRootHash,
     hDifficulty = Some 1, hNumber = Some 0, hTime = 0, hMixDigest = zeroHash, hNonce = EncodeNonce 0,
     hShardID = 0\<rparr>"

definition sampleBlock :: Block where
  "sampleBlock = NewBlock (\<lambda>_. []) sampleHeader []"

section \<open>Facts\<close>

lemma txtype_distinct [simp]:
  "IntraTXType \<noteq> CrossTXType1" "IntraTXType \<noteq> CrossTXType2" "IntraTXType \<noteq> RollbackTXType"
  "CrossTXType1 \<noteq> CrossTXType2" "CrossTXType1 \<noteq> RollbackTXType" "CrossTXType2 \<noteq> RollbackTXType"
  "CrossTXType1 \<noteq> IntraTXType" "CrossTXType2 \<noteq> IntraTXType" "RollbackTXType \<noteq> IntraTXType"
  "CrossTXType2 \<noteq> CrossTXType1" "RollbackTXType \<noteq> CrossTXType1" "RollbackTXType \<noteq> CrossTXType2"
  by (simp_all add: txtype_defs)

lemma CopyHeader_idem [simp]: "CopyHeader (CopyHeader h) = CopyHeader h"
  by (simp add: CopyHeader_def)

lemma BlockNonce_EncodeNonce: "BlockNonce_Uint64 (EncodeNonce i) = Inr i"
  using getUint64_putUint64[of i "[]"] by (simp add: BlockNonce_Uint64_def EncodeNonce_def)

text \<open>A cached block hash stays right: hashing twice gives the same hash and the same block.\<close>

lemma GetHash_stable:
  assumes "GetHash rlpHash b = Inr (h, b')"
  shows "GetHash rlpHash b' = Inr (h, b')"
  using assms by (cases "rlpHash (bHeader b)")
    (auto simp: GetHash_def Header_Hash_def split: if_splits)

end
