(* ===== verification/Executor.thy ===== *)
theory Executor
  imports Core_Types
begin

text \<open>
  Execution of a block. The committee's worker runs it on the account states it
  fetched from the shard (\<^verbatim>\<open>src/committee/worker.go\<close>); the shard runs it again on its
  \<^verbatim>\<open>StateDB\<close> (\<^verbatim>\<open>src/shard/shard.go\<close>, \<^verbatim>\<open>src/shard/msgHandler.go\<close>). Both are shown to
  implement one abstract ledger, whose laws then give atomicity and conservation.

  \<^verbatim>\<open>StateDB\<close> is go-ethereum's: its operations are the parameter \<^verbatim>\<open>ops\<close> and the laws
  the code relies on are the locale \<^verbatim>\<open>state_db\<close>.
\<close>

section \<open>The abstract ledger\<close>

type_synonym ledger = "address \<Rightarrow> u64 \<times> int"

definition nonceDelta :: "Transaction \<Rightarrow> address \<Rightarrow> u64" where
  "nonceDelta tx a =
    (if a = Sender tx then
       (if TXtype tx = IntraTXType \<or> TXtype tx = CrossTXType1 then 1
        else if TXtype tx = RollbackTXType then -1 else 0)
     else 0)"

definition balanceDelta :: "Transaction \<Rightarrow> address \<Rightarrow> int" where
  "balanceDelta tx a =
    (if a = Sender tx then
       (if TXtype tx = IntraTXType \<or> TXtype tx = CrossTXType1 then - Value tx
        else if TXtype tx = RollbackTXType then Value tx else 0)
     else 0) +
    (if a = Recipient tx \<and> (TXtype tx = IntraTXType \<or> TXtype tx = CrossTXType2) then Value tx else 0)"

definition applyTx :: "Transaction \<Rightarrow> ledger \<Rightarrow> ledger" where
  "applyTx tx L = (\<lambda>a. (fst (L a) + nonceDelta tx a, snd (L a) + balanceDelta tx a))"

definition knownType :: "Transaction \<Rightarrow> bool" where
  "knownType tx \<longleftrightarrow> TXtype tx \<in> {IntraTXType, CrossTXType1, CrossTXType2, RollbackTXType}"

section \<open>The worker\<close>

definition addBalance :: "int \<Rightarrow> StateAccount \<Rightarrow> StateAccount" where
  "addBalance val state = state\<lparr>Balance := Balance state + val\<rparr>"

definition subBalance :: "int \<Rightarrow> StateAccount \<Rightarrow> StateAccount" where
  "subBalance val state = state\<lparr>Balance := Balance state - val\<rparr>"

definition addNonceByOne :: "StateAccount \<Rightarrow> StateAccount" where
  "addNonceByOne state = state\<lparr>Nonce := Nonce state + 1\<rparr>"

definition subNonceByOne :: "StateAccount \<Rightarrow> StateAccount" where
  "subNonceByOne state = state\<lparr>Nonce := Nonce state - 1\<rparr>"

text \<open>
  \<^verbatim>\<open>addr2State\<close> maps an address to a pointer to its own account object, and
  \<^verbatim>\<open>updatedStates\<close> stores the same pointers under the hash of the address. The model
  keeps one cell per address, and \<^verbatim>\<open>updatedStates\<close> holds the address of the cell.
\<close>

type_synonym accounts = "address \<rightharpoonup> StateAccount"
type_synonym updated = "bytes \<rightharpoonup> address"

definition onAccount :: "address \<Rightarrow> (StateAccount \<Rightarrow> StateAccount) \<Rightarrow> accounts \<Rightarrow> accounts go" where
  "onAccount a f addr2State =
    (case addr2State a of None \<Rightarrow> Inl (Panic ''nil pointer dereference'')
     | Some s \<Rightarrow> Inr (addr2State(a \<mapsto> f s)))"

definition executeTransaction ::
  "(bytes \<Rightarrow> bytes) \<Rightarrow> Transaction \<Rightarrow> accounts \<times> updated \<Rightarrow> (Transaction \<times> accounts \<times> updated) go" where
  "executeTransaction getHash tx st =
    (case st of (addr2State, updatedStates) \<Rightarrow>
     if TXtype tx = IntraTXType then
       go_bind (onAccount (Sender tx) (subBalance (Value tx) \<circ> addNonceByOne) addr2State) (\<lambda>s1.
       go_bind (onAccount (Recipient tx) (addBalance (Value tx)) s1) (\<lambda>s2.
       Inr (tx\<lparr>TXStatus := IntraSuccess\<rparr>, s2,
            updatedStates(getHash (Sender tx) \<mapsto> Sender tx, getHash (Recipient tx) \<mapsto> Recipient tx))))
     else if TXtype tx = CrossTXType1 then
       go_bind (onAccount (Sender tx) (subBalance (Value tx) \<circ> addNonceByOne) addr2State) (\<lambda>s1.
       Inr (tx\<lparr>TXStatus := CrossTXType1Success\<rparr>, s1, updatedStates(getHash (Sender tx) \<mapsto> Sender tx)))
     else if TXtype tx = CrossTXType2 then
       go_bind (onAccount (Recipient tx) (addBalance (Value tx)) addr2State) (\<lambda>s1.
       Inr (tx\<lparr>TXStatus := CrossTXType2Success\<rparr>, s1,
            updatedStates(getHash (Recipient tx) \<mapsto> Recipient tx)))
     else if TXtype tx = RollbackTXType then
       go_bind (onAccount (Sender tx) (addBalance (Value tx) \<circ> subNonceByOne) addr2State) (\<lambda>s1.
       Inr (tx\<lparr>TXStatus := RollbackSuccess\<rparr>, s1, updatedStates(getHash (Sender tx) \<mapsto> Sender tx)))
     else Inl (Exit ''Oops, something wrong! Cannot handle tx type''))"

text \<open>The transactions are pointers into the block: executing them updates their status there.\<close>

fun executeTransactions ::
  "(bytes \<Rightarrow> bytes) \<Rightarrow> Transaction list \<Rightarrow> accounts \<times> updated \<Rightarrow>
   (Transaction list \<times> accounts \<times> updated) go" where
  "executeTransactions getHash [] st = Inr ([], st)"
| "executeTransactions getHash (tx # txs) st =
    go_bind (executeTransaction getHash tx st) (\<lambda>(tx', st').
    go_bind (executeTransactions getHash txs st') (\<lambda>(txs', st'').
    Inr (tx' # txs', st'')))"

text \<open>The map \<^verbatim>\<open>updatedStates\<close> as the rest of the worker reads it, pointers followed.\<close>

definition derefUpdated :: "accounts \<times> updated \<Rightarrow> bytes \<rightharpoonup> StateAccount" where
  "derefUpdated st = (\<lambda>h. case snd st h of None \<Rightarrow> None | Some a \<Rightarrow> fst st a)"

section \<open>The shard\<close>

record 'db StateDB =
  GetNonce :: "'db \<Rightarrow> address \<Rightarrow> u64"
  GetBalance :: "'db \<Rightarrow> address \<Rightarrow> int"
  SetNonce :: "address \<Rightarrow> u64 \<Rightarrow> 'db \<Rightarrow> 'db"
  AddBalance :: "address \<Rightarrow> int \<Rightarrow> 'db \<Rightarrow> 'db"
  SubBalance :: "address \<Rightarrow> int \<Rightarrow> 'db \<Rightarrow> 'db"
  IntermediateRoot :: "'db \<Rightarrow> bytes \<times> 'db"
  Commit :: "'db \<Rightarrow> 'db"

definition shardExecuteTransaction :: "'db StateDB \<Rightarrow> Transaction \<Rightarrow> 'db \<Rightarrow> 'db go" where
  "shardExecuteTransaction ops tx state =
    (if TXtype tx = IntraTXType then
       let s1 = SetNonce ops (Sender tx) (GetNonce ops state (Sender tx) + 1) state;
           s2 = SubBalance ops (Sender tx) (Value tx) s1
       in Inr (AddBalance ops (Recipient tx) (Value tx) s2)
     else if TXtype tx = CrossTXType1 then
       let s1 = SetNonce ops (Sender tx) (GetNonce ops state (Sender tx) + 1) state
       in Inr (SubBalance ops (Sender tx) (Value tx) s1)
     else if TXtype tx = CrossTXType2 then Inr (AddBalance ops (Recipient tx) (Value tx) state)
     else if TXtype tx = RollbackTXType then
       let s1 = SetNonce ops (Sender tx) (GetNonce ops state (Sender tx) - 1) state
       in Inr (AddBalance ops (Sender tx) (Value tx) s1)
     else Inl (Exit ''Oops, something wrong! Cannot handle tx type''))"

record 'db Shard =
  blocks :: "Block list"
  currentBlock :: Block
  statedb :: 'db
  activeAddrs :: "address \<rightharpoonup> int"
  tMPT_activeAddrs :: "address \<rightharpoonup> int"
  height2Reconfig :: int
  tbchain_height :: u64
  fastsyncBlockNum :: int

definition bump :: "address \<Rightarrow> (address \<rightharpoonup> int) \<Rightarrow> (address \<rightharpoonup> int)" where
  "bump a m = m(a \<mapsto> (case m a of None \<Rightarrow> 1 | Some n \<Rightarrow> n + 1))"

definition shardStep :: "'db StateDB \<Rightarrow> Transaction \<Rightarrow> 'db Shard \<Rightarrow> 'db Shard go" where
  "shardStep ops tx s =
    go_bind (shardExecuteTransaction ops tx (statedb s)) (\<lambda>db.
    Inr (s\<lparr>statedb := db,
           activeAddrs := bump (Recipient tx) (bump (Sender tx) (activeAddrs s)),
           tMPT_activeAddrs := bump (Recipient tx) (bump (Sender tx) (tMPT_activeAddrs s))\<rparr>))"

definition shardExecuteTransactions ::
  "'db StateDB \<Rightarrow> Transaction list \<Rightarrow> 'db Shard \<Rightarrow> (bytes \<times> 'db Shard) go" where
  "shardExecuteTransactions ops txs s =
    go_bind (go_fold (shardStep ops) txs s) (\<lambda>s1.
    let (root, db) = IntermediateRoot ops (statedb s1)
    in Inr (root, s1\<lparr>statedb := Commit ops db\<rparr>))"

definition WriteBlock :: "Block \<Rightarrow> 'db Shard \<Rightarrow> 'db Shard" where
  "WriteBlock block s = s\<lparr>currentBlock := block, blocks := blocks s @ [block]\<rparr>"

definition shardAddTBs :: "u64 \<Rightarrow> 'db Shard \<Rightarrow> 'db Shard" where
  "shardAddTBs tbHeight s = s\<lparr>tbchain_height := tbHeight\<rparr>"

definition HandleComGetHeight :: "'db Shard \<Rightarrow> int go" where
  "HandleComGetHeight s =
    (case hNumber (bHeader (currentBlock s)) of
       None \<Rightarrow> Inl (Panic ''nil pointer dereference'') | Some n \<Rightarrow> Inr n)"

definition HandleComSendBlock :: "'db StateDB \<Rightarrow> Block \<Rightarrow> 'db Shard \<Rightarrow> 'db Shard go" where
  "HandleComSendBlock ops block s =
    (let s1 = WriteBlock block s;
         m = word_of_int (height2Reconfig s1) :: u64
     in if m = 0 then Inl (Panic ''integer divide by zero'') else
        let s2 = (if tbchain_height s1 mod m = 1 then s1\<lparr>tMPT_activeAddrs := Map.empty\<rparr> else s1)
        in go_bind (shardExecuteTransactions ops (bTransactions block) s2) (\<lambda>(trieRoot, s3).
           if trieRoot \<noteq> hRoot (bHeader block) then Inl (Exit ''trie root not the same.'')
           else Inr s3))"

definition SetInitialAccountState :: "'db StateDB \<Rightarrow> address list \<Rightarrow> int \<Rightarrow> 'db Shard \<Rightarrow> 'db Shard go" where
  "SetInitialAccountState ops addrs maxValue s =
    go_fold (\<lambda>addr s. let db = AddBalance ops addr maxValue (statedb s)
       in if GetBalance ops db addr \<noteq> maxValue then Inl (Exit ''Opps, something wrong!'')
          else Inr (s\<lparr>statedb := db\<rparr>)) addrs s"

record SyncData =
  sdStates :: "address \<rightharpoonup> StateAccount"
  sdBlocks :: "Block list"

definition activeStates :: "'db StateDB \<Rightarrow> bytes \<Rightarrow> (address \<rightharpoonup> int) \<Rightarrow> 'db \<Rightarrow> address \<rightharpoonup> StateAccount" where
  "activeStates ops emptyCodeHash active db =
    (\<lambda>a. if active a = None then None
         else Some \<lparr>Nonce = GetNonce ops db a, Balance = GetBalance ops db a,
                    Root = EmptyRootHash, CodeHash = emptyCodeHash\<rparr>)"

definition HandleGetSyncData :: "'db StateDB \<Rightarrow> bytes \<Rightarrow> string \<Rightarrow> 'db Shard \<Rightarrow> SyncData go" where
  "HandleGetSyncData ops emptyCodeHash syncType s =
    (if syncType = ''fastsync'' then
       let n = min (int (length (blocks s))) (fastsyncBlockNum s)
       in if n < 0 then Inl (Panic ''slice bounds out of range'')
          else Inr \<lparr>sdStates = activeStates ops emptyCodeHash (activeAddrs s) (statedb s),
                    sdBlocks = drop (length (blocks s) - nat n) (blocks s)\<rparr>
     else if syncType = ''tMPTsync'' then
       Inr \<lparr>sdStates = activeStates ops emptyCodeHash (tMPT_activeAddrs s) (statedb s), sdBlocks = []\<rparr>
     else if syncType = ''fullsync'' then Inr \<lparr>sdStates = Map.empty, sdBlocks = blocks s\<rparr>
     else Inl (Exit ''unknown sync type''))"

section \<open>What the shard relies on\<close>

definition ledgerOf :: "'db StateDB \<Rightarrow> 'db \<Rightarrow> ledger" where
  "ledgerOf ops db = (\<lambda>a. (GetNonce ops db a, GetBalance ops db a))"

text \<open>
  A small in-memory account database, enough to run the definitions of this theory:
  an association list, whose root is its serialisation.
\<close>

type_synonym memDB = "(address \<times> u64 \<times> int) list"

definition memGet :: "memDB \<Rightarrow> address \<Rightarrow> u64 \<times> int" where
  "memGet db a = (case map_of db a of None \<Rightarrow> (0, 0) | Some v \<Rightarrow> v)"

definition memSet :: "address \<Rightarrow> u64 \<times> int \<Rightarrow> memDB \<Rightarrow> memDB" where
  "memSet a v db = (a, v) # filter (\<lambda>e. fst e \<noteq> a) db"

definition memStateDB :: "memDB StateDB" where
  "memStateDB = \<lparr>GetNonce = (\<lambda>db a. fst (memGet db a)), GetBalance = (\<lambda>db a. snd (memGet db a)),
     SetNonce = (\<lambda>a n db. memSet a (n, snd (memGet db a)) db),
     AddBalance = (\<lambda>a v db. memSet a (fst (memGet db a), snd (memGet db a) + v) db),
     SubBalance = (\<lambda>a v db. memSet a (fst (memGet db a), snd (memGet db a) - v) db),
     IntermediateRoot = (\<lambda>db. (concat (map (\<lambda>(a, n, b). a @ putUint64 n @ putUint64 (word_of_int b)) db), db)),
     Commit = (\<lambda>db. db)\<rparr>"

lemma map_of_filter_other: "a \<noteq> b \<Longrightarrow> map_of (filter (\<lambda>e. fst e \<noteq> a) db) b = map_of db b"
  by (induction db) auto

lemma memGet_memSet [simp]: "memGet (memSet a v db) b = (if a = b then v else memGet db b)"
  by (simp add: memGet_def memSet_def map_of_filter_other)

locale state_db =
  fixes ops :: "'db StateDB"
  assumes GetNonce_SetNonce: "GetNonce ops (SetNonce ops a n s) b = (if a = b then n else GetNonce ops s b)"
    and GetBalance_SetNonce: "GetBalance ops (SetNonce ops a n s) b = GetBalance ops s b"
    and GetNonce_AddBalance: "GetNonce ops (AddBalance ops a v s) b = GetNonce ops s b"
    and GetBalance_AddBalance: "GetBalance ops (AddBalance ops a v s) b =
      (if a = b then GetBalance ops s b + v else GetBalance ops s b)"
    and GetNonce_SubBalance: "GetNonce ops (SubBalance ops a v s) b = GetNonce ops s b"
    and GetBalance_SubBalance: "GetBalance ops (SubBalance ops a v s) b =
      (if a = b then GetBalance ops s b - v else GetBalance ops s b)"
    and GetNonce_Root: "GetNonce ops (snd (IntermediateRoot ops s)) b = GetNonce ops s b"
    and GetBalance_Root: "GetBalance ops (snd (IntermediateRoot ops s)) b = GetBalance ops s b"
    and GetNonce_Commit: "GetNonce ops (Commit ops s) b = GetNonce ops s b"
    and GetBalance_Commit: "GetBalance ops (Commit ops s) b = GetBalance ops s b"
begin

lemmas laws = GetNonce_SetNonce GetBalance_SetNonce GetNonce_AddBalance GetBalance_AddBalance
  GetNonce_SubBalance GetBalance_SubBalance GetNonce_Root GetBalance_Root GetNonce_Commit
  GetBalance_Commit

text \<open>One transaction on the shard is one step of the ledger.\<close>

lemma execute_refines:
  assumes "knownType tx"
  shows "\<exists>db'. shardExecuteTransaction ops tx db = Inr db' \<and>
    ledgerOf ops db' = applyTx tx (ledgerOf ops db)"
  using assms
  by (auto simp: knownType_def shardExecuteTransaction_def ledgerOf_def applyTx_def Let_def laws
      nonceDelta_def balanceDelta_def)

lemma unknown_exits:
  "\<not> knownType tx \<Longrightarrow> \<exists>e. shardExecuteTransaction ops tx db = Inl (Exit e)"
  by (auto simp: knownType_def shardExecuteTransaction_def)

lemma steps_refine:
  assumes "\<forall>tx\<in>set txs. knownType tx"
  shows "\<exists>s'. go_fold (shardStep ops) txs s = Inr s' \<and>
    ledgerOf ops (statedb s') = fold applyTx txs (ledgerOf ops (statedb s)) \<and>
    blocks s' = blocks s \<and> currentBlock s' = currentBlock s"
  using assms
proof (induction txs arbitrary: s)
  case (Cons tx txs)
  then obtain db where db: "shardExecuteTransaction ops tx (statedb s) = Inr db"
    "ledgerOf ops db = applyTx tx (ledgerOf ops (statedb s))"
    using execute_refines[of tx "statedb s"] by auto
  then obtain s1 where "shardStep ops tx s = Inr s1" "statedb s1 = db" "blocks s1 = blocks s"
    "currentBlock s1 = currentBlock s"
    by (simp add: shardStep_def)
  with Cons.IH[of s1] Cons.prems db(2) show ?case by auto
qed simp

lemma block_refines:
  assumes "\<forall>tx\<in>set txs. knownType tx"
  shows "\<exists>root s'. shardExecuteTransactions ops txs s = Inr (root, s') \<and>
    ledgerOf ops (statedb s') = fold applyTx txs (ledgerOf ops (statedb s)) \<and>
    blocks s' = blocks s \<and> currentBlock s' = currentBlock s"
proof -
  obtain s1 where s1: "go_fold (shardStep ops) txs s = Inr s1"
    "ledgerOf ops (statedb s1) = fold applyTx txs (ledgerOf ops (statedb s))"
    "blocks s1 = blocks s" "currentBlock s1 = currentBlock s"
    using steps_refine[OF assms] by blast
  obtain root db where r: "IntermediateRoot ops (statedb s1) = (root, db)" by force
  have "ledgerOf ops (Commit ops db) = ledgerOf ops (statedb s1)"
    using GetNonce_Root[of "statedb s1"] GetBalance_Root[of "statedb s1"] r
    by (simp add: ledgerOf_def laws)
  with s1 r show ?thesis by (auto simp: shardExecuteTransactions_def)
qed

end

interpretation mem: state_db memStateDB
  by unfold_locales (simp_all add: memStateDB_def)

section \<open>Laws of the ledger\<close>

text \<open>Transactions add to nonces and balances, so their order does not matter.\<close>

lemma applyTx_commute: "applyTx t1 (applyTx t2 L) = applyTx t2 (applyTx t1 L)"
  by (auto simp: applyTx_def algebra_simps)

lemma fold_applyTx_commute: "fold applyTx txs (applyTx t L) = applyTx t (fold applyTx txs L)"
  by (induction txs arbitrary: L) (simp_all add: applyTx_commute[of _ t])

lemma fold_applyTx_perm: "mset txs = mset txs' \<Longrightarrow> fold applyTx txs L = fold applyTx txs' L"
  by (rule fold_multiset_equiv[THEN fun_cong]) (auto simp: fun_eq_iff applyTx_commute)

lemma applyTx_rollback:
  assumes "TXtype c1 = CrossTXType1" "TXtype rb = RollbackTXType" "Sender rb = Sender c1"
    "Value rb = Value c1"
  shows "applyTx rb (applyTx c1 L) = L"
  using assms by (auto simp: applyTx_def nonceDelta_def balanceDelta_def fun_eq_iff prod_eq_iff)

definition totalBalance :: "address set \<Rightarrow> ledger \<Rightarrow> int" where
  "totalBalance A L = (\<Sum>a\<in>A. snd (L a))"

definition supplyDelta :: "Transaction \<Rightarrow> int" where
  "supplyDelta tx =
    (if TXtype tx = CrossTXType1 then - Value tx
     else if TXtype tx = CrossTXType2 \<or> TXtype tx = RollbackTXType then Value tx else 0)"

lemma totalBalance_applyTx:
  assumes "finite A" "Sender tx \<in> A" "Recipient tx \<in> A"
  shows "totalBalance A (applyTx tx L) = totalBalance A L + supplyDelta tx"
proof -
  have "(\<Sum>a\<in>A. balanceDelta tx a) = supplyDelta tx"
    using assms by (simp add: balanceDelta_def supplyDelta_def sum.distrib sum.delta)
  then show ?thesis by (simp add: totalBalance_def applyTx_def sum.distrib)
qed

lemma totalBalance_fold:
  assumes "finite A" "\<forall>tx\<in>set txs. Sender tx \<in> A \<and> Recipient tx \<in> A"
  shows "totalBalance A (fold applyTx txs L) = totalBalance A L + (\<Sum>tx\<leftarrow>txs. supplyDelta tx)"
  using assms(2) by (induction txs arbitrary: L) (simp_all add: totalBalance_applyTx[OF assms(1)])

section \<open>The worker implements the ledger\<close>

definition touched :: "Transaction \<Rightarrow> address set" where
  "touched tx =
    (if TXtype tx = IntraTXType then {Sender tx, Recipient tx}
     else if TXtype tx = CrossTXType2 then {Recipient tx} else {Sender tx})"

definition agrees :: "accounts \<Rightarrow> ledger \<Rightarrow> bool" where
  "agrees c L \<longleftrightarrow> (\<forall>a s. c a = Some s \<longrightarrow> Nonce s = fst (L a) \<and> Balance s = snd (L a))"

lemma executeTransaction_refines:
  assumes "executeTransaction H tx (c, u) = Inr (tx', c', u')" "agrees c L"
  shows "knownType tx" "\<exists>st. tx' = tx\<lparr>TXStatus := st\<rparr> \<and> st \<noteq> DefaultStatus" "dom c' = dom c"
    "agrees c' (applyTx tx L)" "touched tx \<subseteq> dom c"
  using assms
  by (auto simp: executeTransaction_def onAccount_def go_bind_eq_Inr_iff knownType_def agrees_def
      applyTx_def nonceDelta_def balanceDelta_def  addBalance_def subBalance_def
      addNonceByOne_def subNonceByOne_def touched_def status_defs
      split: if_splits option.splits)

lemma executeTransaction_updated:
  assumes "executeTransaction H tx (c, u) = Inr (tx', c', u')" "inj_on H (dom c)" "a \<in> dom c"
  shows "u' (H a) = (if a \<in> touched tx then Some a else u (H a))"
proof -
  have sub: "touched tx \<subseteq> dom c"
    using executeTransaction_refines(5)[OF assms(1), of "\<lambda>a. case c a of Some s \<Rightarrow> (Nonce s, Balance s)"]
    by (simp add: agrees_def)
  have inj: "H a = H b \<longleftrightarrow> a = b" if "b \<in> dom c" for b
    using assms(2,3) that by (auto dest: inj_onD)
  show ?thesis
    using assms(1) sub inj[of "Sender tx"] inj[of "Recipient tx"]
    by (auto simp: executeTransaction_def go_bind_eq_Inr_iff touched_def split: if_splits)
qed

text \<open>The status is the only field execution changes, and the ledger does not read it.\<close>

lemma applyTx_status [simp]: "applyTx (tx\<lparr>TXStatus := st\<rparr>) = applyTx tx"
  by (simp add: fun_eq_iff applyTx_def nonceDelta_def balanceDelta_def)

lemma knownType_status [simp]: "knownType (tx\<lparr>TXStatus := st\<rparr>) = knownType tx"
  by (simp add: knownType_def)

lemma executeTransactions_refines:
  assumes "executeTransactions H txs (c, u) = Inr (txs', c', u')" "agrees c L" "inj_on H (dom c)"
  shows "agrees c' (fold applyTx txs L) \<and> dom c' = dom c \<and>
    (\<forall>tx\<in>set txs. knownType tx \<and> touched tx \<subseteq> dom c) \<and>
    list_all2 (\<lambda>tx tx'. \<exists>st. tx' = tx\<lparr>TXStatus := st\<rparr> \<and> st \<noteq> DefaultStatus) txs txs' \<and>
    (\<forall>a\<in>dom c. u' (H a) = (if \<exists>tx\<in>set txs. a \<in> touched tx then Some a else u (H a)))"
  using assms
proof (induction txs arbitrary: c u L txs')
  case (Cons tx txs)
  from Cons.prems(1) obtain tx1 c1 u1 txs1 where step:
    "executeTransaction H tx (c, u) = Inr (tx1, c1, u1)" "txs' = tx1 # txs1"
    "executeTransactions H txs (c1, u1) = Inr (txs1, c', u')"
    by (auto simp: go_bind_eq_Inr_iff)
  note r = executeTransaction_refines[OF step(1) Cons.prems(2)]
  have "inj_on H (dom c1)" using Cons.prems(3) r(3) by simp
  from Cons.IH[OF step(3) r(4) this] r step(2)
    executeTransaction_updated[OF step(1) Cons.prems(3)] show ?case by auto
qed simp

lemma list_all2_status_fold:
  "list_all2 (\<lambda>tx tx'. \<exists>st. tx' = tx\<lparr>TXStatus := st\<rparr> \<and> st \<noteq> DefaultStatus) txs txs' \<Longrightarrow>
   fold applyTx txs' L = fold applyTx txs L \<and> (\<forall>tx\<in>set txs'. TXStatus tx \<noteq> DefaultStatus) \<and>
   ((\<forall>tx\<in>set txs. knownType tx) \<longrightarrow> (\<forall>tx\<in>set txs'. knownType tx))"
  by (induction txs txs' arbitrary: L rule: list_all2_induct) auto

lemma fold_applyTx_untouched:
  "\<forall>tx\<in>set txs. knownType tx \<and> a \<notin> touched tx \<Longrightarrow> fold applyTx txs L a = L a"
proof (induction txs arbitrary: L)
  case (Cons tx txs)
  then have "applyTx tx L a = L a"
    by (auto simp: applyTx_def nonceDelta_def balanceDelta_def touched_def knownType_def split: if_splits)
  with Cons show ?case by simp
qed simp

text \<open>What the shard does to its database, without the bookkeeping of active addresses.\<close>

lemma shardStep_database:
  assumes "go_fold (shardStep ops) txs s = Inr s'"
  shows "go_fold (shardExecuteTransaction ops) txs (statedb s) = Inr (statedb s')"
  using assms
proof (induction txs arbitrary: s)
  case (Cons tx txs)
  then obtain s1 where s1: "shardStep ops tx s = Inr s1" "go_fold (shardStep ops) txs s1 = Inr s'"
    by (auto simp: go_bind_eq_Inr_iff)
  from s1(1) have "shardExecuteTransaction ops tx (statedb s) = Inr (statedb s1)"
    by (auto simp: shardStep_def go_bind_eq_Inr_iff)
  with Cons.IH[OF s1(2)] show ?case by simp
qed simp

section \<open>Sample data\<close>

definition sampleShard :: "memDB Shard" where
  "sampleShard = \<lparr>blocks = [], currentBlock = sampleBlock,
     statedb = [([1], 0, 100), ([2], 7, 50)], activeAddrs = Map.empty, tMPT_activeAddrs = Map.empty,
     height2Reconfig = 5, tbchain_height = 3, fastsyncBlockNum = 2\<rparr>"

definition sampleAccounts :: accounts where
  "sampleAccounts = [[1] \<mapsto> \<lparr>Nonce = 0, Balance = 100, Root = [], CodeHash = []\<rparr>,
                     [2] \<mapsto> \<lparr>Nonce = 7, Balance = 50, Root = [], CodeHash = []\<rparr>]"

lemma knownType_New [simp]:
  "knownType (NewTransaction ty a b n v) \<longleftrightarrow>
   ty \<in> {IntraTXType, CrossTXType1, CrossTXType2, RollbackTXType}"
  by (simp add: knownType_def NewTransaction_def)

section \<open>Properties\<close>

text \<open>
  C1. Stateless execution is faithful. If the account states the committee fetched agree
  with the shard's database, and no two of the fetched addresses hash alike, then whenever
  the worker executes a list of transactions, the shard executes the resulting block
  without failing, the worker's accounts agree with the shard's new database, and
  \<^verbatim>\<open>updatedStates\<close> contains, under the hash of its address, the new state of every account
  whose nonce or balance changed.
\<close>

theorem committee_execution_matches_shard:
  assumes "state_db ops" "inj_on getHash (dom addr2State)"
    "agrees addr2State (ledgerOf ops (statedb s))"
    "executeTransactions getHash txs (addr2State, Map.empty) = Inr (txs', st')"
  shows "\<exists>root s'. shardExecuteTransactions ops txs' s = Inr (root, s') \<and>
    agrees (fst st') (ledgerOf ops (statedb s')) \<and>
    (\<forall>a. ledgerOf ops (statedb s') a \<noteq> ledgerOf ops (statedb s) a \<longrightarrow>
      (\<exists>acc. derefUpdated st' (getHash a) = Some acc \<and>
        Nonce acc = GetNonce ops (statedb s') a \<and> Balance acc = GetBalance ops (statedb s') a))"
proof -
  obtain c u where st: "st' = (c, u)" by force
  let ?L = "ledgerOf ops (statedb s)"
  note w = executeTransactions_refines[OF assms(4)[unfolded st] assms(3,2)]
  then have l: "\<forall>tx\<in>set txs'. knownType tx" "fold applyTx txs' ?L = fold applyTx txs ?L"
    using list_all2_status_fold[of txs txs'] by auto
  from state_db.block_refines[OF assms(1) l(1)] obtain root s' where sh:
    "shardExecuteTransactions ops txs' s = Inr (root, s')"
    "ledgerOf ops (statedb s') = fold applyTx txs ?L"
    using l(2) by metis
  moreover have "\<exists>acc. derefUpdated st' (getHash a) = Some acc \<and>
      Nonce acc = GetNonce ops (statedb s') a \<and> Balance acc = GetBalance ops (statedb s') a"
    if "ledgerOf ops (statedb s') a \<noteq> ?L a" for a
  proof -
    from that have t: "\<exists>tx\<in>set txs. a \<in> touched tx"
      using fold_applyTx_untouched[of txs a ?L] w sh(2) by auto
    with w have "a \<in> dom c" by blast
    then obtain acc where acc: "c a = Some acc" by blast
    moreover have "u (getHash a) = Some a" using w t \<open>a \<in> dom c\<close> by simp
    moreover have "Nonce acc = fst (ledgerOf ops (statedb s') a) \<and>
        Balance acc = snd (ledgerOf ops (statedb s') a)"
      using w sh(2) acc unfolding agrees_def by metis
    ultimately show ?thesis by (simp add: derefUpdated_def st ledgerOf_def)
  qed
  ultimately show ?thesis using w st by auto
qed

theorem committee_execution_matches_shard_witness:
  "\<exists>root s'. shardExecuteTransactions memStateDB
       [(NewTransaction IntraTXType [1] [2] 0 30)\<lparr>TXStatus := IntraSuccess\<rparr>] sampleShard = Inr (root, s') \<and>
     agrees (sampleAccounts([1] \<mapsto> \<lparr>Nonce = 1, Balance = 70, Root = [], CodeHash = []\<rparr>,
                            [2] \<mapsto> \<lparr>Nonce = 7, Balance = 80, Root = [], CodeHash = []\<rparr>))
       (ledgerOf memStateDB (statedb s'))"
proof -
  have a: "agrees sampleAccounts (ledgerOf memStateDB (statedb sampleShard))"
    by (auto simp: agrees_def sampleAccounts_def ledgerOf_def memStateDB_def sampleShard_def memGet_def
        split: if_splits)
  have e: "executeTransactions id [NewTransaction IntraTXType [1] [2] 0 30] (sampleAccounts, Map.empty)
     = Inr ([(NewTransaction IntraTXType [1] [2] 0 30)\<lparr>TXStatus := IntraSuccess\<rparr>],
        sampleAccounts([1] \<mapsto> \<lparr>Nonce = 1, Balance = 70, Root = [], CodeHash = []\<rparr>,
                       [2] \<mapsto> \<lparr>Nonce = 7, Balance = 80, Root = [], CodeHash = []\<rparr>),
        [[1] \<mapsto> [1], [2] \<mapsto> [2]])"
    by (simp add: executeTransaction_def NewTransaction_def onAccount_def sampleAccounts_def
        addBalance_def subBalance_def addNonceByOne_def fun_upd_twist)
  show ?thesis
    using committee_execution_matches_shard[OF mem.state_db_axioms inj_on_id a e] by auto
qed

text \<open>
  C5. A cross-shard transfer that is rolled back leaves no trace. When a shard executes
  the first half of a transfer, then any transactions, then the rollback, every nonce and
  every balance is what the transactions in between alone would have produced.
\<close>

theorem rollback_undoes_cross1:
  assumes "state_db ops" "TXtype c1 = CrossTXType1" "TXtype rb = RollbackTXType"
    "Sender rb = Sender c1" "Value rb = Value c1" "\<forall>tx\<in>set mid. knownType tx"
  shows "\<exists>r1 s1 r2 s2. shardExecuteTransactions ops (c1 # mid @ [rb]) s = Inr (r1, s1) \<and>
    shardExecuteTransactions ops mid s = Inr (r2, s2) \<and>
    ledgerOf ops (statedb s1) = ledgerOf ops (statedb s2)"
proof -
  have "\<forall>tx\<in>set (c1 # mid @ [rb]). knownType tx" using assms by (auto simp: knownType_def)
  from state_db.block_refines[OF assms(1) this, of s] state_db.block_refines[OF assms(1,6), of s]
  show ?thesis
    using applyTx_rollback[OF assms(2-5)] by (auto simp: fold_applyTx_commute)
qed

theorem rollback_undoes_cross1_witness:
  "\<exists>r1 s1 r2 s2. shardExecuteTransactions memStateDB
       (NewTransaction CrossTXType1 [1] [9] 0 40 # [NewTransaction IntraTXType [2] [1] 7 5] @
        [NewTransaction RollbackTXType [1] [9] 0 40]) sampleShard = Inr (r1, s1) \<and>
     shardExecuteTransactions memStateDB [NewTransaction IntraTXType [2] [1] 7 5] sampleShard = Inr (r2, s2) \<and>
     ledgerOf memStateDB (statedb s1) = ledgerOf memStateDB (statedb s2)"
  by (rule rollback_undoes_cross1[OF mem.state_db_axioms])
    (simp_all add: NewTransaction_def knownType_def)

text \<open>
  C6. Value is conserved. Executing a block changes the sum of the balances of any finite set of
  accounts that contains its senders and recipients by exactly what the block's cross-shard
  halves and rollbacks move: intra-shard transfers move nothing, a first half takes its value
  out, a second half or a rollback puts it in.
\<close>

theorem shard_conserves_value:
  assumes "state_db ops" "finite A"
    "\<forall>tx\<in>set txs. knownType tx \<and> Sender tx \<in> A \<and> Recipient tx \<in> A"
  shows "\<exists>root s'. shardExecuteTransactions ops txs s = Inr (root, s') \<and>
    totalBalance A (ledgerOf ops (statedb s')) =
      totalBalance A (ledgerOf ops (statedb s)) + (\<Sum>tx\<leftarrow>txs. supplyDelta tx)"
proof -
  have "\<forall>tx\<in>set txs. knownType tx" "\<forall>tx\<in>set txs. Sender tx \<in> A \<and> Recipient tx \<in> A"
    using assms(3) by auto
  from state_db.block_refines[OF assms(1) this(1), of s] totalBalance_fold[OF assms(2) this(2)]
  show ?thesis by auto
qed

theorem shard_conserves_value_witness:
  "\<exists>root s'. shardExecuteTransactions memStateDB
       [NewTransaction IntraTXType [2] [1] 7 5, NewTransaction CrossTXType1 [1] [2] 0 40]
       sampleShard = Inr (root, s') \<and> totalBalance {[1], [2]} (ledgerOf memStateDB (statedb s')) = 110"
proof -
  have "totalBalance {[1], [2]} (ledgerOf memStateDB (statedb sampleShard)) = 150"
    by (simp add: totalBalance_def ledgerOf_def memStateDB_def sampleShard_def memGet_def)
  then show ?thesis
    using shard_conserves_value[OF mem.state_db_axioms, of "{[1], [2]}"
        "[NewTransaction IntraTXType [2] [1] 7 5, NewTransaction CrossTXType1 [1] [2] 0 40]" sampleShard]
    by (simp add: NewTransaction_def knownType_def supplyDelta_def)
qed

text \<open>
  C20. The order of the transactions of a block does not influence the accounts the shard ends with.
\<close>

theorem shard_order_independent:
  assumes "state_db ops" "mset txs = mset txs'" "\<forall>tx\<in>set txs. knownType tx"
  shows "\<exists>r1 s1 r2 s2. shardExecuteTransactions ops txs s = Inr (r1, s1) \<and>
    shardExecuteTransactions ops txs' s = Inr (r2, s2) \<and>
    ledgerOf ops (statedb s1) = ledgerOf ops (statedb s2)"
proof -
  have "\<forall>tx\<in>set txs'. knownType tx" using assms(2,3) by (metis set_mset_mset)
  from state_db.block_refines[OF assms(1,3), of s] state_db.block_refines[OF assms(1) this, of s]
  show ?thesis using fold_applyTx_perm[OF assms(2)] by auto
qed

theorem shard_order_independent_witness:
  "\<exists>r1 s1 r2 s2. shardExecuteTransactions memStateDB
       [NewTransaction IntraTXType [2] [1] 7 5, NewTransaction CrossTXType1 [1] [2] 0 40] sampleShard
       = Inr (r1, s1) \<and>
     shardExecuteTransactions memStateDB
       [NewTransaction CrossTXType1 [1] [2] 0 40, NewTransaction IntraTXType [2] [1] 7 5] sampleShard
       = Inr (r2, s2) \<and>
     ledgerOf memStateDB (statedb s1) = ledgerOf memStateDB (statedb s2)"
  by (rule shard_order_independent[OF mem.state_db_axioms])
    (simp_all add: NewTransaction_def knownType_def add_mset_commute)

text \<open>
  C7. The shard accepts exactly the blocks whose state root it recomputes. For a block of known
  transaction types and a non-zero reconfiguration interval, the shard executes the transactions on
  its database in order, which changes the accounts as the ledger says. If the root of the
  database is then the one in the header, the handler commits the database, appends the block and makes it
  the current one; otherwise, and only then, it ends the process.
\<close>

theorem HandleComSendBlock_spec:
  assumes "state_db ops" "word_of_int (height2Reconfig s) \<noteq> (0 :: u64)"
    "\<forall>tx\<in>set (bTransactions block). knownType tx"
  shows "\<exists>db. go_fold (shardExecuteTransaction ops) (bTransactions block) (statedb s) = Inr db \<and>
    ledgerOf ops db = fold applyTx (bTransactions block) (ledgerOf ops (statedb s)) \<and>
    (if fst (IntermediateRoot ops db) = hRoot (bHeader block)
     then \<exists>s'. HandleComSendBlock ops block s = Inr s' \<and> statedb s' = Commit ops (snd (IntermediateRoot ops db)) \<and>
       ledgerOf ops (statedb s') = ledgerOf ops db \<and> blocks s' = blocks s @ [block] \<and> currentBlock s' = block
     else HandleComSendBlock ops block s = Inl (Exit ''trie root not the same.''))"
proof -
  define s1 where "s1 = WriteBlock block s"
  define s2 where "s2 = (if tbchain_height s1 mod (word_of_int (height2Reconfig s1)) = 1
    then s1\<lparr>tMPT_activeAddrs := Map.empty\<rparr> else s1)"
  have s2: "statedb s2 = statedb s" "blocks s2 = blocks s @ [block]" "currentBlock s2 = block"
    by (simp_all add: s1_def s2_def WriteBlock_def)
  have "height2Reconfig s1 = height2Reconfig s" by (simp add: s1_def WriteBlock_def)
  then have H: "HandleComSendBlock ops block s =
     go_bind (shardExecuteTransactions ops (bTransactions block) s2) (\<lambda>(trieRoot, s3).
       if trieRoot \<noteq> hRoot (bHeader block) then Inl (Exit ''trie root not the same.'') else Inr s3)"
    using assms(2) by (simp add: HandleComSendBlock_def Let_def s1_def s2_def)
  obtain s3 where r: "go_fold (shardStep ops) (bTransactions block) s2 = Inr s3"
    "ledgerOf ops (statedb s3) = fold applyTx (bTransactions block) (ledgerOf ops (statedb s2))"
    "blocks s3 = blocks s2" "currentBlock s3 = currentBlock s2"
    using state_db.steps_refine[OF assms(1,3)] by blast
  have db: "go_fold (shardExecuteTransaction ops) (bTransactions block) (statedb s) = Inr (statedb s3)"
    using shardStep_database[OF r(1)] s2(1) by simp
  have "ledgerOf ops (Commit ops (snd (IntermediateRoot ops (statedb s3)))) = ledgerOf ops (statedb s3)"
    by (simp add: ledgerOf_def state_db.laws[OF assms(1)])
  with H r s2 db show ?thesis
    by (intro exI[of _ "statedb s3"]) (simp add: shardExecuteTransactions_def case_prod_beta)
qed

theorem HandleComSendBlock_spec_witness:
  "let bad = NewBlock (\<lambda>_. []) sampleHeader [NewTransaction CrossTXType1 [1] [2] 0 40];
       good = bad\<lparr>bHeader := (bHeader bad)\<lparr>hRoot := [1] @ putUint64 1 @ putUint64 60 @ [2] @ putUint64 7 @ putUint64 50\<rparr>\<rparr>
   in HandleComSendBlock memStateDB bad sampleShard = Inl (Exit ''trie root not the same.'') \<and>
      (\<exists>s'. HandleComSendBlock memStateDB good sampleShard = Inr s' \<and> currentBlock s' = good)"
proof -
  define bad where "bad = NewBlock (\<lambda>_. []) sampleHeader [NewTransaction CrossTXType1 [1] [2] 0 40]"
  define good where "good = bad\<lparr>bHeader := (bHeader bad)\<lparr>hRoot := [1] @ putUint64 1 @ putUint64 60 @ [2] @ putUint64 7 @ putUint64 50\<rparr>\<rparr>"
  have h: "word_of_int (height2Reconfig sampleShard) \<noteq> (0 :: u64)" by (simp add: sampleShard_def)
  have t: "bTransactions bad = [NewTransaction CrossTXType1 [1] [2] 0 40]" "bTransactions good = bTransactions bad"
    "hRoot (bHeader bad) = []" "hRoot (bHeader good) = [1] @ putUint64 1 @ putUint64 60 @ [2] @ putUint64 7 @ putUint64 50"
    by (simp_all add: bad_def good_def NewBlock_def CopyHeader_def sampleHeader_def Let_def)
  have k: "\<forall>tx\<in>set (bTransactions bad). knownType tx" by (simp add: t)
  have e: "go_fold (shardExecuteTransaction memStateDB) (bTransactions bad) (statedb sampleShard) = Inr [([1], 1, 60), ([2], 7, 50)]"
    by (simp add: t shardExecuteTransaction_def NewTransaction_def memStateDB_def memSet_def memGet_def sampleShard_def Let_def)
  have r: "fst (IntermediateRoot memStateDB [([1], 1, 60), ([2], 7, 50)]) = hRoot (bHeader good)"
    by (simp add: memStateDB_def t)
  then have "fst (IntermediateRoot memStateDB [([1], 1, 60), ([2], 7, 50)]) \<noteq> hRoot (bHeader bad)" by (simp add: t)
  with HandleComSendBlock_spec[OF mem.state_db_axioms h k] e
  have "HandleComSendBlock memStateDB bad sampleShard = Inl (Exit ''trie root not the same.'')" by auto
  moreover have "\<exists>s'. HandleComSendBlock memStateDB good sampleShard = Inr s' \<and> currentBlock s' = good"
    using HandleComSendBlock_spec[OF mem.state_db_axioms h, of good] e r k t(2) by auto
  ultimately show ?thesis unfolding Let_def bad_def[symmetric] good_def[symmetric] by blast
qed

end
