(* ===== verification/Hex_Encoding.thy ===== *)
theory Hex_Encoding
  imports Prelude
begin

text \<open>
  \<^verbatim>\<open>src/trie/encoding.go\<close>: the three encodings of trie keys (KEYBYTES, HEX and
  COMPACT) and the conversions between them. A slice the Go code fills through
  a pointer is a result of the model; indexing out of range is a \<^verbatim>\<open>Panic\<close>.
\<close>

unbundle bit_operations_syntax

section \<open>The conversions\<close>

definition hasTerm :: "bytes \<Rightarrow> bool" where
  "hasTerm s \<longleftrightarrow> 0 < length s \<and> s ! (length s - 1) = 16"

fun decodeNibbles :: "bytes \<Rightarrow> bytes go" where
  "decodeNibbles [] = Inr []"
| "decodeNibbles [n] = Inl (Panic ''index out of range'')"
| "decodeNibbles (n1 # n2 # ns) =
     go_bind (decodeNibbles ns) (\<lambda>bs. Inr ((push_bit 4 n1 OR n2) # bs))"

definition hexToCompact :: "bytes \<Rightarrow> bytes go" where
  "hexToCompact hex0 =
    (let terminator = (if hasTerm hex0 then 1 else 0) :: byte;
         hex = (if hasTerm hex0 then take (length hex0 - 1) hex0 else hex0);
         buf0 = push_bit 5 terminator
     in if length hex mod 2 = 1
        then go_bind (decodeNibbles (drop 1 hex)) (\<lambda>bs. Inr ((buf0 OR 16 OR hex ! 0) # bs))
        else go_bind (decodeNibbles hex) (\<lambda>bs. Inr (buf0 # bs)))"

definition HexToCompact :: "bytes \<Rightarrow> bytes" where
  "HexToCompact hex = projr (hexToCompact hex)"

function inPlaceLoop :: "nat \<Rightarrow> nat \<Rightarrow> nat \<Rightarrow> bytes \<Rightarrow> bytes" where
  "inPlaceLoop hexLen bi ni hex =
    (if ni < hexLen
     then inPlaceLoop hexLen (bi + 1) (ni + 2) (hex[bi := push_bit 4 (hex ! ni) OR hex ! (ni + 1)])
     else hex)"
  by pat_completeness auto
termination by (relation "measure (\<lambda>(hexLen, bi, ni, hex). hexLen - ni)") auto

declare inPlaceLoop.simps [simp del]

definition hexToCompactInPlace :: "bytes \<Rightarrow> (bytes \<times> nat) go" where
  "hexToCompactInPlace hex =
    (if hex = [] then Inl (Panic ''index out of range'') else
     let isTerm = (hex ! (length hex - 1) = 16);
         hexLen = (if isTerm then length hex - 1 else length hex);
         firstByte = (if isTerm then push_bit 5 1 else 0) :: byte;
         binLen = hexLen div 2 + 1
     in if hexLen mod 2 = 1
        then Inr ((inPlaceLoop hexLen 1 1 hex)[0 := firstByte OR push_bit 4 1 OR hex ! 0], binLen)
        else Inr ((inPlaceLoop hexLen 1 0 hex)[0 := firstByte], binLen))"

fun nibblesOf :: "bytes \<Rightarrow> bytes" where
  "nibblesOf [] = []"
| "nibblesOf (b # bs) = b div 16 # b mod 16 # nibblesOf bs"

definition keybytesToHex :: "bytes \<Rightarrow> bytes" where
  "keybytesToHex str = nibblesOf str @ [16]"

definition compactToHex :: "bytes \<Rightarrow> bytes" where
  "compactToHex compact =
    (if length compact = 0 then compact else
     let base0 = keybytesToHex compact;
         base = (if base0 ! 0 < 2 then take (length base0 - 1) base0 else base0);
         chop = 2 - (base ! 0 AND 1)
     in drop (unat chop) base)"

definition hexToKeybytes :: "bytes \<Rightarrow> bytes go" where
  "hexToKeybytes hex0 =
    (let hex = (if hasTerm hex0 then take (length hex0 - 1) hex0 else hex0)
     in if length hex mod 2 \<noteq> 0 then Inl (Panic ''cannot convert hex key of odd length'')
        else decodeNibbles hex)"

fun prefixLen :: "bytes \<Rightarrow> bytes \<Rightarrow> nat" where
  "prefixLen (a # as) (b # bs) = (if a \<noteq> b then 0 else Suc (prefixLen as bs))"
| "prefixLen _ _ = 0"

text \<open>A HEX key: nibbles, and possibly the terminator 16 at the end.\<close>

definition nibbles :: "bytes \<Rightarrow> bool" where
  "nibbles ns \<longleftrightarrow> (\<forall>n\<in>set ns. n < 16)"

definition validHex :: "bytes \<Rightarrow> bool" where
  "validHex hex \<longleftrightarrow> nibbles (if hasTerm hex then butlast hex else hex)"

section \<open>Nibbles\<close>

lemma nibble_cases:
  fixes x :: byte
  assumes "x < 16"
  shows "x \<in> {0,1,2,3,4,5,6,7,8,9,10,11,12,13,14,15}"
proof -
  have "unat x \<in> set [0..<16]" using assms by (simp add: word_less_nat_alt)
  then have "word_of_nat (unat x) \<in> set (map word_of_nat [0..<16] :: byte list)"
    unfolding set_map by blast
  then show ?thesis by (simp add: upt_rec)
qed

lemma join_nibbles:
  fixes a b :: byte
  assumes "a < 16" "b < 16"
  shows "(push_bit 4 a OR b) div 16 = a" "(push_bit 4 a OR b) mod 16 = b"
  using nibble_cases[OF assms(1)] nibble_cases[OF assms(2)] by (elim insertE; simp)+

lemma split_byte [simp]:
  fixes b :: byte
  shows "b div 16 < 16" "b mod 16 < 16" "push_bit 4 (b div 16) OR (b mod 16) = b"
proof -
  have "unat b < 256" using unsigned_less[of b] by simp
  then show "b div 16 < 16" by (simp add: word_less_nat_alt unat_div)
  show "b mod 16 < 16" by (simp add: word_less_nat_alt unat_mod)
  have "b div 16 = drop_bit 4 b" "b mod 16 = take_bit 4 b"
    by (simp_all add: drop_bit_eq_div take_bit_eq_mod)
  then show "push_bit 4 (b div 16) OR (b mod 16) = b"
    by (auto simp: bit_eq_iff bit_simps)
qed

lemma nibbles_simps [simp]:
  "nibbles []" "nibbles (n # ns) \<longleftrightarrow> n < 16 \<and> nibbles ns"
  "nibbles (xs @ ys) \<longleftrightarrow> nibbles xs \<and> nibbles ys"
  by (auto simp: nibbles_def)

lemma nibbles_nibblesOf [simp]: "nibbles (nibblesOf bs)"
  by (induction bs) auto

lemma length_nibblesOf [simp]: "length (nibblesOf bs) = 2 * length bs"
  by (induction bs) auto

lemma hasTerm_last: "hasTerm s \<longleftrightarrow> s \<noteq> [] \<and> last s = 16"
  by (auto simp: hasTerm_def last_conv_nth)

lemma hasTerm_snoc [simp]: "hasTerm (s @ [16])"
  by (simp add: hasTerm_last)

lemma nibbles_not_hasTerm: "nibbles s \<Longrightarrow> \<not> hasTerm s"
  by (cases s rule: rev_cases) (auto simp: hasTerm_last)

lemma decodeNibbles_even:
  "even (length ns) \<Longrightarrow> \<exists>bs. decodeNibbles ns = Inr bs \<and> length bs = length ns div 2"
  by (induction ns rule: decodeNibbles.induct) auto

lemma decodeNibbles_odd: "odd (length ns) \<Longrightarrow> \<exists>e. decodeNibbles ns = Inl (Panic e)"
  by (induction ns rule: decodeNibbles.induct) auto

lemma decodeNibbles_nibblesOf: "decodeNibbles (nibblesOf bs) = Inr bs"
  by (induction bs) auto

lemma nibblesOf_decodeNibbles:
  "decodeNibbles ns = Inr bs \<Longrightarrow> nibbles ns \<Longrightarrow> nibblesOf bs = ns"
  by (induction ns arbitrary: bs rule: decodeNibbles.induct)
    (auto simp: go_bind_eq_Inr_iff join_nibbles)

section \<open>Round trips\<close>

lemma hexToKeybytes_keybytesToHex: "hexToKeybytes (keybytesToHex bs) = Inr bs"
  by (simp add: hexToKeybytes_def keybytesToHex_def decodeNibbles_nibblesOf)

lemma hexToKeybytes_panics_iff:
  "(\<exists>e. hexToKeybytes hex = Inl e) \<longleftrightarrow> odd (length hex - (if hasTerm hex then 1 else 0))"
  using decodeNibbles_even[of hex] decodeNibbles_even[of "take (length hex - 1) hex"]
  by (auto simp: hexToKeybytes_def Let_def odd_iff_mod_2_eq_one even_iff_mod_2_eq_zero)

lemma hexToCompact_total: "hexToCompact hex = Inr (HexToCompact hex)"
proof -
  define h where "h = (if hasTerm hex then take (length hex - 1) hex else hex)"
  have "\<exists>bs. hexToCompact hex = Inr bs"
  proof (cases "even (length h)")
    case True
    then show ?thesis using decodeNibbles_even[OF True]
      by (auto simp: hexToCompact_def Let_def h_def even_iff_mod_2_eq_zero)
  next
    case False
    then have "even (length (drop 1 h))" by simp
    from decodeNibbles_even[OF this] False show ?thesis
      by (auto simp: hexToCompact_def Let_def h_def odd_iff_mod_2_eq_one)
  qed
  then show ?thesis by (auto simp: HexToCompact_def)
qed

text \<open>The result of the conversion, by the parity of the key and its terminator.\<close>

lemma HexToCompact_even:
  assumes "nibbles ns" "even (length ns)"
  shows "HexToCompact ns = 0 # projr (decodeNibbles ns)"
    "HexToCompact (ns @ [16]) = 32 # projr (decodeNibbles ns)"
  using decodeNibbles_even[OF assms(2)] assms nibbles_not_hasTerm[OF assms(1)]
  by (auto simp: HexToCompact_def hexToCompact_def Let_def odd_iff_mod_2_eq_one)

lemma HexToCompact_odd:
  assumes "nibbles (n # ns)" "even (length ns)"
  shows "HexToCompact (n # ns) = (16 OR n) # projr (decodeNibbles ns)"
    "HexToCompact (n # ns @ [16]) = (32 OR 16 OR n) # projr (decodeNibbles ns)"
  using decodeNibbles_even[OF assms(2)] assms nibbles_not_hasTerm[OF assms(1)]
    hasTerm_snoc[of "n # ns"]
  by (auto simp: HexToCompact_def hexToCompact_def Let_def odd_iff_mod_2_eq_one
      simp del: hasTerm_snoc)

lemma nibblesOf_flag:
  fixes n :: byte
  assumes "n < 16"
  shows "(32 OR 16 OR n) div 16 = 3" "(32 OR 16 OR n) mod 16 = n"
    "(16 OR n) div 16 = 1" "(16 OR n) mod 16 = n"
  using nibble_cases[OF assms] by (elim insertE; simp)+

lemma compactToHex_HexToCompact_nibbles:
  assumes "nibbles ns"
  shows "compactToHex (HexToCompact ns) = ns" "compactToHex (HexToCompact (ns @ [16])) = ns @ [16]"
proof -
  have "compactToHex (HexToCompact ns) = ns \<and> compactToHex (HexToCompact (ns @ [16])) = ns @ [16]"
  proof (cases "even (length ns)")
    case True
    obtain bs where bs: "decodeNibbles ns = Inr bs" using decodeNibbles_even[OF True] by auto
    then show ?thesis using HexToCompact_even[OF assms True] nibblesOf_decodeNibbles[OF bs assms]
      by (simp add: compactToHex_def keybytesToHex_def Let_def)
  next
    case False
    then obtain m ms where ns: "ns = m # ms" by (cases ns) auto
    with False have ev: "even (length ms)" by simp
    obtain bs where bs: "decodeNibbles ms = Inr bs" using decodeNibbles_even[OF ev] by auto
    have m: "m < 16" "nibbles ms" using assms ns by auto
    show ?thesis
      using HexToCompact_odd[OF assms[unfolded ns] ev] nibblesOf_decodeNibbles[OF bs m(2)] bs
      by (simp add: compactToHex_def keybytesToHex_def Let_def ns nibblesOf_flag[OF m(1)])
  qed
  then show "compactToHex (HexToCompact ns) = ns" "compactToHex (HexToCompact (ns @ [16])) = ns @ [16]"
    by auto
qed

lemma compactToHex_HexToCompact_valid:
  assumes "validHex hex"
  shows "compactToHex (HexToCompact hex) = hex"
proof (cases "hasTerm hex")
  case True
  then have "hex = butlast hex @ [16]" by (metis append_butlast_last_id hasTerm_last)
  with True assms show ?thesis
    using compactToHex_HexToCompact_nibbles(2)[of "butlast hex"] by (simp add: validHex_def)
next
  case False
  with assms show ?thesis using compactToHex_HexToCompact_nibbles(1) by (simp add: validHex_def)
qed

lemma HexToCompact_inj: "inj_on HexToCompact {hex. validHex hex}"
  by (rule inj_on_inverseI[of _ compactToHex]) (simp add: compactToHex_HexToCompact_valid)

lemma validHex_keybytesToHex [simp]: "validHex (keybytesToHex bs)"
  by (simp add: validHex_def keybytesToHex_def)

section \<open>The in-place conversion\<close>

lemma inPlaceLoop_spec:
  assumes "L \<le> length hex" "ni \<le> L" "even (L - ni)" "1 \<le> bi" "bi \<le> ni + 1"
    and "decodeNibbles (take (L - ni) (drop ni hex)) = Inr bs"
  shows "length (inPlaceLoop L bi ni hex) = length hex \<and>
         take bi (inPlaceLoop L bi ni hex) = take bi hex \<and>
         take (length bs) (drop bi (inPlaceLoop L bi ni hex)) = bs"
  using assms
proof (induction L bi ni hex arbitrary: bs rule: inPlaceLoop.induct)
  case (1 L bi ni hex)
  show ?case
  proof (cases "ni < L")
    case False
    with "1.prems" show ?thesis by (simp add: inPlaceLoop.simps)
  next
    case True
    define b where "b = push_bit 4 (hex ! ni) OR hex ! (ni + 1)"
    define r where "r = inPlaceLoop L (bi + 1) (ni + 2) (hex[bi := b])"
    have le: "ni + 2 \<le> L" using True "1.prems"(3) by presburger
    have "take (L - ni) (drop ni hex) = hex ! ni # hex ! (ni + 1) # take (L - (ni + 2)) (drop (ni + 2) hex)"
      using le "1.prems"(1) by (simp add: Cons_nth_drop_Suc[symmetric] take_Cons')
    with "1.prems"(6) obtain bs' where bs: "bs = b # bs'"
      "decodeNibbles (take (L - (ni + 2)) (drop (ni + 2) hex)) = Inr bs'"
      by (auto simp: go_bind_eq_Inr_iff b_def)
    have "length r = length (hex[bi := b]) \<and> take (bi + 1) r = take (bi + 1) (hex[bi := b]) \<and>
        take (length bs') (drop (bi + 1) r) = bs'"
      unfolding r_def b_def
      by (rule "1.IH"[OF True]) (use "1.prems" le bs(2) in \<open>auto simp: b_def\<close>)
    moreover have "bi < length hex" using "1.prems"(1,5) le by simp
    ultimately have r: "length r = length hex" "take (bi + 1) r = take bi hex @ [b]"
        "take (length bs') (drop (bi + 1) r) = bs'"
      by (simp_all add: take_Suc_conv_app_nth)
    have "drop bi r = b # drop (bi + 1) r"
      using r \<open>bi < length hex\<close> by (simp add: take_Suc_conv_app_nth Cons_nth_drop_Suc[symmetric])
    moreover have "take bi r = take bi hex"
      using r(2) \<open>bi < length hex\<close> r(1) by (simp add: take_Suc_conv_app_nth)
    moreover have "inPlaceLoop L bi ni hex = r"
      unfolding r_def b_def by (subst inPlaceLoop.simps) (simp add: True)
    ultimately show ?thesis using r bs(1) by simp
  qed
qed

lemma inPlaceLoop_result:
  assumes "L \<le> length hex" "ni \<le> 1" "ni \<le> L" "even (L - ni)" "hex \<noteq> []"
    and "decodeNibbles (take (L - ni) (drop ni hex)) = Inr bs" "L div 2 = length bs"
  shows "take (L div 2 + 1) ((inPlaceLoop L 1 ni hex)[0 := fb]) = fb # bs"
proof -
  let ?r = "inPlaceLoop L 1 ni hex"
  have r: "length ?r = length hex" "take (length bs) (drop 1 ?r) = bs"
    using inPlaceLoop_spec[OF assms(1,3,4) order_refl _ assms(6)] by simp_all
  then obtain x xs where "?r = x # xs" using assms(5) by (cases ?r) auto
  then show ?thesis using r assms(7) by simp
qed

lemma hexToCompactInPlace_spec:
  assumes "hex \<noteq> []"
  shows "\<exists>buf n. hexToCompactInPlace hex = Inr (buf, n) \<and> take n buf = HexToCompact hex"
proof -
  define L where "L = (if hasTerm hex then length hex - 1 else length hex)"
  define fb :: byte where "fb = (if hasTerm hex then 32 else 0)"
  define h where "h = take L hex"
  have L: "L \<le> length hex" "length h = L" "hex ! (length hex - 1) = 16 \<longleftrightarrow> hasTerm hex"
    "(if hasTerm hex then take (length hex - 1) hex else hex) = h"
    using assms by (simp_all add: L_def h_def hasTerm_def)
  note defs = hexToCompactInPlace_def HexToCompact_def hexToCompact_def Let_def L(3,4)
    L_def[symmetric]
  show ?thesis
  proof (cases "L mod 2 = 1")
    case False
    then obtain bs where bs: "decodeNibbles h = Inr bs" "length bs = L div 2"
      using decodeNibbles_even[of h] L(2) by (auto simp: even_iff_mod_2_eq_zero)
    have "take (L div 2 + 1) ((inPlaceLoop L 1 0 hex)[0 := fb]) = fb # bs"
      by (rule inPlaceLoop_result)
        (use assms L False bs in \<open>simp_all add: h_def even_iff_mod_2_eq_zero\<close>)
    moreover have "hexToCompactInPlace hex = Inr ((inPlaceLoop L 1 0 hex)[0 := fb], L div 2 + 1)"
      unfolding defs using False assms by (simp add: fb_def)
    moreover have "HexToCompact hex = fb # bs"
      unfolding defs using False bs L(2) by (simp add: fb_def)
    ultimately show ?thesis by metis
  next
    case True
    then have ev: "1 \<le> L" "even (L - 1)" "(L - 1) div 2 = L div 2" by presburger+
    obtain bs where bs: "decodeNibbles (drop 1 h) = Inr bs" "length bs = L div 2"
      using decodeNibbles_even[of "drop 1 h"] L(2) ev by auto
    define b where "b = fb OR 16 OR hex ! 0"
    have "take (L div 2 + 1) ((inPlaceLoop L 1 1 hex)[0 := b]) = b # bs"
      by (rule inPlaceLoop_result) (use assms L ev bs in \<open>simp_all add: h_def drop_take\<close>)
    moreover have "hexToCompactInPlace hex = Inr ((inPlaceLoop L 1 1 hex)[0 := b], L div 2 + 1)"
      unfolding defs using True assms by (simp add: b_def fb_def)
    moreover have "HexToCompact hex = b # bs"
      unfolding defs using True bs L(2) ev(1) by (simp add: b_def fb_def h_def)
    ultimately show ?thesis by metis
  qed
qed

section \<open>Common prefixes\<close>

lemma prefixLen_le: "prefixLen a b \<le> length a" "prefixLen a b \<le> length b"
  by (induction a b rule: prefixLen.induct) auto

lemma prefixLen_take: "take (prefixLen a b) a = take (prefixLen a b) b"
  by (induction a b rule: prefixLen.induct) auto

lemma prefixLen_maximal:
  "prefixLen a b < length a \<Longrightarrow> prefixLen a b < length b \<Longrightarrow> a ! prefixLen a b \<noteq> b ! prefixLen a b"
  by (induction a b rule: prefixLen.induct) (auto split: if_splits)

lemma prefixLen_full_iff: "prefixLen a b = length b \<longleftrightarrow> prefix b a"
  by (induction a b rule: prefixLen.induct) (auto split: if_splits)

section \<open>Properties\<close>



end
