(* ===== verification/Plain_Trie.thy ===== *)
theory Plain_Trie
  imports Hex_Encoding
begin

text \<open>
  The specification of the Merkle Patricia trie (\<^verbatim>\<open>src/trie/trie.go\<close>) without caches, hashes and a
  database: plain trees over HEX keys, with the insertion and the deletion of the code. They are
  shown to implement a finite map, and a tree in canonical form is determined by its map.
\<close>

datatype pt = PNil | PVal bytes | PShort bytes pt | PFull "pt list"

definition emptyBranch :: "pt list" where
  "emptyBranch = replicate 17 PNil"

fun pget :: "pt \<Rightarrow> bytes \<Rightarrow> bytes option" where
  "pget PNil k = None"
| "pget (PVal v) k = Some v"
| "pget (PShort p t) k = (if prefix p k then pget t (drop (length p) k) else None)"
| "pget (PFull ts) [] = None"
| "pget (PFull ts) (x # k) = (if unat x < length ts then pget (ts ! unat x) k else None)"

text \<open>A new node at an empty place.\<close>

definition pnew :: "bytes \<Rightarrow> pt \<Rightarrow> pt" where
  "pnew k t = (if k = [] then t else PShort k t)"

definition psplit :: "bytes \<Rightarrow> pt \<Rightarrow> bytes \<Rightarrow> pt \<Rightarrow> pt" where
  "psplit p c k t =
    (let m = prefixLen k p;
         branch = PFull (emptyBranch[unat (p ! m) := pnew (drop (m + 1) p) c,
                                     unat (k ! m) := pnew (drop (m + 1) k) t])
     in if m = 0 then branch else PShort (take m k) branch)"

text \<open>Insertion of a value; the flag says whether the tree changes.\<close>

fun pins :: "pt \<Rightarrow> bytes \<Rightarrow> bytes \<Rightarrow> bool \<times> pt" where
  "pins t [] v = (t \<noteq> PVal v, PVal v)"
| "pins (PShort p c) (x # k) v =
    (if prefixLen (x # k) p = length p
     then let (dirty, c') = pins c (drop (length p) (x # k)) v
          in if dirty then (True, PShort p c') else (False, PShort p c)
     else (True, psplit p c (x # k) (PVal v)))"
| "pins (PFull ts) (x # k) v =
    (if unat x < length ts
     then let (dirty, t) = pins (ts ! unat x) k v
          in if dirty then (True, PFull (ts[unat x := t])) else (False, PFull ts)
     else (False, PFull ts))"
| "pins PNil (x # k) v = (True, PShort (x # k) (PVal v))"
| "pins (PVal u) (x # k) v = (False, PVal u)"

text \<open>The entries of a branch that are left.\<close>

definition occupied :: "pt list \<Rightarrow> nat list" where
  "occupied ts = filter (\<lambda>i. ts ! i \<noteq> PNil) [0..<length ts]"

definition preduce :: "pt list \<Rightarrow> pt" where
  "preduce ts =
    (case occupied ts of [pos] \<Rightarrow>
       (case ts ! pos of PShort k c \<Rightarrow> if pos \<noteq> 16 then PShort (word_of_nat pos # k) c
                                   else PShort [word_of_nat pos] (ts ! pos)
        | _ \<Rightarrow> PShort [word_of_nat pos] (ts ! pos))
     | _ \<Rightarrow> PFull ts)"

fun pdel :: "pt \<Rightarrow> bytes \<Rightarrow> bool \<times> pt" where
  "pdel PNil k = (False, PNil)"
| "pdel (PVal v) k = (True, PNil)"
| "pdel (PShort p c) k =
    (if prefixLen k p < length p then (False, PShort p c)
     else if prefixLen k p = length k then (True, PNil)
     else let (dirty, c') = pdel c (drop (length p) k)
          in if \<not> dirty then (False, PShort p c)
             else case c' of PShort q d \<Rightarrow> (True, PShort (p @ q) d) | _ \<Rightarrow> (True, PShort p c'))"
| "pdel (PFull ts) [] = (False, PFull ts)"
| "pdel (PFull ts) (x # k) =
    (if unat x < length ts
     then let (dirty, t) = pdel (ts ! unat x) k
          in if \<not> dirty then (False, PFull ts)
             else if t \<noteq> PNil then (True, PFull (ts[unat x := t]))
             else (True, preduce (ts[unat x := PNil]))
     else (False, PFull ts))"

section \<open>Canonical trees\<close>

text \<open>A key of the trie: nibbles and the terminator; a rest of a key may also be empty.\<close>

definition hexKey :: "bytes \<Rightarrow> bool" where
  "hexKey k \<longleftrightarrow> (\<exists>ns. nibbles ns \<and> k = ns @ [16])"

inductive canon :: "pt \<Rightarrow> bool" where
  canon_Nil: "canon PNil"
| canon_Leaf: "hexKey p \<Longrightarrow> v \<noteq> [] \<Longrightarrow> canon (PShort p (PVal v))"
| canon_Ext: "nibbles p \<Longrightarrow> p \<noteq> [] \<Longrightarrow> canon (PFull ts) \<Longrightarrow> canon (PShort p (PFull ts))"
| canon_Full: "length ts = 17 \<Longrightarrow> (\<And>i. i < 16 \<Longrightarrow> canon (ts ! i)) \<Longrightarrow>
    ts ! 16 = PNil \<or> (\<exists>v. v \<noteq> [] \<and> ts ! 16 = PVal v) \<Longrightarrow> 2 \<le> length (occupied ts) \<Longrightarrow> canon (PFull ts)"

inductive_cases canon_ShortE: "canon (PShort p t)"
inductive_cases canon_FullE: "canon (PFull ts)"
inductive_cases canon_ValE: "canon (PVal v)"

lemma not_canon_Val [simp]: "\<not> canon (PVal v)"
  by (auto elim: canon_ValE)

text \<open>A tree at a place where the rest of the key is \<open>k\<close>.\<close>

definition canonAt :: "bytes \<Rightarrow> pt \<Rightarrow> bool" where
  "canonAt k t \<longleftrightarrow> (if k = [] then t = PNil \<or> (\<exists>v. v \<noteq> [] \<and> t = PVal v) else hexKey k \<and> canon t)"

lemma hexKey_not_Nil [simp]: "\<not> hexKey []"
  by (simp add: hexKey_def)

lemma hexKey_Cons: "hexKey (x # k) \<longleftrightarrow> (x = 16 \<and> k = []) \<or> (x < 16 \<and> hexKey k)"
proof
  assume "hexKey (x # k)"
  then obtain ns where "nibbles ns" "x # k = ns @ [16]" by (auto simp: hexKey_def)
  then show "(x = 16 \<and> k = []) \<or> (x < 16 \<and> hexKey k)" by (cases ns) (auto simp: hexKey_def)
next
  assume "(x = 16 \<and> k = []) \<or> (x < 16 \<and> hexKey k)"
  then show "hexKey (x # k)"
  proof
    assume "x < 16 \<and> hexKey k"
    then obtain ns where "nibbles (x # ns)" "x # k = (x # ns) @ [16]" by (auto simp: hexKey_def)
    then show ?thesis unfolding hexKey_def by blast
  qed (auto simp: hexKey_def intro: exI[of _ "[]"])
qed

lemma hexKey_append: "nibbles p \<Longrightarrow> hexKey (p @ k) \<longleftrightarrow> hexKey k"
  by (induction p) (auto simp: hexKey_Cons)

lemma hexKey_append_hexKey: "hexKey p \<Longrightarrow> hexKey (p @ k) \<longleftrightarrow> k = []"
proof (induction p)
  case (Cons x p)
  then show ?case by (cases p) (auto simp: hexKey_Cons)
qed simp

lemma hexKey_index: "hexKey (x # k) \<Longrightarrow> unat x < 17"
  by (auto simp: hexKey_Cons word_less_nat_alt)

lemma nibble_index: "x < 16 \<Longrightarrow> unat (x :: byte) < 16"
  by (simp add: word_less_nat_alt)

lemma unat_16_iff: "unat (x :: byte) = 16 \<longleftrightarrow> x = 16"
  by (simp add: word_unat_eq_iff)

lemma canonAt_child:
  assumes "canon (PFull ts)" "hexKey (x # k)"
  shows "canonAt k (ts ! unat x)" "unat x < length ts"
proof -
  have c: "length ts = 17" "\<And>i. i < 16 \<Longrightarrow> canon (ts ! i)" "ts ! 16 = PNil \<or> (\<exists>v. v \<noteq> [] \<and> ts ! 16 = PVal v)"
    using assms(1) by (auto elim: canon_FullE)
  show "unat x < length ts" using hexKey_index[OF assms(2)] c(1) by simp
  from assms(2) consider "x = 16" "k = []" | "x < 16" "hexKey k" by (auto simp: hexKey_Cons)
  then show "canonAt k (ts ! unat x)"
  proof cases
    case 1
    then show ?thesis using c(3) by (simp add: canonAt_def)
  next
    case 2
    then have "k \<noteq> []" by auto
    with 2 c(2)[OF nibble_index[OF 2(1)]] show ?thesis by (simp add: canonAt_def)
  qed
qed

lemma canon_Short_cases:
  assumes "canon (PShort p c)"
  obtains (leaf) v where "c = PVal v" "hexKey p" "v \<noteq> []"
    | (ext) ts where "c = PFull ts" "nibbles p" "p \<noteq> []" "canon (PFull ts)"
  using assms by (auto elim: canon_ShortE)

text \<open>The key under a short node that it is a prefix of.\<close>

lemma canonAt_short:
  assumes "canon (PShort p c)" "hexKey k" "prefix p k"
  shows "canonAt (drop (length p) k) c"
proof -
  obtain r where k: "k = p @ r" using assms(3) by (auto simp: prefix_def)
  from assms(1) show ?thesis
  proof (cases rule: canon_Short_cases)
    case (leaf v)
    with assms(2) k have "r = []" by (simp add: hexKey_append_hexKey)
    with leaf k show ?thesis by (simp add: canonAt_def)
  next
    case (ext ts)
    with assms(2) k have "hexKey r" by (simp add: hexKey_append)
    with ext k show ?thesis by (cases r) (auto simp: canonAt_def)
  qed
qed

section \<open>Branches\<close>

definition slotOk :: "nat \<Rightarrow> pt \<Rightarrow> bool" where
  "slotOk i t \<longleftrightarrow> (if i = 16 then t = PNil \<or> (\<exists>v. v \<noteq> [] \<and> t = PVal v) else canon t)"

lemma canon_Full_iff:
  "canon (PFull ts) \<longleftrightarrow> length ts = 17 \<and> (\<forall>i<17. slotOk i (ts ! i)) \<and> 2 \<le> length (occupied ts)"
proof
  assume "canon (PFull ts)"
  then have c: "length ts = 17" "\<And>i. i < 16 \<Longrightarrow> canon (ts ! i)" "ts ! 16 = PNil \<or> (\<exists>v. v \<noteq> [] \<and> ts ! 16 = PVal v)"
    "2 \<le> length (occupied ts)"
    by (auto elim: canon_FullE)
  have "slotOk i (ts ! i)" if "i < 17" for i using c(2)[of i] c(3) that by (auto simp: slotOk_def)
  with c show "length ts = 17 \<and> (\<forall>i<17. slotOk i (ts ! i)) \<and> 2 \<le> length (occupied ts)" by blast
next
  assume "length ts = 17 \<and> (\<forall>i<17. slotOk i (ts ! i)) \<and> 2 \<le> length (occupied ts)"
  then show "canon (PFull ts)"
    by (intro canon_Full) (auto simp: slotOk_def dest: spec[of _ 16])
qed

lemma slotOk_canonAt: "hexKey (x # k) \<Longrightarrow> slotOk (unat x) t \<longleftrightarrow> canonAt k t"
  using unat_16_iff[of x] nibble_index[of x] by (auto simp: hexKey_Cons slotOk_def canonAt_def)

lemma set_occupied [simp]: "set (occupied ts) = {i. i < length ts \<and> ts ! i \<noteq> PNil}"
  by (auto simp: occupied_def)

lemma distinct_occupied [simp]: "distinct (occupied ts)"
  by (simp add: occupied_def)

lemma occupied_ge2:
  assumes "i \<noteq> j" "i < length ts" "j < length ts" "ts ! i \<noteq> PNil" "ts ! j \<noteq> PNil"
  shows "2 \<le> length (occupied ts)"
proof -
  have "card {i, j} \<le> card (set (occupied ts))" using assms by (intro card_mono) auto
  then show ?thesis using assms(1) distinct_card[OF distinct_occupied, of ts] by simp
qed

lemma occupied_two:
  assumes "2 \<le> length (occupied ts)"
  obtains i j where "i \<noteq> j" "i < length ts" "j < length ts" "ts ! i \<noteq> PNil" "ts ! j \<noteq> PNil"
proof -
  have l: "0 < length (occupied ts)" "1 < length (occupied ts)" using assms by linarith+
  note nth_mem[OF l(1)] nth_mem[OF l(2)]
  moreover have "occupied ts ! 0 \<noteq> occupied ts ! 1" using nth_eq_iff_index_eq[OF distinct_occupied l] by simp
  ultimately show thesis by (intro that[of "occupied ts ! 0" "occupied ts ! 1"]) simp_all
qed

lemma emptyBranch_nth [simp]: "i < 17 \<Longrightarrow> emptyBranch ! i = PNil" "length emptyBranch = 17"
  by (simp_all add: emptyBranch_def)

lemma canon_two:
  assumes "i \<noteq> j" "i < 17" "j < 17" "slotOk i a" "slotOk j b" "a \<noteq> PNil" "b \<noteq> PNil"
  shows "canon (PFull (emptyBranch[i := a, j := b]))"
proof -
  have "slotOk l (emptyBranch[i := a, j := b] ! l)" if "l < 17" for l
    using assms that by (auto simp: nth_list_update slotOk_def canon_Nil)
  moreover have "2 \<le> length (occupied (emptyBranch[i := a, j := b]))"
    using assms by (intro occupied_ge2[of i j]) (auto simp: nth_list_update)
  ultimately show ?thesis by (simp add: canon_Full_iff)
qed

section \<open>Insertion\<close>

lemma pget_pnew: "pget (pnew q t) k = (if prefix q k then pget t (drop (length q) k) else None)"
  by (simp add: pnew_def)

lemma prefixLen_split:
  assumes "prefixLen k p < length p" "prefixLen k p < length k"
  obtains q a p' b k' where "p = q @ a # p'" "k = q @ b # k'" "a \<noteq> b" "length q = prefixLen k p"
proof (rule that[of "take (prefixLen k p) k" "p ! prefixLen k p" "drop (Suc (prefixLen k p)) p"
      "k ! prefixLen k p" "drop (Suc (prefixLen k p)) k"])
  show "p = take (prefixLen k p) k @ p ! prefixLen k p # drop (Suc (prefixLen k p)) p"
    using assms(1) prefixLen_take[of k p] by (simp add: id_take_nth_drop)
  show "k = take (prefixLen k p) k @ k ! prefixLen k p # drop (Suc (prefixLen k p)) k"
    using assms(2) by (simp add: id_take_nth_drop)
  show "p ! prefixLen k p \<noteq> k ! prefixLen k p" using prefixLen_maximal[OF assms(2,1)] by simp
qed (use assms in simp)

lemma prefixLen_common: "a \<noteq> b \<Longrightarrow> prefixLen (q @ b # k) (q @ a # p) = length q"
  by (induction q) auto

text \<open>A key does not end inside the key of a canonical short node.\<close>

lemma key_not_inside:
  assumes "canon (PShort p c)" "hexKey k" "prefixLen k p \<noteq> length p"
  shows "prefixLen k p < length p" "prefixLen k p < length k"
proof -
  show l: "prefixLen k p < length p" using prefixLen_le(2)[of k p] assms(3) by simp
  show "prefixLen k p < length k"
  proof (rule ccontr)
    assume "\<not> prefixLen k p < length k"
    then have "prefixLen k p = length k" using prefixLen_le(1)[of k p] by simp
    with prefixLen_take[of k p] obtain r where p: "p = k @ r" by (metis append_take_drop_id order_refl take_all)
    from assms(1) show False
    proof (cases rule: canon_Short_cases)
      case (leaf v)
      with p assms(2) have "r = []" by (simp add: hexKey_append_hexKey)
      with p l \<open>prefixLen k p = length k\<close> show False by simp
    next
      case (ext ts)
      with p assms(2) show False by (auto simp: hexKey_def)
    qed
  qed
qed

lemma psplit_eq:
  "a \<noteq> b \<Longrightarrow> psplit (q @ a # p') c (q @ b # k') t =
    pnew q (PFull (emptyBranch[unat a := pnew p' c, unat b := pnew k' t]))"
  by (simp add: psplit_def prefixLen_common pnew_def Let_def)

text \<open>The two halves of a canonical short node that is cut.\<close>

lemma canon_cut:
  assumes "canon (PShort (q @ a # p') c)"
  shows "nibbles q" "slotOk (unat a) (pnew p' c)" "unat a < 17" "pnew p' c \<noteq> PNil"
    "\<And>r. hexKey (q @ r) \<Longrightarrow> hexKey r"
proof -
  have "nibbles q \<and> slotOk (unat a) (pnew p' c) \<and> unat a < 17 \<and> pnew p' c \<noteq> PNil"
    using assms
  proof (cases rule: canon_Short_cases)
    case (leaf v)
    then obtain ns where ns: "nibbles ns" "q @ a # p' = ns @ [16]" by (auto simp: hexKey_def)
    then have q: "nibbles q" "hexKey (a # p')"
      using leaf(2) hexKey_append[of q "a # p'"]
      by (cases p' rule: rev_cases; auto)+
    have "canonAt p' (pnew p' c)" using q(2) leaf by (auto simp: canonAt_def pnew_def hexKey_Cons canon_Leaf)
    with q slotOk_canonAt[OF q(2)] hexKey_index[OF q(2)] leaf show ?thesis by (auto simp: pnew_def)
  next
    case (ext ts)
    then have n: "nibbles q" "a < 16" "nibbles p'" by auto
    have "canon (pnew p' c)" using ext n by (cases "p' = []") (auto simp: pnew_def canon_Ext)
    with n nibble_index[OF n(2)] ext show ?thesis by (auto simp: slotOk_def pnew_def)
  qed
  then show "nibbles q" "slotOk (unat a) (pnew p' c)" "unat a < 17" "pnew p' c \<noteq> PNil" by simp_all
  then show "\<And>r. hexKey (q @ r) \<Longrightarrow> hexKey r" by (simp add: hexKey_append)
qed

lemma canon_pnew_Full: "nibbles q \<Longrightarrow> canon (PFull ts) \<Longrightarrow> canon (pnew q (PFull ts))"
  by (auto simp: pnew_def intro: canon_Ext)

lemma hexKey_prefix: "hexKey k \<Longrightarrow> hexKey k' \<Longrightarrow> prefix k k' \<longleftrightarrow> k = k'"
  by (auto simp: prefix_def hexKey_append_hexKey)

lemma psplit_spec:
  assumes "canon (PShort p c)" "hexKey k" "prefixLen k p \<noteq> length p" "v \<noteq> []"
  shows "canon (psplit p c k (PVal v))" "psplit p c k (PVal v) \<noteq> PNil"
    "hexKey k' \<Longrightarrow> pget (psplit p c k (PVal v)) k' = (if k' = k then Some v else pget (PShort p c) k')"
proof -
  obtain q a p' b r where s: "p = q @ a # p'" "k = q @ b # r" "a \<noteq> b"
    using prefixLen_split[OF key_not_inside[OF assms(1-3)]] by metis
  note cut = canon_cut[OF assms(1)[unfolded s(1)]]
  have kb: "hexKey (b # r)" using cut(5) assms(2) s(2) by simp
  let ?B = "emptyBranch[unat a := pnew p' c, unat b := pnew r (PVal v)]"
  have eq: "psplit p c k (PVal v) = pnew q (PFull ?B)" using psplit_eq[OF s(3)] s(1,2) by simp
  have ab: "unat a \<noteq> unat b" using s(3) by (simp add: word_unat_eq_iff)
  have "canonAt r (pnew r (PVal v))" using kb assms(4) by (auto simp: canonAt_def pnew_def hexKey_Cons canon_Leaf)
  then have "canon (PFull ?B)"
    using ab cut(2-4) hexKey_index[OF kb] slotOk_canonAt[OF kb] by (intro canon_two) (auto simp: pnew_def)
  then show "canon (psplit p c k (PVal v))" unfolding eq by (rule canon_pnew_Full[OF cut(1)])
  show "psplit p c k (PVal v) \<noteq> PNil" unfolding eq by (simp add: pnew_def)
  assume k': "hexKey k'"
  show "pget (psplit p c k (PVal v)) k' = (if k' = k then Some v else pget (PShort p c) k')"
  proof (cases "prefix q k'")
    case False
    then have "\<not> prefix p k'" "k' \<noteq> k" using s by (auto simp: prefix_def)
    with False show ?thesis by (simp add: eq pget_pnew)
  next
    case True
    then obtain r' where r': "k' = q @ r'" by (auto simp: prefix_def)
    then have "hexKey r'" using cut(5) k' by simp
    then obtain x r'' where x: "r' = x # r''" "unat x < 17" using hexKey_index by (cases r') auto
    have "hexKey (x # r'')" using \<open>hexKey r'\<close> x(1) by simp
    have lhs: "pget (psplit p c k (PVal v)) k' = pget (?B ! unat x) r''" using x r' by (simp add: eq pget_pnew)
    consider "x = a" | "x = b" | "x \<noteq> a" "x \<noteq> b" by blast
    then show ?thesis
    proof cases
      case 1
      with ab x(2) have "?B ! unat x = pnew p' c" by (simp add: nth_list_update)
      with 1 lhs r' x s show ?thesis by (auto simp: pget_pnew)
    next
      case 2
      with x(2) have "?B ! unat x = pnew r (PVal v)" by (simp add: nth_list_update)
      moreover have "prefix r r'' \<longleftrightarrow> r = r''" using hexKey_prefix[OF kb] \<open>hexKey (x # r'')\<close> 2 by fastforce
      ultimately show ?thesis using 2 lhs r' x s by (auto simp: pget_pnew)
    next
      case 3
      then have "unat x \<noteq> unat a" "unat x \<noteq> unat b" by (simp_all add: word_unat_eq_iff)
      with 3 lhs r' x s show ?thesis by (auto simp: nth_list_update)
    qed
  qed
qed

text \<open>
  Insertion keeps the form, says whether it changed anything, and updates the map at one key.
\<close>

definition peerKey :: "bytes \<Rightarrow> bytes \<Rightarrow> bool" where
  "peerKey k k' \<longleftrightarrow> (if k = [] then k' = [] else hexKey k')"

lemma pins_spec:
  assumes "canonAt k t" "v \<noteq> []" "pins t k v = (dirty, t')"
  shows "canonAt k t' \<and> t' \<noteq> PNil \<and> (\<not> dirty \<longrightarrow> t' = t) \<and>
    (\<forall>k'. peerKey k k' \<longrightarrow> pget t' k' = (if k' = k then Some v else pget t k'))"
  using assms
proof (induction t k v arbitrary: dirty t' rule: pins.induct)
  case (1 t v)
  then show ?case by (auto simp: canonAt_def peerKey_def)
next
  case (2 p c x k v)
  have h: "hexKey (x # k)" "canon (PShort p c)" using 2(2) by (simp_all add: canonAt_def)
  show ?case
  proof (cases "prefixLen (x # k) p = length p")
    case False
    with 2(4) have "dirty" "t' = psplit p c (x # k) (PVal v)" by simp_all
    with psplit_spec[OF h(2,1) False 2(3)] h(1) show ?thesis by (simp add: canonAt_def peerKey_def)
  next
    case True
    then have pre: "prefix p (x # k)" by (simp add: prefixLen_full_iff)
    let ?r = "drop (length p) (x # k)"
    obtain d c' where c': "pins c ?r v = (d, c')" by force
    have IH: "canonAt ?r c'" "c' \<noteq> PNil" "\<not> d \<Longrightarrow> c' = c"
      "\<And>k'. peerKey ?r k' \<Longrightarrow> pget c' k' = (if k' = ?r then Some v else pget c k')"
      using 2(1)[OF True canonAt_short[OF h(2,1) pre] 2(3) c'] by auto
    have t': "t' = PShort p c'" "dirty = d" using 2(4) True c' IH(3) by (auto split: if_splits)
    have look: "pget (PShort p c') k' = (if k' = x # k then Some v else pget (PShort p c) k')" if "hexKey k'" for k'
    proof (cases "prefix p k'")
      case pk: True
      have "peerKey ?r (drop (length p) k')"
        using canonAt_short[OF h(2) that pk] canonAt_short[OF h(2,1) pre] h(2) IH(2)
        by (auto simp: peerKey_def canonAt_def elim!: canon_ShortE split: if_splits)
      moreover have "drop (length p) k' = ?r \<longleftrightarrow> k' = x # k" using pk pre by (auto simp: prefix_def)
      ultimately show ?thesis using IH(4)[of "drop (length p) k'"] pk by simp
    qed (use pre in auto)
    from h(2) have "canon (PShort p c')"
    proof (cases rule: canon_Short_cases)
      case (leaf u)
      with h(1) pre have "?r = []" by (auto simp: prefix_def hexKey_append_hexKey)
      with IH(1,2) leaf show ?thesis by (auto simp: canonAt_def intro: canon_Leaf)
    next
      case (ext ts)
      with h(1) pre have "hexKey ?r" by (auto simp: prefix_def hexKey_append)
      then obtain y r where y: "?r = y # r" by (cases ?r) auto
      have "\<exists>us. c' = PFull us" using c' unfolding y ext(1) by (auto split: if_splits prod.splits)
      with IH(1) y ext show ?thesis by (auto simp: canonAt_def intro: canon_Ext)
    qed
    with look h(1) t' IH(3) show ?thesis by (simp add: canonAt_def peerKey_def)
  qed
next
  case (3 ts x k v)
  have h: "hexKey (x # k)" "canon (PFull ts)" using 3(2) by (simp_all add: canonAt_def)
  note child = canonAt_child[OF h(2,1)]
  obtain d c' where c': "pins (ts ! unat x) k v = (d, c')" by force
  have IH: "canonAt k c'" "c' \<noteq> PNil" "\<not> d \<Longrightarrow> c' = ts ! unat x"
    "\<And>k'. peerKey k k' \<Longrightarrow> pget c' k' = (if k' = k then Some v else pget (ts ! unat x) k')"
    using 3(1)[OF child(2,1) 3(3) c'] by auto
  have t': "t' = PFull (ts[unat x := c'])" "dirty = d" using 3(4) c' IH(3) child(2) by (auto split: if_splits)
  have len: "length ts = 17" and two: "2 \<le> length (occupied ts)" and slots: "\<And>i. i < 17 \<Longrightarrow> slotOk i (ts ! i)"
    using h(2) by (auto simp: canon_Full_iff)
  have "2 \<le> length (occupied (ts[unat x := c']))"
    using two IH(2) child(2) by (elim occupied_two) (metis length_list_update nth_list_update occupied_ge2)
  then have "canon (PFull (ts[unat x := c']))"
    using len slots slotOk_canonAt[OF h(1), of c'] IH(1) child(2) by (auto simp: canon_Full_iff nth_list_update)
  moreover have "pget (PFull (ts[unat x := c'])) k' = (if k' = x # k then Some v else pget (PFull ts) k')"
    if k': "hexKey k'" for k'
  proof -
    obtain y r where y: "k' = y # r" "unat y < 17" using k' hexKey_index by (cases k') auto
    show ?thesis
    proof (cases "y = x")
      case True
      have "peerKey k r" using h(1) k' y True by (auto simp: hexKey_Cons peerKey_def)
      with IH(4) True y len show ?thesis by simp
    next
      case False
      then have "unat y \<noteq> unat x" by (simp add: word_unat_eq_iff)
      with False y len show ?thesis by simp
    qed
  qed
  ultimately show ?case using h(1) t' IH(3) by (simp add: canonAt_def peerKey_def)
next
  case (4 x k v)
  then show ?case using hexKey_prefix by (auto simp: canonAt_def peerKey_def canon_Leaf)
next
  case (5 u x k v)
  then show ?case by (simp add: canonAt_def)
qed

section \<open>Deletion\<close>

lemma canon_prepend:
  assumes "canon (PShort q d)" "nibbles p"
  shows "canon (PShort (p @ q) d)"
  using assms(1)
proof (cases rule: canon_Short_cases)
  case (leaf v)
  with assms(2) show ?thesis by (auto simp: hexKey_append intro: canon_Leaf)
next
  case (ext ts)
  with assms(2) show ?thesis by (auto intro: canon_Ext)
qed

lemma pget_prepend: "pget (PShort (p @ q) d) k = pget (PShort p (PShort q d)) k"
  by (auto simp: prefix_def)

lemma pget_single:
  assumes "length ts = 17" "occupied ts = [pos]" "hexKey k"
  shows "pget (PFull ts) k = pget (PShort [word_of_nat pos] (ts ! pos)) k"
proof -
  have pos: "pos < 17" "\<And>i. i < 17 \<Longrightarrow> ts ! i \<noteq> PNil \<longleftrightarrow> i = pos"
    using set_occupied[of ts] assms(1,2) by auto
  have u: "unat (word_of_nat pos :: byte) = pos" using pos(1) by (subst unat_of_nat) simp
  obtain x r where x: "k = x # r" "unat x < 17" using assms(3) hexKey_index by (cases k) auto
  show ?thesis
  proof (cases "unat x = pos")
    case True
    then have "x = word_of_nat pos" using u by (metis word_unat_eq_iff)
    with x assms(1) pos(1) u show ?thesis by simp
  next
    case False
    then have "x \<noteq> word_of_nat pos" using u by auto
    with False x assms(1) pos(2)[of "unat x"] show ?thesis by simp
  qed
qed

lemma preduce_spec:
  assumes "length ts = 17" "\<And>i. i < 17 \<Longrightarrow> slotOk i (ts ! i)" "occupied ts \<noteq> []"
  shows "canon (preduce ts) \<and> ((\<exists>q d. preduce ts = PShort q d) \<or> (\<exists>us. preduce ts = PFull us)) \<and>
    (\<forall>k. hexKey k \<longrightarrow> pget (preduce ts) k = pget (PFull ts) k)"
proof (cases "2 \<le> length (occupied ts)")
  case True
  then have "preduce ts = PFull ts" by (auto simp: preduce_def split: list.splits)
  with assms True show ?thesis by (simp add: canon_Full_iff)
next
  case False
  then obtain pos where occ: "occupied ts = [pos]" using assms(3) by (cases "occupied ts") (auto simp: Suc_le_eq)
  have pos: "pos < 17" "ts ! pos \<noteq> PNil" using set_occupied[of ts] assms(1) occ by auto
  let ?x = "word_of_nat pos :: byte"
  note look = pget_single[OF assms(1) occ]
  show ?thesis
  proof (cases "pos = 16")
    case True
    with assms(2)[of 16] pos obtain v where v: "ts ! 16 = PVal v" "v \<noteq> []" by (auto simp: slotOk_def)
    then have r: "preduce ts = PShort [16] (PVal v)" using occ True by (simp add: preduce_def)
    have "hexKey [16]" by (simp add: hexKey_Cons)
    with r v look True show ?thesis by (simp add: canon_Leaf)
  next
    case False
    then have p16: "pos < 16" using pos(1) by simp
    have x: "?x < 16" using p16 by (simp add: word_less_nat_alt unat_of_nat)
    have c: "canon (ts ! pos)" using assms(2)[OF pos(1)] False by (simp add: slotOk_def)
    show ?thesis
    proof (cases "ts ! pos")
      case (PShort k d)
      with occ False have r: "preduce ts = PShort ([?x] @ k) d" by (simp add: preduce_def)
      have "canon (preduce ts)" unfolding r using c x PShort by (intro canon_prepend) simp_all
      with look r PShort pget_prepend[of "[?x]" k d] show ?thesis by simp
    next
      case (PFull us)
      with occ have r: "preduce ts = PShort [?x] (PFull us)" by (simp add: preduce_def)
      with c x PFull look show ?thesis by (auto intro: canon_Ext)
    qed (use pos c in auto)
  qed
qed

lemma pdel_Full_shape:
  assumes "pdel (PFull ts) (x # k) = (d, t)" "canon (PFull ts)" "hexKey (x # k)"
  shows "(\<exists>q e. t = PShort q e) \<or> (\<exists>us. t = PFull us)"
  using assms by (auto simp: preduce_def Let_def split: if_splits prod.splits list.splits pt.splits)

lemma pdel_spec:
  assumes "canonAt k t" "pdel t k = (dirty, t')"
  shows "canonAt k t' \<and> (\<not> dirty \<longrightarrow> t' = t) \<and>
    (\<forall>k'. peerKey k k' \<longrightarrow> pget t' k' = (if k' = k then None else pget t k'))"
  using assms
proof (induction t k arbitrary: dirty t' rule: pdel.induct)
  case (1 k)
  then show ?case by auto
next
  case (2 v k)
  then show ?case by (auto simp: canonAt_def peerKey_def split: if_splits)
next
  case (3 p c k)
  have h: "hexKey k" "canon (PShort p c)" using 3(2) by (auto simp: canonAt_def split: if_splits)
  then have kn: "k \<noteq> []" by auto
  show ?case
  proof (cases "prefixLen k p < length p")
    case True
    then have "\<not> prefix p k" using prefixLen_full_iff[of k p] by simp
    with True 3(2,3) kn show ?thesis by (auto simp: peerKey_def)
  next
    case False
    then have pre: "prefix p k" using prefixLen_full_iff[of k p] prefixLen_le(2)[of k p] by simp
    then obtain r where r: "k = p @ r" by (auto simp: prefix_def)
    have pl: "prefixLen k p = length p" using pre by (simp add: prefixLen_full_iff)
    show ?thesis
    proof (cases "prefixLen k p = length k")
      case True
      then have kp: "k = p" using pl r by simp
      with 3(3) pl have "t' = PNil" "dirty" by simp_all
      moreover have "pget (PShort p c) k' = None" if "hexKey k'" "k' \<noteq> k" for k'
        using that hexKey_prefix[of p k'] h(1) kp by simp
      ultimately show ?thesis using h(1) kn by (simp add: canonAt_def peerKey_def canon_Nil)
    next
      case notwhole: False
      then have rn: "r \<noteq> []" using pl r by auto
      with h obtain ts where ext: "c = PFull ts" "nibbles p" "p \<noteq> []" "canon (PFull ts)"
        using r by (cases rule: canon_Short_cases[OF h(2)]) (auto simp: hexKey_append_hexKey)
      have hr: "hexKey r" using h(1) r ext(2) by (simp add: hexKey_append)
      obtain d c' where c': "pdel c r = (d, c')" by force
      have IH: "canonAt r c'" "\<not> d \<Longrightarrow> c' = c" "\<And>k'. hexKey k' \<Longrightarrow> pget c' k' = (if k' = r then None else pget c k')"
        using 3(1)[OF False notwhole, of d c'] canonAt_short[OF h(2,1) pre] c' r rn by (auto simp: peerKey_def)
      have look: "pget (PShort p c') k' = (if k' = k then None else pget (PShort p c) k')" if "hexKey k'" for k'
      proof (cases "prefix p k'")
        case True
        then obtain zs where zs: "k' = p @ zs" by (auto simp: prefix_def)
        with that ext(2) have "hexKey zs" by (simp add: hexKey_append)
        from IH(3)[OF this] zs r show ?thesis by simp
      qed (use r in auto)
      obtain y s where ys: "r = y # s" using rn by (cases r) auto
      have shape: "(\<exists>q e. c' = PShort q e) \<or> (\<exists>us. c' = PFull us)"
        using pdel_Full_shape c' ext hr ys by blast
      show ?thesis
      proof (cases d)
        case False
        with 3(3) c' r rn pl have "t' = PShort p c" "\<not> dirty" by auto
        with look IH(2)[OF False] h kn show ?thesis by (auto simp: canonAt_def peerKey_def)
      next
        case True
        from shape show ?thesis
        proof
          assume "\<exists>q e. c' = PShort q e"
          then obtain q e where q: "c' = PShort q e" by blast
          with True 3(3) c' r pl rn have t': "t' = PShort (p @ q) e" by simp
          have "canon t'" using t' IH(1) q rn ext(2) by (auto simp: canonAt_def intro: canon_prepend)
          with True 3(3) c' r pl rn look q t' h kn pget_prepend[of p q e] show ?thesis
            by (auto simp: canonAt_def peerKey_def)
        next
          assume "\<exists>us. c' = PFull us"
          then obtain us where q: "c' = PFull us" by blast
          with True 3(3) c' r pl rn have t': "t' = PShort p c'" "dirty" by auto
          have "canon t'" using t' IH(1) q rn ext by (auto simp: canonAt_def intro: canon_Ext)
          with t' look h kn show ?thesis by (auto simp: canonAt_def peerKey_def)
        qed
      qed
    qed
  qed
next
  case (4 ts)
  then show ?case by (auto simp: canonAt_def)
next
  case (5 ts x k)
  have h: "hexKey (x # k)" "canon (PFull ts)" using 5(2) by (simp_all add: canonAt_def)
  note child = canonAt_child[OF h(2,1)]
  obtain d c' where c': "pdel (ts ! unat x) k = (d, c')" by force
  have IH: "canonAt k c'" "\<not> d \<Longrightarrow> c' = ts ! unat x"
    "\<And>k'. peerKey k k' \<Longrightarrow> pget c' k' = (if k' = k then None else pget (ts ! unat x) k')"
    using 5(1)[OF child(2,1) c'] by auto
  have len: "length ts = 17" and two: "2 \<le> length (occupied ts)" and slots: "\<And>i. i < 17 \<Longrightarrow> slotOk i (ts ! i)"
    using h(2) by (auto simp: canon_Full_iff)
  let ?ts = "ts[unat x := c']"
  have slots': "slotOk i (?ts ! i)" if "i < 17" for i
    using slots[OF that] slotOk_canonAt[OF h(1), of c'] IH(1) child(2) len that by (auto simp: nth_list_update)
  have look: "pget (PFull ?ts) k' = (if k' = x # k then None else pget (PFull ts) k')" if k': "hexKey k'" for k'
  proof -
    obtain y r where y: "k' = y # r" "unat y < 17" using k' hexKey_index by (cases k') auto
    show ?thesis
    proof (cases "y = x")
      case True
      have "peerKey k r" using h(1) k' y True by (auto simp: hexKey_Cons peerKey_def)
      with IH(3) True y len show ?thesis by simp
    next
      case False
      then have "unat y \<noteq> unat x" by (simp add: word_unat_eq_iff)
      with False y len show ?thesis by simp
    qed
  qed
  show ?case
  proof (cases d)
    case False
    with 5(3) c' child(2) have "t' = PFull ts" "\<not> dirty" by auto
    with look IH(2)[OF False] h show ?thesis by (auto simp: canonAt_def peerKey_def)
  next
    case d: True
    show ?thesis
    proof (cases "c' = PNil")
      case False
      with d 5(3) c' child(2) have t': "t' = PFull ?ts" "dirty" by auto
      have "2 \<le> length (occupied ?ts)"
        using two False child(2) by (elim occupied_two) (metis length_list_update nth_list_update occupied_ge2)
      with t' look len slots' h show ?thesis by (auto simp: canonAt_def peerKey_def canon_Full_iff)
    next
      case True
      with d 5(3) c' child(2) have t': "t' = preduce ?ts" "dirty" by auto
      obtain i j where ij: "i \<noteq> j" "i < length ts" "j < length ts" "ts ! i \<noteq> PNil" "ts ! j \<noteq> PNil"
        using occupied_two[OF two] by blast
      then have "i \<in> set (occupied ?ts) \<or> j \<in> set (occupied ?ts)" by (cases "unat x = i") auto
      then have "occupied ?ts \<noteq> []" by (auto simp del: set_occupied)
      with preduce_spec[of ?ts] len slots' look t' h show ?thesis by (auto simp: canonAt_def peerKey_def)
    qed
  qed
qed

section \<open>The map determines the tree\<close>

lemma canon_has_key:
  assumes "canon t" "t \<noteq> PNil"
  shows "\<exists>k v. hexKey k \<and> pget t k = Some v"
  using assms
proof (induction rule: canon.induct)
  case (canon_Leaf p v)
  then show ?case by (intro exI[of _ p] exI[of _ v]) simp
next
  case (canon_Ext p ts)
  then obtain k v where "hexKey k" "pget (PFull ts) k = Some v" by auto
  with canon_Ext(1) show ?case by (intro exI[of _ "p @ k"] exI[of _ v]) (simp add: hexKey_append)
next
  case (canon_Full ts)
  from occupied_two[OF canon_Full(4)] obtain i where i: "i < 17" "ts ! i \<noteq> PNil" using canon_Full(1) by auto
  have u: "unat (word_of_nat i :: byte) = i" using i(1) by (subst unat_of_nat) simp
  show ?case
  proof (cases "i = 16")
    case True
    with i canon_Full(3) obtain v where "ts ! 16 = PVal v" by auto
    with canon_Full(1) show ?thesis by (intro exI[of _ "[16]"] exI[of _ v]) (simp add: hexKey_Cons)
  next
    case False
    with i canon_Full(5)[of i] obtain k v where k: "hexKey k" "pget (ts ! i) k = Some v" by auto
    have "(word_of_nat i :: byte) < 16" using False i(1) by (simp add: word_less_nat_alt u)
    with k u i(1) canon_Full(1) show ?thesis
      by (intro exI[of _ "word_of_nat i # k"] exI[of _ v]) (simp add: hexKey_Cons)
  qed
qed simp

text \<open>Each occupied entry of a branch has a key of its own.\<close>

lemma branch_key:
  assumes "canon (PFull ts)" "i < 17" "ts ! i \<noteq> PNil"
  shows "\<exists>k v. hexKey (word_of_nat i # k) \<and> pget (PFull ts) (word_of_nat i # k) = Some v"
proof -
  have c: "length ts = 17" "slotOk i (ts ! i)" using assms by (auto simp: canon_Full_iff)
  have u: "unat (word_of_nat i :: byte) = i" using assms(2) by (subst unat_of_nat) simp
  show ?thesis
  proof (cases "i = 16")
    case True
    with c assms(3) show ?thesis by (auto simp: slotOk_def hexKey_Cons intro: exI[of _ "[]"])
  next
    case False
    then obtain k v where "hexKey k" "pget (ts ! i) k = Some v"
      using canon_has_key[of "ts ! i"] c(2) assms(3) by (auto simp: slotOk_def)
    moreover have "(word_of_nat i :: byte) < 16" using False assms(2) by (simp add: word_less_nat_alt u)
    ultimately show ?thesis using u c(1) assms(2) by (intro exI[of _ k] exI[of _ v]) (simp add: hexKey_Cons)
  qed
qed

text \<open>A branch has two keys that differ in their first nibble.\<close>

lemma branch_two_keys:
  assumes "canon (PFull ts)"
  obtains x k y l u v where "x \<noteq> y" "hexKey (x # k)" "hexKey (y # l)"
    "pget (PFull ts) (x # k) = Some u" "pget (PFull ts) (y # l) = Some v"
proof -
  have c: "length ts = 17" "2 \<le> length (occupied ts)" using assms by (auto simp: canon_Full_iff)
  from occupied_two[OF c(2)] obtain i j where ij: "i \<noteq> j" "i < 17" "j < 17" "ts ! i \<noteq> PNil" "ts ! j \<noteq> PNil"
    using c(1) by metis
  have "(word_of_nat i :: byte) \<noteq> word_of_nat j"
    using ij(1-3) by (simp add: word_unat_eq_iff unat_of_nat)
  with branch_key[OF assms ij(2,4)] branch_key[OF assms ij(3,5)] that show thesis by blast
qed

lemma prefix_of_fork:
  assumes "prefix q (p @ x # k)" "prefix q (p @ y # l)" "x \<noteq> y"
  shows "prefix q p"
  using assms
proof (induction p arbitrary: q)
  case Nil
  then show ?case by (cases q) auto
next
  case (Cons z p)
  then show ?case by (cases q) auto
qed

lemma same_keys_short_full:
  assumes "canon (PShort p c)" "canon (PFull ts)"
    "\<And>k. hexKey k \<Longrightarrow> pget (PShort p c) k = pget (PFull ts) k"
  shows False
proof -
  obtain x k y l u v where t: "x \<noteq> y" "hexKey (x # k)" "hexKey (y # l)"
    "pget (PFull ts) (x # k) = Some u" "pget (PFull ts) (y # l) = Some v"
    by (rule branch_two_keys[OF assms(2)])
  have "prefix p (x # k)" "prefix p (y # l)"
    using assms(3)[OF t(2)] assms(3)[OF t(3)] t(4,5) by (auto split: if_splits)
  moreover have "p \<noteq> []" using assms(1) by (auto elim: canon_Short_cases)
  ultimately show False using t(1) by (cases p) auto
qed

lemma canon_unique:
  assumes "canon t" "canon t'" "\<And>k. hexKey k \<Longrightarrow> pget t k = pget t' k"
  shows "t = t'"
  using assms
proof (induction arbitrary: t' rule: canon.induct)
  case canon_Nil
  then show ?case using canon_has_key[of t'] by fastforce
next
  case (canon_Leaf p v)
  have n: "t' \<noteq> PNil" using canon_Leaf(1) canon_Leaf(4)[of p] by auto
  show ?case
  proof (cases t')
    case (PShort q c)
    have pq: "prefix q p" "pget c (drop (length q) p) = Some v"
      using canon_Leaf(4)[OF canon_Leaf(1)] PShort by (auto split: if_splits)
    from canon_Leaf(3)[unfolded PShort] show ?thesis
    proof (cases rule: canon_Short_cases)
      case (leaf u)
      with pq canon_Leaf(1) PShort show ?thesis by (auto simp: hexKey_prefix)
    next
      case (ext ts)
      obtain x k y l a b where t: "x \<noteq> y" "hexKey (x # k)" "hexKey (y # l)"
        "pget (PFull ts) (x # k) = Some a" "pget (PFull ts) (y # l) = Some b"
        by (rule branch_two_keys[OF ext(4)])
      have "hexKey (q @ x # k)" "hexKey (q @ y # l)" using t ext(2) by (simp_all add: hexKey_append)
      with canon_Leaf(4)[of "q @ x # k"] canon_Leaf(4)[of "q @ y # l"] t ext(1) PShort canon_Leaf(1)
      have "p = q @ x # k" "p = q @ y # l" by (auto simp: hexKey_prefix split: if_splits)
      with t(1) show ?thesis by simp
    qed
  next
    case (PFull ts)
    with same_keys_short_full[of p "PVal v" ts] canon_Leaf show ?thesis by (auto intro: canon.canon_Leaf)
  qed (use n canon_Leaf(3) in auto)
next
  case (canon_Ext p ts)
  have c: "canon (PShort p (PFull ts))" using canon_Ext by (auto intro: canon.canon_Ext)
  obtain x k y l a b where t: "x \<noteq> y" "hexKey (x # k)" "hexKey (y # l)"
    "pget (PFull ts) (x # k) = Some a" "pget (PFull ts) (y # l) = Some b"
    by (rule branch_two_keys[OF canon_Ext(3)])
  have hk: "hexKey (p @ x # k)" "hexKey (p @ y # l)" using t canon_Ext(1) by (simp_all add: hexKey_append)
  show ?case
  proof (cases t')
    case (PShort q d)
    have pre: "prefix q (p @ x # k)" "prefix q (p @ y # l)"
      using canon_Ext(6)[OF hk(1)] canon_Ext(6)[OF hk(2)] t PShort by (auto split: if_splits)
    from canon_Ext(5)[unfolded PShort] show ?thesis
    proof (cases rule: canon_Short_cases)
      case (leaf u)
      with pre hexKey_prefix[OF leaf(2)] hk have "q = p @ x # k" "q = p @ y # l" by blast+
      with t(1) show ?thesis by simp
    next
      case (ext us)
      obtain x' k' y' l' a' b' where t': "x' \<noteq> y'" "hexKey (x' # k')" "hexKey (y' # l')"
        "pget (PFull us) (x' # k') = Some a'" "pget (PFull us) (y' # l') = Some b'"
        by (rule branch_two_keys[OF ext(4)])
      have hk': "hexKey (q @ x' # k')" "hexKey (q @ y' # l')" using t' ext(2) by (simp_all add: hexKey_append)
      have pre': "prefix p (q @ x' # k')" "prefix p (q @ y' # l')"
        using canon_Ext(6)[OF hk'(1)] canon_Ext(6)[OF hk'(2)] t' ext(1) PShort by (auto split: if_splits)
      have "prefix q p" using pre t(1) by (rule prefix_of_fork)
      moreover have "prefix p q" using pre' t'(1) by (rule prefix_of_fork)
      ultimately have pq: "p = q" by (simp add: prefix_order.antisym)
      have "PFull ts = PFull us"
      proof (rule canon_Ext(4)[OF ext(4)])
        fix k assume "hexKey k"
        then have "hexKey (p @ k)" using canon_Ext(1) by (simp add: hexKey_append)
        from canon_Ext(6)[OF this] show "pget (PFull ts) k = pget (PFull us) k" using PShort ext(1) pq by simp
      qed
      with pq PShort ext show ?thesis by simp
    qed
  next
    case (PFull us)
    with same_keys_short_full[OF c, of us] canon_Ext(5,6) show ?thesis by simp
  next
    case PNil
    with canon_Ext(6)[OF hk(1)] t show ?thesis by simp
  qed (use canon_Ext(5) in auto)
next
  case (canon_Full ts)
  have c: "canon (PFull ts)" using canon_Full by (auto intro: canon.canon_Full)
  obtain x k y l a b where t: "hexKey (x # k)" "pget (PFull ts) (x # k) = Some a"
    using branch_two_keys[OF c] by metis
  show ?case
  proof (cases t')
    case (PShort q d)
    with same_keys_short_full[of q d ts] c canon_Full(6,7) show ?thesis by simp
  next
    case PNil
    with canon_Full(7)[OF t(1)] t show ?thesis by simp
  next
    case (PFull us)
    then have us: "length us = 17" "\<And>i. i < 17 \<Longrightarrow> slotOk i (us ! i)"
      using canon_Full(6) by (auto simp: canon_Full_iff)
    have "ts ! i = us ! i" if i: "i < 17" for i
    proof -
      have u: "unat (word_of_nat i :: byte) = i" using i by (subst unat_of_nat) simp
      have look: "pget (ts ! i) k = pget (us ! i) k" if "hexKey (word_of_nat i # k)" for k
        using canon_Full(7)[OF that] PFull u i us(1) canon_Full(1) by simp
      show ?thesis
      proof (cases "i = 16")
        case True
        with look[of "[]"] us(2)[of 16] canon_Full(3) show ?thesis by (auto simp: slotOk_def hexKey_Cons)
      next
        case False
        have "(word_of_nat i :: byte) < 16" using False i by (simp add: word_less_nat_alt u)
        with canon_Full(5)[of i "us ! i"] look us(2)[OF i] False i show ?thesis
          by (simp add: slotOk_def hexKey_Cons)
      qed
    qed
    with us(1) canon_Full(1) PFull show ?thesis by (simp add: nth_equalityI)
  qed (use canon_Full(6) in auto)
qed

section \<open>The tree as a store of byte strings\<close>

text \<open>
  What a user of the trie relies on: an update changes the value of one key (an empty value
  removes it), and the contents determine the state.
\<close>

locale kv_store =
  fixes look :: "'s \<Rightarrow> bytes \<Rightarrow> bytes option"
    and upd :: "bytes \<Rightarrow> bytes \<Rightarrow> 's \<Rightarrow> 's"
    and ok :: "'s \<Rightarrow> bool"
  assumes ok_upd: "ok s \<Longrightarrow> ok (upd k v s)"
    and look_upd: "ok s \<Longrightarrow> look (upd k v s) k' = (if k' = k then (if v = [] then None else Some v) else look s k')"
    and look_ext: "ok s \<Longrightarrow> ok s' \<Longrightarrow> (\<And>k. look s k = look s' k) \<Longrightarrow> s = s'"
begin

lemma upd_commute: "ok s \<Longrightarrow> k \<noteq> l \<Longrightarrow> upd k v (upd l w s) = upd l w (upd k v s)"
  by (rule look_ext) (auto simp: ok_upd look_upd)

lemma upd_overwrite: "ok s \<Longrightarrow> upd k v (upd k w s) = upd k v s"
  by (rule look_ext) (auto simp: ok_upd look_upd)

lemma fold_ok: "ok s \<Longrightarrow> ok (fold (\<lambda>(k, v). upd k v) kvs s)"
  by (induction kvs arbitrary: s) (auto simp: ok_upd)

lemma fold_look:
  "ok s \<Longrightarrow> look (fold (\<lambda>(k, v). upd k v) kvs s) k =
    (case map_of (rev kvs) k of None \<Rightarrow> look s k | Some v \<Rightarrow> if v = [] then None else Some v)"
proof (induction kvs arbitrary: s)
  case (Cons kv kvs)
  obtain l v where kv: "kv = (l, v)" by force
  have "look (fold (\<lambda>(k, v). upd k v) (kv # kvs) s) k =
    (case map_of (rev kvs) k of None \<Rightarrow> look (upd l v s) k | Some v \<Rightarrow> if v = [] then None else Some v)"
    using Cons kv by (simp add: ok_upd)
  also have "\<dots> = (case map_of (rev kvs @ [(l, v)]) k of None \<Rightarrow> look s k | Some v \<Rightarrow> if v = [] then None else Some v)"
    using Cons.prems by (simp add: map_add_def look_upd split: option.splits)
  finally show ?case by (simp add: kv)
qed simp

text \<open>Updates with the same effect on every key lead to the same state, whatever their order.\<close>

lemma fold_same_state:
  assumes "ok s" "\<And>k. map_of (rev kvs) k = map_of (rev kvs') k"
  shows "fold (\<lambda>(k, v). upd k v) kvs s = fold (\<lambda>(k, v). upd k v) kvs' s"
  using assms by (intro look_ext) (simp_all add: fold_ok fold_look)

end

definition plook :: "pt \<Rightarrow> bytes \<Rightarrow> bytes option" where
  "plook t key = pget t (keybytesToHex key)"

definition pupd :: "bytes \<Rightarrow> bytes \<Rightarrow> pt \<Rightarrow> pt" where
  "pupd key v t = snd (if v \<noteq> [] then pins t (keybytesToHex key) v else pdel t (keybytesToHex key))"

definition byteTree :: "pt \<Rightarrow> bool" where
  "byteTree t \<longleftrightarrow> canon t \<and> (\<forall>k v. hexKey k \<longrightarrow> pget t k = Some v \<longrightarrow> (\<exists>key. k = keybytesToHex key))"

lemma hexKey_keybytesToHex [simp]: "hexKey (keybytesToHex key)"
  by (auto simp: hexKey_def keybytesToHex_def)

lemma keybytesToHex_inj [simp]: "keybytesToHex a = keybytesToHex b \<longleftrightarrow> a = b"
  by (metis hexToKeybytes_keybytesToHex sum.inject(2))

lemma keybytesToHex_not_Nil [simp]: "keybytesToHex a \<noteq> []"
  by (simp add: keybytesToHex_def)

lemma pupd_spec:
  assumes "canon t"
  shows "canon (pupd key v t)"
    "hexKey k \<Longrightarrow> pget (pupd key v t) k =
      (if k = keybytesToHex key then (if v = [] then None else Some v) else pget t k)"
proof -
  have c: "canonAt (keybytesToHex key) t" using assms by (simp add: canonAt_def)
  obtain d t' where t': "(if v \<noteq> [] then pins t (keybytesToHex key) v else pdel t (keybytesToHex key)) = (d, t')" by force
  have "canonAt (keybytesToHex key) t' \<and> (\<forall>k'. peerKey (keybytesToHex key) k' \<longrightarrow>
      pget t' k' = (if k' = keybytesToHex key then (if v = [] then None else Some v) else pget t k'))"
    using t' pins_spec[OF c, of v d t'] pdel_spec[OF c, of d t'] by (cases "v = []") auto
  then show "canon (pupd key v t)" "hexKey k \<Longrightarrow> pget (pupd key v t) k =
      (if k = keybytesToHex key then (if v = [] then None else Some v) else pget t k)"
    using t' by (simp_all add: pupd_def canonAt_def peerKey_def)
qed

interpretation ptrie: kv_store plook pupd byteTree
proof
  fix s s' k v k'
  show "byteTree s \<Longrightarrow> byteTree (pupd k v s)"
    using pupd_spec(1)[of s k v] by (auto simp: byteTree_def pupd_spec(2) split: if_splits)
  show "byteTree s \<Longrightarrow> plook (pupd k v s) k' = (if k' = k then (if v = [] then None else Some v) else plook s k')"
    using pupd_spec(2)[of s "keybytesToHex k'" k v] by (simp add: byteTree_def plook_def)
  assume s: "byteTree s" "byteTree s'" "\<And>k. plook s k = plook s' k"
  show "s = s'"
  proof (rule canon_unique)
    fix k assume k: "hexKey k"
    show "pget s k = pget s' k"
    proof (cases "\<exists>key. k = keybytesToHex key")
      case True
      then show ?thesis using s(3) by (auto simp: plook_def)
    next
      case False
      with s(1,2) k have "pget s k = None" "pget s' k = None"
        unfolding byteTree_def by (metis not_None_eq)+
      then show ?thesis by simp
    qed
  qed (use s in \<open>simp_all add: byteTree_def\<close>)
qed

lemma byteTree_PNil [simp]: "byteTree PNil"
  by (simp add: byteTree_def canon_Nil)

end
