(* ===== verification/Rlp.thy ===== *)
theory Rlp
  imports Prelude
begin

text \<open>
  The interface of \<^verbatim>\<open>github.com/ethereum/go-ethereum/rlp\<close> that the trie uses. The package is not part of
  the repository: the model takes it as a record of its operations, and the locale \<open>rlp_codec\<close> states
  what its documentation promises: items are read back as they were written, and lists of items
  are counted. Sizes are below \<open>2 ^ 63\<close>, the largest length of a Go slice. \<open>stdRlp\<close>, a direct
  implementation of the format, shows that the promises can be kept.
\<close>

datatype Kind = KByte | KString | KList

record rlp =
  WriteBytes :: "bytes \<Rightarrow> bytes"
  ListOf :: "bytes \<Rightarrow> bytes"
  EmptyString :: bytes
  Split :: "bytes \<Rightarrow> string + (Kind \<times> bytes \<times> bytes)"
  SplitString :: "bytes \<Rightarrow> string + (bytes \<times> bytes)"
  SplitList :: "bytes \<Rightarrow> string + (bytes \<times> bytes)"
  CountValues :: "bytes \<Rightarrow> string + nat"

definition maxLen :: nat where
  "maxLen = 2 ^ 63"

definition kindOf :: "bytes \<Rightarrow> Kind" where
  "kindOf v = (case v of [b] \<Rightarrow> if b < 0x80 then KByte else KString | _ \<Rightarrow> KString)"

locale rlp_codec =
  fixes R :: rlp
  assumes EmptyString: "EmptyString R = WriteBytes R []"
    and Split_WriteBytes: "length v < maxLen \<Longrightarrow> Split R (WriteBytes R v @ r) = Inr (kindOf v, v, r)"
    and Split_ListOf: "length c < maxLen \<Longrightarrow> Split R (ListOf R c @ r) = Inr (KList, c, r)"
    and SplitString_WriteBytes: "length v < maxLen \<Longrightarrow> SplitString R (WriteBytes R v @ r) = Inr (v, r)"
    and SplitList_ListOf: "length c < maxLen \<Longrightarrow> SplitList R (ListOf R c @ r) = Inr (c, r)"
    and CountValues_Nil: "CountValues R [] = Inr 0"
    and CountValues_WriteBytes: "length v < maxLen \<Longrightarrow>
      CountValues R (WriteBytes R v @ r) = map_sum id Suc (CountValues R r)"
    and CountValues_ListOf: "length c < maxLen \<Longrightarrow>
      CountValues R (ListOf R c @ r) = map_sum id Suc (CountValues R r)"
    and length_ListOf: "length c < maxLen \<Longrightarrow> length c < length (ListOf R c) \<and> length (ListOf R c) \<le> length c + 9"
    and length_WriteBytes: "length v < maxLen \<Longrightarrow> length v \<le> length (WriteBytes R v) \<and> length (WriteBytes R v) \<le> length v + 9"
    and WriteBytes_not_empty: "WriteBytes R v \<noteq> []"
begin

lemma WriteBytes_prefix_free:
  assumes "length v < maxLen" "length w < maxLen" "WriteBytes R v @ r = WriteBytes R w @ s"
  shows "v = w" "r = s"
  using arg_cong[OF assms(3), of "Split R"] unfolding Split_WriteBytes[OF assms(1)] Split_WriteBytes[OF assms(2)]
  by simp_all

lemma ListOf_prefix_free:
  assumes "length c < maxLen" "length d < maxLen" "ListOf R c @ r = ListOf R d @ s"
  shows "c = d" "r = s"
  using arg_cong[OF assms(3), of "Split R"] unfolding Split_ListOf[OF assms(1)] Split_ListOf[OF assms(2)] by simp_all

lemma ListOf_not_WriteBytes:
  assumes "length c < maxLen" "length v < maxLen"
  shows "ListOf R c @ r \<noteq> WriteBytes R v @ s"
proof
  assume "ListOf R c @ r = WriteBytes R v @ s"
  from arg_cong[OF this, of "Split R"] have "kindOf v = KList"
    unfolding Split_ListOf[OF assms(1)] Split_WriteBytes[OF assms(2)] by simp
  then show False by (auto simp: kindOf_def split: list.splits if_splits)
qed

end

section \<open>The format\<close>

definition rlpHeader :: "nat \<Rightarrow> nat \<Rightarrow> bytes" where
  "rlpHeader base n = (if n < 56 then [word_of_nat (base + n)]
                       else word_of_nat (base + 55 + length (minBytes n)) # minBytes n)"

definition stdWriteBytes :: "bytes \<Rightarrow> bytes" where
  "stdWriteBytes v = (if kindOf v = KByte then v else rlpHeader 0x80 (length v) @ v)"

definition stdListOf :: "bytes \<Rightarrow> bytes" where
  "stdListOf c = rlpHeader 0xc0 (length c) @ c"

definition readSize :: "nat \<Rightarrow> bytes \<Rightarrow> string + nat" where
  "readSize slen b =
    (if length b < slen then Inl ''unexpected EOF''
     else if beNat (take slen b) < 56 \<or> hd b = 0 then Inl ''rlp: non-canonical size information''
     else Inr (beNat (take slen b)))"

text \<open>The kind of the first item, the length of its header and the length of its content.\<close>

definition readKind :: "bytes \<Rightarrow> string + (Kind \<times> nat \<times> nat)" where
  "readKind buf =
    (case buf of [] \<Rightarrow> Inl ''unexpected EOF''
     | b # rest \<Rightarrow>
       let n = unat b;
           res = (if n < 0x80 then Inr (KByte, 0, 1)
                  else if n < 0xb8 then
                    (if n = 0x81 \<and> rest \<noteq> [] \<and> hd rest < 0x80 then Inl ''rlp: non-canonical size information''
                     else Inr (KString, 1, n - 0x80))
                  else if n < 0xc0 then map_sum id (\<lambda>s. (KString, n - 0xb7 + 1, s)) (readSize (n - 0xb7) rest)
                  else if n < 0xf8 then Inr (KList, 1, n - 0xc0)
                  else map_sum id (\<lambda>s. (KList, n - 0xf7 + 1, s)) (readSize (n - 0xf7) rest))
       in (case res of Inl e \<Rightarrow> Inl e
           | Inr (k, tag, sz) \<Rightarrow> if length buf - tag < sz then Inl ''rlp: value size exceeds available input length''
                                 else Inr (k, tag, sz)))"

definition stdSplit :: "bytes \<Rightarrow> string + (Kind \<times> bytes \<times> bytes)" where
  "stdSplit buf = map_sum id (\<lambda>(k, tag, sz). (k, take sz (drop tag buf), drop (tag + sz) buf)) (readKind buf)"

definition stdSplitString :: "bytes \<Rightarrow> string + (bytes \<times> bytes)" where
  "stdSplitString buf =
    (case stdSplit buf of Inl e \<Rightarrow> Inl e
     | Inr (k, v, rest) \<Rightarrow> if k = KList then Inl ''rlp: expected String or Byte'' else Inr (v, rest))"

definition stdSplitList :: "bytes \<Rightarrow> string + (bytes \<times> bytes)" where
  "stdSplitList buf =
    (case stdSplit buf of Inl e \<Rightarrow> Inl e
     | Inr (k, v, rest) \<Rightarrow> if k = KList then Inr (v, rest) else Inl ''rlp: expected List'')"

lemma readKind_positive:
  assumes "readKind buf = Inr (k, tag, sz)"
  shows "buf \<noteq> []" "0 < tag + sz"
proof -
  show "buf \<noteq> []" using assms by (auto simp: readKind_def)
  show "0 < tag + sz"
    using assms
    by (auto simp: readKind_def Let_def map_sum_def split: list.splits if_splits sum.splits)
qed

function stdCountValues :: "bytes \<Rightarrow> string + nat" where
  "stdCountValues buf =
    (if buf = [] then Inr 0
     else case readKind buf of Inl e \<Rightarrow> Inl e
          | Inr (k, tag, sz) \<Rightarrow> map_sum id Suc (stdCountValues (drop (tag + sz) buf)))"
  by pat_completeness auto
termination
  by (relation "measure length") (auto dest: readKind_positive)

declare stdCountValues.simps [simp del]

definition stdRlp :: rlp where
  "stdRlp = \<lparr>WriteBytes = stdWriteBytes, ListOf = stdListOf, EmptyString = [0x80], Split = stdSplit,
     SplitString = stdSplitString, SplitList = stdSplitList, CountValues = stdCountValues\<rparr>"

section \<open>What is written is read\<close>

lemma minBytes_hd: "x \<noteq> 0 \<Longrightarrow> hd (minBytes x) \<noteq> 0"
proof (induction x rule: minBytes.induct)
  case (1 x)
  have e: "minBytes x = minBytes (x div 256) @ [word_of_nat (x mod 256)]"
    using 1(2) by (subst minBytes.simps) simp
  show ?case
  proof (cases "x div 256 = 0")
    case True
    then have "x < 256" by simp
    then have "unat (word_of_nat x :: byte) = x" by (simp add: unat_of_nat)
    then show ?thesis using e True 1(2) \<open>x < 256\<close> by auto
  next
    case False
    with 1 e show ?thesis by (simp add: hd_append)
  qed
qed

lemma unat_byte: "n < 256 \<Longrightarrow> unat (word_of_nat n :: byte) = n"
  by (simp add: unat_of_nat)

lemma minBytes_short:
  assumes "56 \<le> n" "n < maxLen"
  shows "0 < length (minBytes n)" "length (minBytes n) \<le> 8"
proof -
  have "n < 256 ^ 8" using assms(2) by (simp add: maxLen_def)
  then show "length (minBytes n) \<le> 8" by (rule length_minBytes)
  show "0 < length (minBytes n)" using assms(1) by simp
qed

lemma readSize_minBytes:
  assumes "56 \<le> n" "n < maxLen"
  shows "readSize (length (minBytes n)) (minBytes n @ r) = Inr n"
proof -
  have "minBytes n \<noteq> []" "hd (minBytes n) \<noteq> 0" using assms(1) minBytes_hd[of n] by auto
  with assms(1) show ?thesis by (simp add: readSize_def hd_append)
qed

lemma readKind_string:
  assumes "length v < maxLen" "kindOf v \<noteq> KByte"
  shows "readKind (rlpHeader 0x80 (length v) @ v @ r) = Inr (KString, length (rlpHeader 0x80 (length v)), length v)"
proof (cases "length v < 56")
  case True
  then have u: "unat (word_of_nat (0x80 + length v) :: byte) = 0x80 + length v" by (intro unat_byte) simp
  have "\<not> (length v = 1 \<and> v @ r \<noteq> [] \<and> hd (v @ r) < 0x80)"
    using assms(2) by (auto simp: kindOf_def length_Suc_conv)
  with True u show ?thesis by (auto simp: readKind_def rlpHeader_def Let_def)
next
  case False
  then have l: "56 \<le> length v" by simp
  note m = minBytes_short[OF l assms(1)]
  have u: "unat (word_of_nat (0x80 + 55 + length (minBytes (length v))) :: byte) = 0xb7 + length (minBytes (length v))"
    using m(2) by (subst unat_byte) simp_all
  show ?thesis using False m u readSize_minBytes[OF l assms(1), of "v @ r"]
    by (auto simp: readKind_def rlpHeader_def Let_def)
qed

lemma readKind_list:
  assumes "length c < maxLen"
  shows "readKind (rlpHeader 0xc0 (length c) @ c @ r) = Inr (KList, length (rlpHeader 0xc0 (length c)), length c)"
proof (cases "length c < 56")
  case True
  then have u: "unat (word_of_nat (0xc0 + length c) :: byte) = 0xc0 + length c" by (intro unat_byte) simp
  with True show ?thesis by (auto simp: readKind_def rlpHeader_def Let_def)
next
  case False
  then have l: "56 \<le> length c" by simp
  note m = minBytes_short[OF l assms(1)]
  have u: "unat (word_of_nat (0xc0 + 55 + length (minBytes (length c))) :: byte) = 0xf7 + length (minBytes (length c))"
    using m(2) by (subst unat_byte) simp_all
  show ?thesis using False m u readSize_minBytes[OF l assms, of "c @ r"]
    by (auto simp: readKind_def rlpHeader_def Let_def)
qed

lemma readKind_byte: "b < 0x80 \<Longrightarrow> readKind (b # r) = Inr (KByte, 0, 1)"
  by (simp add: readKind_def word_less_nat_alt)

lemma kindOf_byte: "kindOf v = KByte \<Longrightarrow> \<exists>b. v = [b] \<and> b < 0x80"
  by (auto simp: kindOf_def split: list.splits if_splits)

lemma kindOf_not_list: "kindOf v \<noteq> KList" "kindOf v \<noteq> KByte \<Longrightarrow> kindOf v = KString"
  by (auto simp: kindOf_def split: list.splits)

lemma readKind_written:
  assumes "length v < maxLen"
  obtains tag where "readKind (stdWriteBytes v @ r) = Inr (kindOf v, tag, length v)"
    "drop tag (stdWriteBytes v @ r) = v @ r"
proof (cases "kindOf v = KByte")
  case True
  with kindOf_byte[OF this] that[of 0] show thesis by (auto simp: stdWriteBytes_def readKind_byte)
next
  case False
  with readKind_string[OF assms False, of r] kindOf_not_list(2)[OF False]
    that[of "length (rlpHeader 0x80 (length v))"] show thesis
    by (simp add: stdWriteBytes_def)
qed

lemma length_rlpHeader: "n < maxLen \<Longrightarrow> 0 < length (rlpHeader b n) \<and> length (rlpHeader b n) \<le> 9"
  using minBytes_short[of n] by (auto simp: rlpHeader_def)

lemma stdSplit_written:
  assumes "length v < maxLen"
  shows "stdSplit (stdWriteBytes v @ r) = Inr (kindOf v, v, r)"
    "stdCountValues (stdWriteBytes v @ r) = map_sum id Suc (stdCountValues r)"
proof -
  obtain tag where t: "readKind (stdWriteBytes v @ r) = Inr (kindOf v, tag, length v)"
    "drop tag (stdWriteBytes v @ r) = v @ r" by (rule readKind_written[OF assms])
  have d: "drop (tag + length v) (stdWriteBytes v @ r) = r"
    using t(2) by (metis add.commute append_eq_conv_conj drop_drop)
  show "stdSplit (stdWriteBytes v @ r) = Inr (kindOf v, v, r)" unfolding stdSplit_def t(1)
    by (simp only: map_sum.simps split t(2) d) simp
  have "stdWriteBytes v @ r \<noteq> []" using readKind_positive(1)[OF t(1)] .
  then show "stdCountValues (stdWriteBytes v @ r) = map_sum id Suc (stdCountValues r)"
    using t(1) d by (subst stdCountValues.simps) auto
qed

lemma stdSplit_list:
  assumes "length c < maxLen"
  shows "stdSplit (stdListOf c @ r) = Inr (KList, c, r)"
    "stdCountValues (stdListOf c @ r) = map_sum id Suc (stdCountValues r)"
proof -
  note k = readKind_list[OF assms, of r]
  show "stdSplit (stdListOf c @ r) = Inr (KList, c, r)" using k by (simp add: stdSplit_def stdListOf_def)
  have "rlpHeader 0xc0 (length c) \<noteq> []" by (simp add: rlpHeader_def)
  then show "stdCountValues (stdListOf c @ r) = map_sum id Suc (stdCountValues r)"
    using k by (subst stdCountValues.simps) (simp add: stdListOf_def)
qed

interpretation stdRlp: rlp_codec stdRlp
proof
  fix v c r :: bytes
  show "EmptyString stdRlp = WriteBytes stdRlp []" by (simp add: stdRlp_def stdWriteBytes_def kindOf_def rlpHeader_def)
  show "CountValues stdRlp [] = Inr 0" by (simp add: stdRlp_def stdCountValues.simps)
  show "WriteBytes stdRlp v \<noteq> []" using kindOf_byte[of v] by (auto simp: stdRlp_def stdWriteBytes_def rlpHeader_def)
  show "length v < maxLen \<Longrightarrow> length v \<le> length (WriteBytes stdRlp v) \<and> length (WriteBytes stdRlp v) \<le> length v + 9"
    using length_rlpHeader[of "length v" "0x80"] by (simp add: stdRlp_def stdWriteBytes_def)
  show "length c < maxLen \<Longrightarrow> length c < length (ListOf stdRlp c) \<and> length (ListOf stdRlp c) \<le> length c + 9"
    using length_rlpHeader[of "length c" "0xc0"] by (simp add: stdRlp_def stdListOf_def)
qed (simp_all add: stdRlp_def stdSplit_written stdSplit_list stdSplitString_def stdSplitList_def kindOf_not_list)

end
