(* ===== verification/Trie_Node.thy ===== *)
theory Trie_Node
  imports Plain_Trie Rlp
begin

text \<open>
  The nodes of the Merkle Patricia trie, their encoding and decoding (\<^verbatim>\<open>src/trie/node.go\<close>,
  \<^verbatim>\<open>src/trie/node_enc.go\<close>). A nil \<^verbatim>\<open>Node\<close> is \<open>NilNode\<close>. \<open>encP\<close> is the encoding of a plain tree and
  \<open>decoded\<close> the node that decoding it gives: a subtree of 32 bytes or more is the hash of its
  encoding, a smaller one is embedded.
\<close>

record nodeFlag =
  nfHash :: "bytes option"
  nfDirty :: bool

datatype node =
    NilNode
  | FullNode "node list" nodeFlag
  | ShortNode bytes node nodeFlag
  | HashNode bytes
  | ValueNode bytes

fun nodeCache :: "node \<Rightarrow> bytes option \<times> bool" where
  "nodeCache (FullNode cs f) = (nfHash f, nfDirty f)"
| "nodeCache (ShortNode k c f) = (nfHash f, nfDirty f)"
| "nodeCache _ = (None, True)"

fun encode :: "rlp \<Rightarrow> node \<Rightarrow> bytes" where
  "encode R NilNode = EmptyString R"
| "encode R (FullNode cs f) = ListOf R (concat (map (encode R) cs))"
| "encode R (ShortNode k c f) = ListOf R (WriteBytes R k @ encode R c)"
| "encode R (HashNode h) = WriteBytes R h"
| "encode R (ValueNode v) = WriteBytes R v"

definition nodeToBytes :: "rlp \<Rightarrow> node \<Rightarrow> bytes go" where
  "nodeToBytes R n = (if n = NilNode then Inl (Panic ''invalid memory address or nil pointer dereference'')
                      else Inr (encode R n))"

section \<open>Decoding\<close>

text \<open>
  An error of the decoder: one that is not wrapped yet, one with the path to the child that is
  wrong, or a recursion that did not end within its fuel.
\<close>

datatype decodeError = Plain string | DecodeError string "string list" | Unfinished

definition wrapError :: "decodeError + 'a \<Rightarrow> string \<Rightarrow> decodeError + 'a" where
  "wrapError r ctx =
    (case r of Inr a \<Rightarrow> Inr a
     | Inl (Plain e) \<Rightarrow> Inl (DecodeError e [ctx])
     | Inl (DecodeError e stack) \<Rightarrow> Inl (DecodeError e (stack @ [ctx]))
     | Inl Unfinished \<Rightarrow> Inl Unfinished)"

fun joinPath :: "string list \<Rightarrow> string" where
  "joinPath [] = ''''"
| "joinPath [s] = s"
| "joinPath (s # t # ss) = s @ ''<-'' @ joinPath (t # ss)"

fun decodeErrorString :: "decodeError \<Rightarrow> string" where
  "decodeErrorString (Plain e) = e"
| "decodeErrorString (DecodeError e stack) = e @ '' (decode path: '' @ joinPath stack @ '')''"
| "decodeErrorString Unfinished = ''unfinished''"

fun decimal :: "nat \<Rightarrow> string" where
  "decimal n = (if n < 10 then [char_of (48 + n)] else decimal (n div 10) @ [char_of (48 + n mod 10)])"

declare decimal.simps [simp del]

type_synonym decoder = "bytes \<Rightarrow> decodeError + node"

definition hashLen :: nat where
  "hashLen = 32"

definition decodeRef :: "rlp \<Rightarrow> decoder \<Rightarrow> bytes \<Rightarrow> decodeError + (node \<times> bytes)" where
  "decodeRef R dn buf =
    (case Split R buf of
       Inl e \<Rightarrow> Inl (Plain e)
     | Inr (kind, val, rest) \<Rightarrow>
         if kind = KList then
           (if hashLen < length buf - length rest
            then Inl (Plain (''oversized embedded node (size is '' @ decimal (length buf - length rest) @
                             '' bytes, want size < '' @ decimal hashLen @ '')''))
            else (case dn buf of Inl e \<Rightarrow> Inl e | Inr n \<Rightarrow> Inr (n, rest)))
         else if kind = KString \<and> length val = 0 then Inr (NilNode, rest)
         else if kind = KString \<and> length val = 32 then Inr (HashNode val, rest)
         else Inl (Plain (''invalid RLP string size '' @ decimal (length val) @ '' (want 0 or 32)'')))"

definition decodeShort :: "rlp \<Rightarrow> decoder \<Rightarrow> bytes option \<Rightarrow> bytes \<Rightarrow> decodeError + node" where
  "decodeShort R dn hash elems =
    (case SplitString R elems of
       Inl e \<Rightarrow> Inl (Plain e)
     | Inr (kbuf, rest) \<Rightarrow>
         let flag = \<lparr>nfHash = hash, nfDirty = False\<rparr>; key = compactToHex kbuf
         in if hasTerm key
            then (case SplitString R rest of
                    Inl e \<Rightarrow> Inl (Plain (''invalid value node: '' @ e))
                  | Inr (val, _) \<Rightarrow> Inr (ShortNode key (ValueNode val) flag))
            else (case decodeRef R dn rest of
                    Inl e \<Rightarrow> wrapError (Inl e) ''val''
                  | Inr (r, _) \<Rightarrow> Inr (ShortNode key r flag)))"

text \<open>The loop over the children from index \<open>i\<close> on, \<open>n\<close> of them.\<close>

fun decodeChildren :: "rlp \<Rightarrow> decoder \<Rightarrow> nat \<Rightarrow> nat \<Rightarrow> bytes \<Rightarrow> decodeError + (node list \<times> bytes)" where
  "decodeChildren R dn i 0 elems = Inr ([], elems)"
| "decodeChildren R dn i (Suc n) elems =
    (case decodeRef R dn elems of
       Inl e \<Rightarrow> wrapError (Inl e) (''['' @ decimal i @ '']'')
     | Inr (cld, rest) \<Rightarrow>
         (case decodeChildren R dn (Suc i) n rest of
            Inl e \<Rightarrow> Inl e
          | Inr (cs, rest') \<Rightarrow> Inr (cld # cs, rest')))"

definition decodeFull :: "rlp \<Rightarrow> decoder \<Rightarrow> bytes option \<Rightarrow> bytes \<Rightarrow> decodeError + node" where
  "decodeFull R dn hash elems =
    (case decodeChildren R dn 0 16 elems of
       Inl e \<Rightarrow> Inl e
     | Inr (cs, rest) \<Rightarrow>
         (case SplitString R rest of
            Inl e \<Rightarrow> Inl (Plain e)
          | Inr (val, _) \<Rightarrow>
              Inr (FullNode (cs @ [if 0 < length val then ValueNode val else NilNode])
                \<lparr>nfHash = hash, nfDirty = False\<rparr>)))"

fun decodeNodeF :: "nat \<Rightarrow> rlp \<Rightarrow> bytes option \<Rightarrow> bytes \<Rightarrow> decodeError + node" where
  "decodeNodeF 0 R hash buf = Inl Unfinished"
| "decodeNodeF (Suc fuel) R hash buf =
    (if length buf = 0 then Inl (Plain ''unexpected EOF'')
     else case SplitList R buf of
       Inl e \<Rightarrow> Inl (Plain (''decode error: '' @ e))
     | Inr (elems, _) \<Rightarrow>
         let c = (case CountValues R elems of Inl e \<Rightarrow> 0 | Inr c \<Rightarrow> c)
         in if c = 2 then wrapError (decodeShort R (decodeNodeF fuel R None) hash elems) ''short''
            else if c = 17 then wrapError (decodeFull R (decodeNodeF fuel R None) hash elems) ''full''
            else Inl (Plain (''invalid number of list elements: '' @ decimal c)))"

text \<open>Embedded nodes are shorter than the node around them: the length is enough fuel.\<close>

definition decodeNode :: "rlp \<Rightarrow> bytes option \<Rightarrow> bytes \<Rightarrow> decodeError + node" where
  "decodeNode R hash buf = decodeNodeF (Suc (length buf)) R hash buf"

definition MustDecodeNode :: "rlp \<Rightarrow> bytes \<Rightarrow> bytes \<Rightarrow> node go" where
  "MustDecodeNode R hash buf =
    (case decodeNode R (Some hash) buf of
       Inr n \<Rightarrow> Inr n
     | Inl e \<Rightarrow> Inl (Panic (''node: '' @ decodeErrorString e)))"

section \<open>The encoding of a plain tree\<close>

fun isNode :: "pt \<Rightarrow> bool" where
  "isNode (PShort k c) = True"
| "isNode (PFull ts) = True"
| "isNode _ = False"

definition refOf :: "rlp \<Rightarrow> (bytes \<Rightarrow> bytes) \<Rightarrow> pt \<Rightarrow> bytes \<Rightarrow> bytes" where
  "refOf R H t e = (if isNode t \<and> 32 \<le> length e then WriteBytes R (H e) else e)"

fun encP :: "rlp \<Rightarrow> (bytes \<Rightarrow> bytes) \<Rightarrow> pt \<Rightarrow> bytes" where
  "encP R H PNil = EmptyString R"
| "encP R H (PVal v) = WriteBytes R v"
| "encP R H (PShort k c) = ListOf R (WriteBytes R (HexToCompact k) @ refOf R H c (encP R H c))"
| "encP R H (PFull ts) = ListOf R (concat (map (\<lambda>c. refOf R H c (encP R H c)) ts))"

abbreviation refP :: "rlp \<Rightarrow> (bytes \<Rightarrow> bytes) \<Rightarrow> pt \<Rightarrow> bytes" where
  "refP R H c \<equiv> refOf R H c (encP R H c)"

definition loaded :: "bytes option \<Rightarrow> nodeFlag" where
  "loaded h = \<lparr>nfHash = h, nfDirty = False\<rparr>"

fun decoded :: "rlp \<Rightarrow> (bytes \<Rightarrow> bytes) \<Rightarrow> bytes option \<Rightarrow> pt \<Rightarrow> node" where
  "decoded R H h PNil = NilNode"
| "decoded R H h (PVal v) = ValueNode v"
| "decoded R H h (PShort k c) =
    ShortNode k (if isNode c \<and> 32 \<le> length (encP R H c) then HashNode (H (encP R H c)) else decoded R H None c) (loaded h)"
| "decoded R H h (PFull ts) =
    FullNode (map (\<lambda>c. if isNode c \<and> 32 \<le> length (encP R H c) then HashNode (H (encP R H c)) else decoded R H None c) ts)
      (loaded h)"

definition decodedRef :: "rlp \<Rightarrow> (bytes \<Rightarrow> bytes) \<Rightarrow> pt \<Rightarrow> node" where
  "decodedRef R H c = (if isNode c \<and> 32 \<le> length (encP R H c) then HashNode (H (encP R H c)) else decoded R H None c)"

text \<open>Keys and values of a size that fits in memory.\<close>

fun fits :: "pt \<Rightarrow> bool" where
  "fits PNil = True"
| "fits (PVal v) = (length v < 2 ^ 32)"
| "fits (PShort k c) = (length k < 2 ^ 32 \<and> fits c)"
| "fits (PFull ts) = (length ts \<le> 17 \<and> (\<forall>t\<in>set ts. fits t))"

section \<open>Decoding reads what was encoded\<close>

lemma length_decodeNibbles: "decodeNibbles ns = Inr bs \<Longrightarrow> length bs \<le> length ns"
  by (induction ns arbitrary: bs rule: decodeNibbles.induct) (fastforce simp: go_bind_eq_Inr_iff)+

lemma length_flagged:
  assumes "go_bind (decodeNibbles ns) (\<lambda>bs. Inr (b # bs)) = Inr x" "length ns \<le> m"
  shows "length x \<le> m + 1"
  using assms length_decodeNibbles by (fastforce simp: go_bind_eq_Inr_iff)

lemma length_HexToCompact: "length (HexToCompact k) \<le> length k + 1"
proof -
  define hex where "hex = (if hasTerm k then take (length k - 1) k else k)"
  have l: "length hex \<le> length k" by (simp add: hex_def)
  have "hexToCompact k = Inr (HexToCompact k)" by (rule hexToCompact_total)
  then show ?thesis
    unfolding hexToCompact_def Let_def hex_def[symmetric]
    using l by (cases "length hex mod 2 = 1") (auto intro!: length_flagged[of _ _ _ "length k", simplified])
qed

lemma hexKey_compact: "hexKey k \<Longrightarrow> compactToHex (HexToCompact k) = k \<and> hasTerm k"
  by (auto simp: hexKey_def compactToHex_HexToCompact_nibbles)

lemma nibbles_compact: "nibbles k \<Longrightarrow> compactToHex (HexToCompact k) = k \<and> \<not> hasTerm k"
  by (simp add: compactToHex_HexToCompact_nibbles nibbles_not_hasTerm)

lemma decoded_refs:
  "decoded R H h (PShort k c) = ShortNode k (decodedRef R H c) (loaded h)"
  "decoded R H h (PFull ts) = FullNode (map (decodedRef R H) ts) (loaded h)"
  by (simp_all add: decodedRef_def)

lemma length_concat_le: "(\<And>x. x \<in> set xs \<Longrightarrow> length (f x) \<le> b) \<Longrightarrow> length (concat (map f xs)) \<le> length xs * b"
  by (induction xs) (auto intro: add_mono)

text \<open>What the hash promises of its results.\<close>

definition hash32 :: "(bytes \<Rightarrow> bytes) \<Rightarrow> bool" where
  "hash32 H \<longleftrightarrow> (\<forall>x. length (H x) = 32)"

lemma hash32_length: "hash32 H \<Longrightarrow> length (H x) = 32"
  by (simp add: hash32_def)

lemma hash32_not_empty: "hash32 H \<Longrightarrow> H x \<noteq> []"
  by (auto dest: hash32_length[of H x])

definition isItem :: "rlp \<Rightarrow> bytes \<Rightarrow> bool" where
  "isItem R i \<longleftrightarrow> (\<exists>v. length v < maxLen \<and> (i = WriteBytes R v \<or> i = ListOf R v))"

lemma isItemI: "length v < maxLen \<Longrightarrow> isItem R (WriteBytes R v)" "length v < maxLen \<Longrightarrow> isItem R (ListOf R v)"
  by (auto simp: isItem_def)

context rlp_codec
begin


lemma CountValues_items: "(\<And>i. i \<in> set is \<Longrightarrow> isItem R i) \<Longrightarrow> CountValues R (concat is) = Inr (length is)"
proof (induction "is")
  case (Cons i js)
  then have "CountValues R (concat js) = Inr (length js)" by simp
  with Cons.prems[of i] show ?case
    by (auto simp: isItem_def hash32_length CountValues_WriteBytes CountValues_ListOf)
qed (simp add: CountValues_Nil)

lemma encP_bounds:
  assumes "hash32 H" "fits t"
  shows "length (refP R H t) \<le> 2 ^ 32 + 9 \<and> length (encP R H t) < 2 ^ 38 \<and> isItem R (encP R H t)"
  using assms(2)
proof (induction t)
  case PNil
  have "length ([] :: bytes) < maxLen" by (simp add: maxLen_def)
  with length_WriteBytes[OF this] show ?case by (auto simp: refOf_def EmptyString intro: isItemI)
next
  case (PVal v)
  then have "length v < maxLen" by (simp add: maxLen_def)
  with length_WriteBytes[OF this] PVal show ?case by (auto simp: refOf_def intro: isItemI)
next
  case (PShort k c)
  have "length (HexToCompact k) < maxLen" using PShort.prems length_HexToCompact[of k] by (simp add: maxLen_def)
  from length_WriteBytes[OF this] PShort have l: "length (WriteBytes R (HexToCompact k) @ refP R H c) < 2 ^ 37"
    using length_HexToCompact[of k] by simp
  then have "length (WriteBytes R (HexToCompact k) @ refP R H c) < maxLen" by (simp add: maxLen_def)
  with length_ListOf[OF this] l length_WriteBytes[of "H (encP R H (PShort k c))"] hash32_length[OF assms(1)] isItemI(2)[OF this]
  show ?case by (auto simp: refOf_def maxLen_def)
next
  case (PFull ts)
  have "length (concat (map (refP R H) ts)) \<le> length ts * (2 ^ 32 + 9)"
    using PFull by (intro length_concat_le) auto
  also have "\<dots> \<le> 17 * (2 ^ 32 + 9)" using PFull.prems by (intro mult_right_mono) auto
  finally have l: "length (concat (map (refP R H) ts)) < 2 ^ 37" by simp
  then have "length (concat (map (refP R H) ts)) < maxLen" by (simp add: maxLen_def)
  with length_ListOf[OF this] l length_WriteBytes[of "H (encP R H (PFull ts))"] hash32_length[OF assms(1)] isItemI(2)[OF this]
  show ?case by (auto simp: refOf_def maxLen_def)
qed

lemma refP_item:
  assumes "hash32 H" "fits t"
  shows "isItem R (refP R H t)"
  using encP_bounds[OF assms] isItemI(1)[of "H (encP R H t)"] hash32_length[OF assms(1)]
  by (auto simp: refOf_def maxLen_def)

lemma content_bounds:
  assumes "hash32 H"
  shows "fits (PShort k c) \<Longrightarrow> length (WriteBytes R (HexToCompact k) @ refP R H c) < maxLen"
    "fits (PFull ts) \<Longrightarrow> length (concat (map (refP R H) ts)) < maxLen"
proof -
  assume f: "fits (PShort k c)"
  have k: "length (HexToCompact k) < 2 ^ 32 + 1" using f length_HexToCompact[of k] by simp
  then have "length (HexToCompact k) < maxLen" by (simp add: maxLen_def)
  from length_WriteBytes[OF this] show "length (WriteBytes R (HexToCompact k) @ refP R H c) < maxLen"
    using k encP_bounds[OF assms, of c] f by (simp add: maxLen_def)
next
  assume f: "fits (PFull ts)"
  have "length (concat (map (refP R H) ts)) \<le> length ts * (2 ^ 32 + 9)"
    using encP_bounds[OF assms] f by (intro length_concat_le) auto
  also have "\<dots> \<le> 17 * (2 ^ 32 + 9)" using f by (intro mult_right_mono) auto
  finally show "length (concat (map (refP R H) ts)) < maxLen" by (simp add: maxLen_def)
qed

lemma encP_node_ListOf:
  assumes "hash32 H" "fits t" "isNode t"
  obtains c where "encP R H t = ListOf R c" "length c < maxLen"
  using assms(2,3) content_bounds[OF assms(1)] by (cases t) auto

lemma decodeRef_refP:
  assumes "hash32 H" "fits c" "c = PNil \<or> isNode c"
    and dn: "isNode c \<Longrightarrow> length (encP R H c) < 32 \<Longrightarrow> dn (encP R H c @ r) = Inr (decoded R H None c)"
  shows "decodeRef R dn (refP R H c @ r) = Inr (decodedRef R H c, r)"
proof (cases "isNode c")
  case False
  with assms(3) have c: "c = PNil" by simp
  have "length ([] :: bytes) < maxLen" by (simp add: maxLen_def)
  from Split_WriteBytes[OF this, of r] c show ?thesis
    by (simp add: decodeRef_def refOf_def EmptyString decodedRef_def kindOf_def)
next
  case True
  show ?thesis
  proof (cases "32 \<le> length (encP R H c)")
    case big: True
    have l: "length (H (encP R H c)) < maxLen" using assms(1) by (simp add: hash32_length maxLen_def)
    have "kindOf (H (encP R H c)) = KString" using hash32_length[OF assms(1), of "encP R H c"] by (auto simp: kindOf_def split: list.splits)
    with Split_WriteBytes[OF l, of r] True big assms(1) show ?thesis
      by (simp add: decodeRef_def refOf_def decodedRef_def hash32_length hash32_not_empty)
  next
    case False
    obtain e where e: "encP R H c = ListOf R e" "length e < maxLen"
      using encP_node_ListOf[OF assms(1,2) True] by blast
    from Split_ListOf[OF e(2), of r] dn[OF True] False True e(1) show ?thesis
      by (simp add: decodeRef_def refOf_def decodedRef_def hashLen_def)
  qed
qed

lemma decodeChildren_refP:
  assumes "hash32 H"
    and "\<And>c. c \<in> set ts \<Longrightarrow> fits c \<and> (c = PNil \<or> isNode c) \<and>
      (isNode c \<longrightarrow> length (encP R H c) < 32 \<longrightarrow> (\<forall>r. dn (encP R H c @ r) = Inr (decoded R H None c)))"
  shows "decodeChildren R dn i (length ts) (concat (map (refP R H) ts) @ r) = Inr (map (decodedRef R H) ts, r)"
  using assms(2)
proof (induction ts arbitrary: i)
  case (Cons c ts)
  have "decodeRef R dn (refP R H c @ concat (map (refP R H) ts) @ r) = Inr (decodedRef R H c, concat (map (refP R H) ts) @ r)"
    using Cons.prems[of c] by (intro decodeRef_refP[OF assms(1)]) auto
  with Cons.IH[of "Suc i"] Cons.prems show ?case by simp
qed simp

end

section \<open>Whole nodes\<close>

lemma canon_isNode: "canon t \<Longrightarrow> t = PNil \<or> isNode t"
  by (cases t) auto

context rlp_codec
begin

lemma SplitString_slot16:
  assumes "fits t" "t = PNil \<or> (\<exists>v. v \<noteq> [] \<and> t = PVal v)"
  obtains v where "SplitString R (refP R H t) = Inr (v, [])"
    "(if 0 < length v then ValueNode v else NilNode) = decodedRef R H t"
proof (cases "t = PNil")
  case True
  have "length ([] :: bytes) < maxLen" by (simp add: maxLen_def)
  from SplitString_WriteBytes[OF this, of "[]"] True that[of "[]"] show thesis
    by (simp add: refOf_def EmptyString decodedRef_def)
next
  case False
  with assms(2) obtain v where v: "v \<noteq> []" "t = PVal v" by blast
  with assms(1) have "length v < maxLen" by (simp add: maxLen_def)
  from SplitString_WriteBytes[OF this, of "[]"] v that[of v] show thesis
    by (simp add: refOf_def decodedRef_def)
qed

lemma CountValues_two: "isItem R a \<Longrightarrow> isItem R b \<Longrightarrow> CountValues R (a @ b) = Inr 2"
  using CountValues_items[of "[a, b]"] by (auto simp: numeral_2_eq_2)

lemma embedded_shorter:
  assumes "hash32 H" "fits t"
  shows "t = PShort k c \<Longrightarrow> isNode c \<Longrightarrow> length (encP R H c) < 32 \<Longrightarrow> length (encP R H c) < length (encP R H t)"
    "t = PFull ts \<Longrightarrow> c \<in> set ts \<Longrightarrow> isNode c \<Longrightarrow> length (encP R H c) < 32 \<Longrightarrow>
      length (encP R H c) < length (encP R H t)"
proof -
  assume a: "t = PShort k c" "isNode c" "length (encP R H c) < 32"
  with length_ListOf[OF content_bounds(1)[OF assms(1), of k c]] assms(2)
  show "length (encP R H c) < length (encP R H t)" by (simp add: refOf_def)
next
  assume a: "t = PFull ts" "c \<in> set ts" "isNode c" "length (encP R H c) < 32"
  have "length (encP R H c) = length (refP R H c)" using a(4) by (simp add: refOf_def)
  also have "\<dots> \<le> length (concat (map (refP R H) ts))"
    using a(2) by (simp add: length_concat member_le_sum_list)
  also have "\<dots> < length (encP R H t)"
    using length_ListOf[OF content_bounds(2)[OF assms(1), of ts]] assms(2) a(1) by simp
  finally show "length (encP R H c) < length (encP R H t)" .
qed

lemma decodeNodeF_encP:
  assumes "hash32 H" "canon t" "t \<noteq> PNil" "fits t" "length (encP R H t) < f"
  shows "decodeNodeF f R h (encP R H t @ r) = Inr (decoded R H h t)"
  using assms(2-)
proof (induction arbitrary: f h r rule: canon.induct)
  case (canon_Leaf p v)
  obtain g where f: "f = Suc g" using canon_Leaf(5) by (cases f) auto
  let ?c = "WriteBytes R (HexToCompact p) @ refP R H (PVal v)"
  have c: "length ?c < maxLen" using content_bounds(1)[OF assms(1) canon_Leaf(4)] .
  have v: "length v < maxLen" "length (HexToCompact p) < maxLen"
    using canon_Leaf(4) length_HexToCompact[of p] by (auto simp: maxLen_def)
  have "CountValues R ?c = Inr 2"
    using v by (intro CountValues_two) (auto simp: refOf_def intro: isItemI)
  moreover have "decodeShort R dn h ?c = Inr (decoded R H h (PShort p (PVal v)))" for dn
    using SplitString_WriteBytes[OF v(2), of "WriteBytes R v"] SplitString_WriteBytes[OF v(1), of "[]"]
      hexKey_compact[OF canon_Leaf(1)]
    by (simp add: decodeShort_def refOf_def Let_def loaded_def)
  ultimately show ?case using SplitList_ListOf[OF c, of r] length_ListOf[OF c] f
    by (auto simp: wrapError_def)
next
  case (canon_Ext p ts)
  obtain g where f: "f = Suc g" using canon_Ext(7) by (cases f) auto
  let ?c = "WriteBytes R (HexToCompact p) @ refP R H (PFull ts)"
  have c: "length ?c < maxLen" using content_bounds(1)[OF assms(1) canon_Ext(6)] .
  have k: "length (HexToCompact p) < maxLen"
    using canon_Ext(6) length_HexToCompact[of p] by (auto simp: maxLen_def)
  have "CountValues R ?c = Inr 2"
    using k refP_item[OF assms(1), of "PFull ts"] canon_Ext(6) by (intro CountValues_two) (auto intro: isItemI)
  moreover have "decodeRef R (decodeNodeF g R None) (refP R H (PFull ts) @ []) = Inr (decodedRef R H (PFull ts), [])"
    using canon_Ext(4)[of g None "[]"] embedded_shorter(1)[OF assms(1) canon_Ext(6)] canon_Ext(6,7) f
    by (intro decodeRef_refP[OF assms(1)]) auto
  then have "decodeShort R (decodeNodeF g R None) h ?c = Inr (decoded R H h (PShort p (PFull ts)))"
    using SplitString_WriteBytes[OF k, of "refP R H (PFull ts)"] nibbles_compact[OF canon_Ext(1)]
    unfolding decoded_refs(1) by (simp add: decodeShort_def Let_def loaded_def)
  ultimately show ?case using SplitList_ListOf[OF c, of r] length_ListOf[OF c] f
    by (auto simp: wrapError_def simp del: decoded.simps)
next
  case (canon_Full ts)
  obtain g where f: "f = Suc g" using canon_Full(8) by (cases f) auto
  let ?c = "concat (map (refP R H) ts)"
  have c: "length ?c < maxLen" using content_bounds(2)[OF assms(1) canon_Full(7)] .
  have count: "CountValues R ?c = Inr 17"
    using CountValues_items[of "map (refP R H) ts"] refP_item[OF assms(1)] canon_Full(1,7) by auto
  have ts: "ts = take 16 ts @ [ts ! 16]"
    using canon_Full(1) take_Suc_conv_app_nth[of 16 ts] by simp
  obtain v where v: "SplitString R (refP R H (ts ! 16)) = Inr (v, [])"
    "(if 0 < length v then ValueNode v else NilNode) = decodedRef R H (ts ! 16)"
    using SplitString_slot16[of "ts ! 16" H] canon_Full(1,3,7) by auto
  have "decodeChildren R (decodeNodeF g R None) 0 (length (take 16 ts)) (concat (map (refP R H) (take 16 ts)) @ refP R H (ts ! 16))
    = Inr (map (decodedRef R H) (take 16 ts), refP R H (ts ! 16))"
  proof (rule decodeChildren_refP[OF assms(1)])
    fix x assume x: "x \<in> set (take 16 ts)"
    then obtain i where i: "i < 16" "x = ts ! i" by (auto simp: in_set_conv_nth)
    have xs: "x \<in> set ts" using x by (rule in_set_takeD)
    have "decodeNodeF g R None (encP R H x @ s) = Inr (decoded R H None x)"
      if "isNode x" "length (encP R H x) < 32" for s
      using canon_Full(5)[OF i(1), of g None s] embedded_shorter(2)[OF assms(1) canon_Full(7) refl xs that]
        that i(2) canon_Full(7,8) xs f by (cases "ts ! i = PNil") auto
    then show "fits x \<and> (x = PNil \<or> isNode x) \<and> (isNode x \<longrightarrow> length (encP R H x) < 32 \<longrightarrow>
        (\<forall>r. decodeNodeF g R None (encP R H x @ r) = Inr (decoded R H None x)))"
      using canon_isNode[OF canon_Full(2)[OF i(1)]] i canon_Full(7) xs by auto
  qed
  then have "decodeChildren R (decodeNodeF g R None) 0 16 ?c = Inr (map (decodedRef R H) (take 16 ts), refP R H (ts ! 16))"
    using canon_Full(1) by (subst ts) simp
  then have "decodeFull R (decodeNodeF g R None) h ?c = Inr (decoded R H h (PFull ts))"
    using v unfolding decoded_refs(2) by (subst (2) ts) (simp add: decodeFull_def loaded_def)
  then show ?case using SplitList_ListOf[OF c, of r] length_ListOf[OF c] f count
    by (auto simp: wrapError_def simp del: decoded.simps)
qed simp

lemma decodeNode_encP:
  assumes "hash32 H" "canon t" "t \<noteq> PNil" "fits t"
  shows "decodeNode R h (encP R H t) = Inr (decoded R H h t)"
  using decodeNodeF_encP[OF assms, of "Suc (length (encP R H t))" h "[]"] by (simp add: decodeNode_def)

end

end
