(* ===== verification/Trie_Core.thy ===== *)
theory Trie_Core
  imports Trie_Node
begin

text \<open>
  The operations of the trie (\<^verbatim>\<open>src/trie/trie.go\<close>): lookups, insertion and deletion on nodes that may be
  loaded from the database on the way. The database is the function that \<^verbatim>\<open>Database.node\<close>
  computes: \<open>Inr NilNode\<close> is a node that is not there. A missing node ends an operation with an error
  (the key prefix is only part of the message). The recursion passes through the
  database, so it runs on fuel; \<open>trieFuel\<close> is shown to be enough for every well-formed trie.
\<close>

type_synonym nodeReader = "bytes \<Rightarrow> node go"

record Trie =
  trRoot :: node
  trUnhashed :: int

definition newFlag :: nodeFlag where
  "newFlag = \<lparr>nfHash = None, nfDirty = True\<rparr>"

definition atIndex :: "'a list \<Rightarrow> nat \<Rightarrow> 'a go" where
  "atIndex xs i = (if i < length xs then Inr (xs ! i) else Inl (Panic ''index out of range''))"

definition setChild :: "node list \<Rightarrow> byte \<Rightarrow> node \<Rightarrow> node list go" where
  "setChild cs x n = (if unat x < length cs then Inr (cs[unat x := n]) else Inl (Panic ''index out of range''))"

definition BytesToHash :: "bytes \<Rightarrow> bytes" where
  "BytesToHash b = (if 32 < length b then drop (length b - 32) b else replicate (32 - length b) 0 @ b)"

definition resolveHash :: "nodeReader \<Rightarrow> bytes \<Rightarrow> node go" where
  "resolveHash db h =
    go_bind (db (BytesToHash h)) (\<lambda>n. if n \<noteq> NilNode then Inr n else Inl (Err ''missing trie node''))"

definition resolve :: "nodeReader \<Rightarrow> node \<Rightarrow> node go" where
  "resolve db n = (case n of HashNode h \<Rightarrow> resolveHash db h | _ \<Rightarrow> Inr n)"

fun tryGet :: "nat \<Rightarrow> nodeReader \<Rightarrow> node \<Rightarrow> bytes \<Rightarrow> nat \<Rightarrow> (bytes option \<times> node \<times> bool) go" where
  "tryGet 0 db n key pos = Inl (Blocked ''fuel'')"
| "tryGet (Suc fuel) db n key pos =
    (case n of
       NilNode \<Rightarrow> Inr (None, NilNode, False)
     | ValueNode v \<Rightarrow> Inr (Some v, n, False)
     | ShortNode k c flags \<Rightarrow>
         if length key < pos + length k \<or> k \<noteq> take (length k) (drop pos key) then Inr (None, n, False)
         else go_bind (tryGet fuel db c key (pos + length k)) (\<lambda>(value, newnode, didResolve).
                Inr (value, if didResolve then ShortNode k newnode flags else n, didResolve))
     | FullNode cs flags \<Rightarrow>
         go_bind (atIndex key pos) (\<lambda>x. go_bind (atIndex cs (unat x)) (\<lambda>c.
         go_bind (tryGet fuel db c key (pos + 1)) (\<lambda>(value, newnode, didResolve).
           Inr (value, if didResolve then FullNode (cs[unat x := newnode]) flags else n, didResolve))))
     | HashNode h \<Rightarrow>
         go_bind (resolveHash db h) (\<lambda>child.
         go_bind (tryGet fuel db child key pos) (\<lambda>(value, newnode, _). Inr (value, newnode, True))))"

fun insertN :: "nat \<Rightarrow> nodeReader \<Rightarrow> node \<Rightarrow> bytes \<Rightarrow> node \<Rightarrow> (bool \<times> node) go" where
  "insertN 0 db n key value = Inl (Blocked ''fuel'')"
| "insertN (Suc fuel) db n key value =
    (if length key = 0 then
       (case n of
          ValueNode v \<Rightarrow> (case value of ValueNode w \<Rightarrow> Inr (v \<noteq> w, value)
                        | _ \<Rightarrow> Inl (Panic ''interface conversion: trie.Node is not trie.ValueNode''))
        | _ \<Rightarrow> Inr (True, value))
     else case n of
       ShortNode k c flags \<Rightarrow>
         let matchlen = prefixLen key k
         in if matchlen = length k
            then go_bind (insertN fuel db c (drop matchlen key) value) (\<lambda>(dirty, nn).
                   if \<not> dirty then Inr (False, n) else Inr (True, ShortNode k nn newFlag))
            else
              go_bind (atIndex k matchlen) (\<lambda>x.
              go_bind (insertN fuel db NilNode (drop (matchlen + 1) k) c) (\<lambda>(_, a).
              go_bind (setChild (replicate 17 NilNode) x a) (\<lambda>cs1.
              go_bind (atIndex key matchlen) (\<lambda>y.
              go_bind (insertN fuel db NilNode (drop (matchlen + 1) key) value) (\<lambda>(_, b).
              go_bind (setChild cs1 y b) (\<lambda>cs2.
                let branch = FullNode cs2 newFlag
                in if matchlen = 0 then Inr (True, branch)
                   else Inr (True, ShortNode (take matchlen key) branch newFlag)))))))
     | FullNode cs flags \<Rightarrow>
         go_bind (atIndex cs (unat (hd key))) (\<lambda>c.
         go_bind (insertN fuel db c (tl key) value) (\<lambda>(dirty, nn).
           if \<not> dirty then Inr (False, n) else Inr (True, FullNode (cs[unat (hd key) := nn]) newFlag)))
     | NilNode \<Rightarrow> Inr (True, ShortNode key value newFlag)
     | HashNode h \<Rightarrow>
         go_bind (resolveHash db h) (\<lambda>rn.
         go_bind (insertN fuel db rn key value) (\<lambda>(dirty, nn).
           if \<not> dirty then Inr (False, rn) else Inr (True, nn)))
     | ValueNode v \<Rightarrow> Inl (Panic ''invalid Node''))"

text \<open>
  The loop that looks for the single child that is left: its index, \<open>-1\<close> if there is none, \<open>-2\<close> if there
  are several.
\<close>

fun leftOver :: "nat \<Rightarrow> node list \<Rightarrow> int \<Rightarrow> int" where
  "leftOver i [] pos = pos"
| "leftOver i (cld # cs) pos =
    (if cld \<noteq> NilNode then (if pos = -1 then leftOver (i + 1) cs (int i) else -2) else leftOver (i + 1) cs pos)"

definition reduceFull :: "nodeReader \<Rightarrow> node list \<Rightarrow> (bool \<times> node) go" where
  "reduceFull db cs =
    (let pos = leftOver 0 cs (-1)
     in if 0 \<le> pos then
          (let single = Inr (True, ShortNode [word_of_int pos] (cs ! nat pos) newFlag)
           in if pos \<noteq> 16
              then go_bind (resolve db (cs ! nat pos)) (\<lambda>cnode.
                     case cnode of ShortNode k c _ \<Rightarrow> Inr (True, ShortNode (word_of_int pos # k) c newFlag)
                     | _ \<Rightarrow> single)
              else single)
        else Inr (True, FullNode cs newFlag))"

fun deleteN :: "nat \<Rightarrow> nodeReader \<Rightarrow> node \<Rightarrow> bytes \<Rightarrow> (bool \<times> node) go" where
  "deleteN 0 db n key = Inl (Blocked ''fuel'')"
| "deleteN (Suc fuel) db n key =
    (case n of
       ShortNode k c flags \<Rightarrow>
         let matchlen = prefixLen key k
         in if matchlen < length k then Inr (False, n)
            else if matchlen = length key then Inr (True, NilNode)
            else go_bind (deleteN fuel db c (drop (length k) key)) (\<lambda>(dirty, child).
                   if \<not> dirty then Inr (False, n)
                   else case child of
                          ShortNode k' c' _ \<Rightarrow> Inr (True, ShortNode (k @ k') c' newFlag)
                        | _ \<Rightarrow> Inr (True, ShortNode k child newFlag))
     | FullNode cs flags \<Rightarrow>
         go_bind (atIndex key 0) (\<lambda>x. go_bind (atIndex cs (unat x)) (\<lambda>c.
         go_bind (deleteN fuel db c (drop 1 key)) (\<lambda>(dirty, nn).
           if \<not> dirty then Inr (False, n)
           else if nn \<noteq> NilNode then Inr (True, FullNode (cs[unat x := nn]) newFlag)
           else reduceFull db (cs[unat x := nn]))))
     | ValueNode v \<Rightarrow> Inr (True, NilNode)
     | NilNode \<Rightarrow> Inr (False, NilNode)
     | HashNode h \<Rightarrow>
         go_bind (resolveHash db h) (\<lambda>rn.
         go_bind (deleteN fuel db rn key) (\<lambda>(dirty, nn).
           if \<not> dirty then Inr (False, rn) else Inr (True, nn))))"

section \<open>The operations of the trie\<close>

definition trieFuel :: "bytes \<Rightarrow> nat" where
  "trieFuel hexkey = 2 * length hexkey + 2"

definition emptyTrie :: Trie where
  "emptyTrie = \<lparr>trRoot = NilNode, trUnhashed = 0\<rparr>"

definition emptyRoot :: bytes where
  "emptyRoot = [0x56, 0xe8, 0x1f, 0x17, 0x1b, 0xcc, 0x55, 0xa6, 0xff, 0x83, 0x45, 0xe6, 0x92, 0xc0, 0xf8, 0x6e,
                0x5b, 0x48, 0xe0, 0x1b, 0x99, 0x6c, 0xad, 0xc0, 0x01, 0x62, 0x2f, 0xb5, 0xe3, 0x63, 0xb4, 0x21]"

definition NewTrie :: "nodeReader \<Rightarrow> bytes \<Rightarrow> Trie go" where
  "NewTrie db root =
    (if root \<noteq> replicate 32 0 \<and> root \<noteq> emptyRoot
     then go_bind (resolveHash db root) (\<lambda>rootnode. Inr (emptyTrie\<lparr>trRoot := rootnode\<rparr>))
     else Inr emptyTrie)"

definition TryGet :: "nodeReader \<Rightarrow> bytes \<Rightarrow> Trie \<Rightarrow> bytes option go \<times> Trie" where
  "TryGet db key t =
    (let k = keybytesToHex key
     in case tryGet (trieFuel k) db (trRoot t) k 0 of
          Inl e \<Rightarrow> (Inl e, t)
        | Inr (value, newroot, didResolve) \<Rightarrow> (Inr value, if didResolve then t\<lparr>trRoot := newroot\<rparr> else t))"

text \<open>\<^verbatim>\<open>log.Error\<close> of go-ethereum does not end the process: \<^verbatim>\<open>Get\<close> returns nil then.\<close>

definition Get :: "nodeReader \<Rightarrow> bytes \<Rightarrow> Trie \<Rightarrow> bytes option go \<times> Trie" where
  "Get db key t =
    (case TryGet db key t of (Inl (Err e), t') \<Rightarrow> (Inr None, t') | r \<Rightarrow> r)"

definition storeRoot :: "Trie \<Rightarrow> (bool \<times> node) go \<Rightarrow> unit go \<times> Trie" where
  "storeRoot t r = (case r of Inl e \<Rightarrow> (Inl e, t) | Inr (_, n) \<Rightarrow> (Inr (), t\<lparr>trRoot := n\<rparr>))"

definition TryDelete :: "nodeReader \<Rightarrow> bytes \<Rightarrow> Trie \<Rightarrow> unit go \<times> Trie" where
  "TryDelete db key t =
    (let t1 = t\<lparr>trUnhashed := trUnhashed t + 1\<rparr>; k = keybytesToHex key
     in storeRoot t1 (deleteN (trieFuel k) db (trRoot t1) k))"

definition TryUpdate :: "nodeReader \<Rightarrow> bytes \<Rightarrow> bytes \<Rightarrow> Trie \<Rightarrow> unit go \<times> Trie" where
  "TryUpdate db key value t =
    (let t1 = t\<lparr>trUnhashed := trUnhashed t + 1\<rparr>; k = keybytesToHex key
     in storeRoot t1 (if length value \<noteq> 0 then insertN (trieFuel k) db (trRoot t1) k (ValueNode value)
                      else deleteN (trieFuel k) db (trRoot t1) k))"

definition logged :: "unit go \<times> Trie \<Rightarrow> unit go \<times> Trie" where
  "logged r = (case r of (Inl (Err e), t) \<Rightarrow> (Inr (), t) | r \<Rightarrow> r)"

definition Update :: "nodeReader \<Rightarrow> bytes \<Rightarrow> bytes \<Rightarrow> Trie \<Rightarrow> unit go \<times> Trie" where
  "Update db key value t = logged (TryUpdate db key value t)"

definition Delete :: "nodeReader \<Rightarrow> bytes \<Rightarrow> Trie \<Rightarrow> unit go \<times> Trie" where
  "Delete db key t = logged (TryDelete db key t)"

definition ResetTrie :: "Trie \<Rightarrow> Trie" where
  "ResetTrie t = t\<lparr>trRoot := NilNode, trUnhashed := 0\<rparr>"

text \<open>
  The encoding of the node at a path: an error \<open>e\<close> of the database comes with the node and the number
  of nodes read, so the result holds it as a value.
\<close>

type_synonym blobReader = "bytes \<Rightarrow> bytes go"

definition nodeHash :: "node \<Rightarrow> bytes option" where
  "nodeHash n = (case n of HashNode h \<Rightarrow> Some h | _ \<Rightarrow> fst (nodeCache n))"

definition relink :: "(node \<Rightarrow> node) \<Rightarrow> node \<Rightarrow> bytes option go \<times> node \<times> int \<Rightarrow> bytes option go \<times> node \<times> int" where
  "relink link n r = (case r of (item, newnode, resolved) \<Rightarrow>
     (item, if (case item of Inl e \<Rightarrow> False | Inr i \<Rightarrow> True) \<and> 0 < resolved then link newnode else n, resolved))"

fun tryGetNode :: "nat \<Rightarrow> nodeReader \<Rightarrow> blobReader \<Rightarrow> node \<Rightarrow> bytes \<Rightarrow> nat \<Rightarrow> bytes option go \<times> node \<times> int" where
  "tryGetNode 0 db blobs n path pos = (Inl (Blocked ''fuel''), n, 0)"
| "tryGetNode (Suc fuel) db blobs n path pos =
    (if n = NilNode then (Inr None, NilNode, 0)
     else if length path \<le> pos then
       (case nodeHash n of None \<Rightarrow> (Inl (Err ''non-consensus Node''), n, 0)
        | Some h \<Rightarrow> (go_bind (blobs (BytesToHash h)) (\<lambda>b. Inr (Some b)), n, 1))
     else case n of
       ValueNode v \<Rightarrow> (Inr None, NilNode, 0)
     | ShortNode k c flags \<Rightarrow>
         if length path < pos + length k \<or> k \<noteq> take (length k) (drop pos path) then (Inr None, n, 0)
         else relink (\<lambda>c'. ShortNode k c' flags) n (tryGetNode fuel db blobs c path (pos + length k))
     | FullNode cs flags \<Rightarrow>
         (case atIndex cs (unat (path ! pos)) of
            Inl e \<Rightarrow> (Inl e, n, 0)
          | Inr c \<Rightarrow> relink (\<lambda>c'. FullNode (cs[unat (path ! pos) := c']) flags) n
                     (tryGetNode fuel db blobs c path (pos + 1)))
     | HashNode h \<Rightarrow>
         (case resolveHash db h of
            Inl e \<Rightarrow> (Inl e, n, 1)
          | Inr child \<Rightarrow> (case tryGetNode fuel db blobs child path pos of
                          (item, newnode, resolved) \<Rightarrow> (item, newnode, resolved + 1)))
     | NilNode \<Rightarrow> (Inr None, NilNode, 0))"

definition TryGetNode :: "nodeReader \<Rightarrow> blobReader \<Rightarrow> bytes \<Rightarrow> Trie \<Rightarrow> (bytes option \<times> int) go \<times> Trie" where
  "TryGetNode db blobs path t =
    (let k = compactToHex path
     in case tryGetNode (trieFuel k) db blobs (trRoot t) k 0 of
          (Inl e, newroot, resolved) \<Rightarrow> (Inl e, t)
        | (Inr item, newroot, resolved) \<Rightarrow>
            (Inr (item, resolved), if 0 < resolved then t\<lparr>trRoot := newroot\<rparr> else t))"

definition TryUpdateAccount :: "('acc \<Rightarrow> bytes go) \<Rightarrow> nodeReader \<Rightarrow> bytes \<Rightarrow> 'acc \<Rightarrow> Trie \<Rightarrow> unit go \<times> Trie" where
  "TryUpdateAccount encodeToBytes db key acc t =
    (case encodeToBytes acc of Inl e \<Rightarrow> (Inl e, t) | Inr data \<Rightarrow> TryUpdate db key data t)"

section \<open>Nodes and plain trees\<close>

text \<open>
  A node represents a plain tree: a cached hash is the hash of the encoding, and a hash node stands for
  the tree that the database holds for it. The root (\<open>r\<close>) is hashed even if its encoding is short.
\<close>

definition flagOk :: "rlp \<Rightarrow> (bytes \<Rightarrow> bytes) \<Rightarrow> bool \<Rightarrow> nodeFlag \<Rightarrow> pt \<Rightarrow> bool" where
  "flagOk R H r f t \<longleftrightarrow>
    (\<forall>h. nfHash f = Some h \<longrightarrow> h = H (encP R H t) \<and> (r \<or> 32 \<le> length (encP R H t)))"

fun isHash :: "node \<Rightarrow> bool" where
  "isHash (HashNode h) = True"
| "isHash _ = False"

inductive absN :: "rlp \<Rightarrow> (bytes \<Rightarrow> bytes) \<Rightarrow> nodeReader \<Rightarrow> bool \<Rightarrow> node \<Rightarrow> pt \<Rightarrow> bool" for R H db where
  abs_Nil: "absN R H db r NilNode PNil"
| abs_Val: "absN R H db r (ValueNode v) (PVal v)"
| abs_Short: "flagOk R H r f (PShort k t) \<Longrightarrow> absN R H db False c t \<Longrightarrow> absN R H db r (ShortNode k c f) (PShort k t)"
| abs_Full: "flagOk R H r f (PFull ts) \<Longrightarrow> list_all2 (absN R H db False) cs ts \<Longrightarrow> absN R H db r (FullNode cs f) (PFull ts)"
| abs_Hash: "isNode t \<Longrightarrow> r \<or> 32 \<le> length (encP R H t) \<Longrightarrow> db (H (encP R H t)) = Inr n \<Longrightarrow>
    absN R H db True n t \<Longrightarrow> \<not> isHash n \<Longrightarrow> absN R H db r (HashNode (H (encP R H t))) t"
monos list.rel_mono

inductive_simps absN_simps [simp]:
  "absN R H db r NilNode t" "absN R H db r (ValueNode v) t" "absN R H db r (ShortNode k c f) t"
  "absN R H db r (FullNode cs f) t"

inductive_simps absN_Hash: "absN R H db r (HashNode h) t"

lemma absN_Nil_iff: "absN R H db r n t \<Longrightarrow> n = NilNode \<longleftrightarrow> t = PNil"
  by (cases rule: absN.cases) auto

lemma flagOk_newFlag [simp]: "flagOk R H r newFlag t"
  by (simp add: flagOk_def newFlag_def)

lemma flagOk_root: "flagOk R H False f t \<Longrightarrow> flagOk R H True f t"
  by (simp add: flagOk_def)

text \<open>The root position asks for less; a node whose encoding is long may stand anywhere.\<close>

lemma absN_root: "absN R H db False n t \<Longrightarrow> absN R H db r n t"
  by (cases n) (auto simp: absN_Hash flagOk_def)

lemma absN_child:
  assumes "absN R H db True n t" "r \<or> 32 \<le> length (encP R H t)"
  shows "absN R H db r n t"
  using assms by (cases n) (auto simp: absN_Hash flagOk_def)

lemma BytesToHash_32: "length b = 32 \<Longrightarrow> BytesToHash b = b"
  by (simp add: BytesToHash_def)

lemma absN_HashE:
  assumes "absN R H db r (HashNode h) t" "hash32 H"
  obtains n where "resolveHash db h = Inr n" "absN R H db r n t" "\<not> isHash n" "isNode t"
proof -
  from assms(1) obtain n where n: "isNode t" "r \<or> 32 \<le> length (encP R H t)" "db (H (encP R H t)) = Inr n"
    "absN R H db True n t" "\<not> isHash n" "h = H (encP R H t)" by (auto simp: absN_Hash)
  have "n \<noteq> NilNode" using n(1) absN_Nil_iff[OF n(4)] by auto
  with n assms(2) have "resolveHash db h = Inr n" by (simp add: resolveHash_def BytesToHash_32 hash32_length)
  with n absN_child[OF n(4,2)] that show thesis by blast
qed

section \<open>Lookup\<close>

lemma take_prefix: "prefix p k \<longleftrightarrow> length p \<le> length k \<and> p = take (length p) k"
  by (metis prefix_length_le append_eq_conv_conj prefix_def take_is_prefix)

lemma drop_ConsD: "drop i xs = x # ys \<Longrightarrow> i < length xs \<and> xs ! i = x \<and> drop (Suc i) xs = ys"
  by (metis Cons_nth_drop_Suc drop_eq_Nil list.distinct(1) list.inject not_le)

text \<open>A hash node is loaded first, at the price of one step.\<close>

lemma tryGet_loaded:
  assumes "hash32 H" "absN R H db r n t" "m + (if isHash n then 2 else 1) \<le> fuel"
    and direct: "\<And>n fuel. absN R H db r n t \<Longrightarrow> \<not> isHash n \<Longrightarrow> m + 1 \<le> fuel \<Longrightarrow>
      \<exists>n' d. tryGet fuel db n key pos = Inr (v, n', d) \<and> absN R H db r n' t"
  shows "\<exists>n' d. tryGet fuel db n key pos = Inr (v, n', d) \<and> absN R H db r n' t"
proof (cases "isHash n")
  case True
  then obtain h where h: "n = HashNode h" by (cases n) auto
  obtain k where k: "resolveHash db h = Inr k" "absN R H db r k t" "\<not> isHash k"
    using absN_HashE[OF assms(2)[unfolded h] assms(1)] by blast
  obtain g where g: "fuel = Suc g" "m + 1 \<le> g" using assms(3) True by (cases fuel) auto
  from direct[OF k(2,3) g(2)] k(1) h g(1) show ?thesis by auto
next
  case False
  then show ?thesis using direct[OF assms(2)] assms(3) by simp
qed

text \<open>
  A lookup below position \<open>pos\<close> gives the value of the plain tree, and the node it hands back
  represents the same tree.
\<close>

lemma tryGet_refines:
  assumes "hash32 H" "canonAt k t" "drop pos key = k" "pos \<le> length key" "absN R H db r n t"
    "2 * length k + (if isHash n then 2 else 1) \<le> fuel"
  shows "\<exists>n' d. tryGet fuel db n key pos = Inr (pget t k, n', d) \<and> absN R H db r n' t"
  using assms(2-)
proof (induction t k arbitrary: pos r n fuel rule: pget.induct)
  case (1 k)
  then show ?case by (cases fuel; cases n) (auto simp: absN_Hash)
next
  case (2 v k)
  then show ?case by (cases fuel; cases n) (auto simp: absN_Hash)
next
  case (3 p t k)
  have k: "k \<noteq> []" "hexKey k" "canon (PShort p t)" using 3(2) by (auto simp: canonAt_def split: if_splits)
  have direct: "\<exists>n' d. tryGet fuel db n key pos = Inr (pget (PShort p t) k, n', d) \<and> absN R H db r n' (PShort p t)"
    if n: "absN R H db r n (PShort p t)" "\<not> isHash n" "2 * length k + 1 \<le> fuel" for n fuel
  proof -
    obtain c f where c: "n = ShortNode p c f" "flagOk R H r f (PShort p t)" "absN R H db False c t"
      using n(1,2) by (cases n) auto
    obtain g where g: "fuel = Suc g" using n(3) by (cases fuel) auto
    have m: "prefix p k \<longleftrightarrow> \<not> (length key < pos + length p \<or> p \<noteq> take (length p) (drop pos key))"
      using 3(3,4) by (auto simp: take_prefix)
    show ?thesis
    proof (cases "prefix p k")
      case False
      with m c g n(1) show ?thesis by auto
    next
      case True
      have p: "p \<noteq> []" using k(3) by (auto elim: canon_Short_cases)
      have l: "pos + length p \<le> length key" "drop (pos + length p) key = drop (length p) k"
        "Suc (length (drop (length p) k)) \<le> length k"
        using 3(3,4) p[folded length_greater_0_conv] prefix_length_le[OF True]
        by (auto simp: add.commute simp del: length_greater_0_conv)
      have "\<exists>n' d. tryGet g db c key (pos + length p) = Inr (pget t (drop (length p) k), n', d) \<and> absN R H db False n' t"
        using 3(1)[OF True canonAt_short[OF k(3,2) True], of "pos + length p" False c g] c(3) l n(3) g
        by (auto split: if_splits)
      with True m c g show ?thesis by auto
    qed
  qed
  show ?case by (rule tryGet_loaded[OF assms(1) 3(5,6) direct])
next
  case (4 ts)
  then show ?case by (auto simp: canonAt_def)
next
  case (5 ts x k)
  have k: "hexKey (x # k)" "canon (PFull ts)" using 5(2) by (auto simp: canonAt_def)
  note child = canonAt_child[OF k(2,1)]
  have at: "atIndex key pos = Inr x" "drop (Suc pos) key = k" "Suc pos \<le> length key"
    using drop_ConsD[OF 5(3)] by (auto simp: atIndex_def)
  have direct: "\<exists>n' d. tryGet fuel db n key pos = Inr (pget (PFull ts) (x # k), n', d) \<and> absN R H db r n' (PFull ts)"
    if n: "absN R H db r n (PFull ts)" "\<not> isHash n" "2 * length (x # k) + 1 \<le> fuel" for n fuel
  proof -
    obtain cs f where c: "n = FullNode cs f" "flagOk R H r f (PFull ts)" "list_all2 (absN R H db False) cs ts"
      using n(1,2) by (cases n) auto
    obtain g where g: "fuel = Suc g" using n(3) by (cases fuel) auto
    have x: "unat x < length cs" "absN R H db False (cs ! unat x) (ts ! unat x)"
      using c(3) child(2) by (auto simp: list_all2_conv_all_nth)
    have "2 * length k + (if isHash (cs ! unat x) then 2 else 1) \<le> g" using n(3) g by simp
    from 5(1)[OF child(2,1) at(2,3) x(2) this]
    obtain n' d where n': "tryGet g db (cs ! unat x) key (Suc pos) = Inr (pget (ts ! unat x) k, n', d)"
      "absN R H db False n' (ts ! unat x)" by auto
    have "list_all2 (absN R H db False) (cs[unat x := n']) ts"
      using list_all2_update_cong[OF c(3) n'(2), of "unat x"] by simp
    with n' c g x at(1) child(2) show ?thesis by (auto simp: atIndex_def)
  qed
  show ?case by (rule tryGet_loaded[OF assms(1) 5(5,6) direct])
qed

section \<open>Insertion and deletion on nodes\<close>

lemma insertN_loaded:
  assumes "hash32 H" "absN R H db r n t" "m + (if isHash n then 2 else 1) \<le> fuel" "key \<noteq> []" "\<not> d \<longrightarrow> t' = t"
    and direct: "\<And>n fuel. absN R H db r n t \<Longrightarrow> \<not> isHash n \<Longrightarrow> m + 1 \<le> fuel \<Longrightarrow>
      \<exists>n'. insertN fuel db n key v = Inr (d, n') \<and> absN R H db r n' t'"
  shows "\<exists>n'. insertN fuel db n key v = Inr (d, n') \<and> absN R H db r n' t'"
proof (cases "isHash n")
  case True
  then obtain h where h: "n = HashNode h" by (cases n) auto
  obtain k where k: "resolveHash db h = Inr k" "absN R H db r k t" "\<not> isHash k"
    using absN_HashE[OF assms(2)[unfolded h] assms(1)] by blast
  obtain g where g: "fuel = Suc g" "m + 1 \<le> g" using assms(3) True by (cases fuel) auto
  from direct[OF k(2,3) g(2)] k h g(1) assms(4,5) show ?thesis by auto
next
  case False
  then show ?thesis using direct[OF assms(2)] assms(3) by simp
qed

lemma insertN_nil:
  "insertN (Suc g) db NilNode q c = Inr (True, if q = [] then c else ShortNode q c newFlag)"
  by simp

lemma insertN_split:
  assumes "absN R H db False c t" "canon (PShort p t)" "hexKey k" "prefixLen k p \<noteq> length p" "0 < g"
  shows "\<exists>n'. insertN (Suc g) db (ShortNode p c f) k (ValueNode v) = Inr (True, n') \<and>
    absN R H db r n' (psplit p t k (PVal v))"
proof -
  note l = key_not_inside[OF assms(2-4)]
  obtain q a p' b k' where s: "p = q @ a # p'" "k = q @ b # k'" "a \<noteq> b" "length q = prefixLen k p"
    using prefixLen_split[OF l] by metis
  note cut = canon_cut[OF assms(2)[unfolded s(1)]]
  have ab: "unat a < 17" "unat b < 17" using cut(3) hexKey_index[of b k'] cut(5)[of "b # k'"] assms(3) s(2) by auto
  obtain g' where g: "g = Suc g'" using assms(5) by (cases g) auto
  let ?cs = "(replicate 17 NilNode)[unat a := (if p' = [] then c else ShortNode p' c newFlag),
    unat b := (if k' = [] then ValueNode v else ShortNode k' (ValueNode v) newFlag)]"
  have cs: "list_all2 (absN R H db False) ?cs (emptyBranch[unat a := pnew p' t, unat b := pnew k' (PVal v)])"
  proof (intro list_all2_update_cong)
    show "list_all2 (absN R H db False) (replicate 17 NilNode) emptyBranch"
      by (simp add: emptyBranch_def list_all2_conv_all_nth abs_Nil)
  qed (use assms(1) in \<open>simp_all add: pnew_def\<close>)
  have "insertN (Suc g) db (ShortNode p c f) k (ValueNode v) =
    Inr (True, if q = [] then FullNode ?cs newFlag else ShortNode q (FullNode ?cs newFlag) newFlag)"
  proof -
    have nil: "insertN g db NilNode q c = Inr (True, if q = [] then c else ShortNode q c newFlag)" for q c
      using g by (simp add: insertN_nil)
    have m: "prefixLen k p = length q" "k \<noteq> []" "length q \<noteq> length p" using s assms(4) by auto
    have at: "atIndex p (length q) = Inr a" "atIndex k (length q) = Inr b" "take (length q) k = q"
      "drop (Suc (length q)) p = p'" "drop (Suc (length q)) k = k'" using s(1,2) by (simp_all add: atIndex_def)
    have set: "setChild (replicate 17 NilNode) a y = Inr ((replicate 17 NilNode)[unat a := y])"
      "setChild ((replicate 17 NilNode)[unat a := y]) b z = Inr ((replicate 17 NilNode)[unat a := y, unat b := z])" for y z
      using ab by (simp_all add: setChild_def)
    show ?thesis using m by (simp add: nil at set Let_def)
  qed
  moreover have "psplit p t k (PVal v) = pnew q (PFull (emptyBranch[unat a := pnew p' t, unat b := pnew k' (PVal v)]))"
    using psplit_eq[OF s(3)] s(1,2) by simp
  ultimately show ?thesis using cs by (simp add: pnew_def)
qed

lemma insertN_refines:
  assumes "hash32 H" "canonAt k t" "v \<noteq> []" "absN R H db r n t" "2 * length k + (if isHash n then 2 else 1) \<le> fuel"
    "pins t k v = (d, t')"
  shows "\<exists>n'. insertN fuel db n k (ValueNode v) = Inr (d, n') \<and> absN R H db r n' t'"
  using assms(2-)
proof (induction t k v arbitrary: r n fuel d t' rule: pins.induct)
  case (1 t v)
  then obtain g where "fuel = Suc g" by (cases fuel) (auto split: if_splits)
  with 1 show ?case by (cases n) (auto simp: canonAt_def absN_Hash)
next
  case (2 p c x k v)
  have k: "hexKey (x # k)" "canon (PShort p c)" using 2(2) by (auto simp: canonAt_def)
  have same: "\<not> d \<longrightarrow> t' = PShort p c" using pins_spec[OF 2(2,3,6)] by blast
  show ?case
  proof (rule insertN_loaded[OF assms(1) 2(4,5) _ same])
    fix n fuel assume n: "absN R H db r n (PShort p c)" "\<not> isHash n" "2 * length (x # k) + 1 \<le> fuel"
    obtain cn f where c: "n = ShortNode p cn f" "absN R H db False cn c" using n(1,2) by (cases n) auto
    obtain g where g: "fuel = Suc g" "2 * length (x # k) \<le> g" using n(3) by (cases fuel) auto
    show "\<exists>n'. insertN fuel db n (x # k) (ValueNode v) = Inr (d, n') \<and> absN R H db r n' t'"
    proof (cases "prefixLen (x # k) p = length p")
      case False
      with 2(6) have t': "d" "t' = psplit p c (x # k) (PVal v)" by simp_all
      show ?thesis using insertN_split[OF c(2) k(2,1) False, of g f v r] g c(1) t' by simp
    next
      case True
      then have pre: "prefix p (x # k)" by (simp add: prefixLen_full_iff)
      have p: "p \<noteq> []" using k(2) by (auto elim: canon_Short_cases)
      let ?r = "drop (length p) (x # k)"
      obtain d1 c1 where c1: "pins c ?r v = (d1, c1)" by force
      have "2 * length ?r + (if isHash cn then 2 else 1) \<le> g" using g(2) p by (cases p) auto
      from 2(1)[OF True canonAt_short[OF k(2,1) pre] 2(3) c(2) this c1] obtain n' where
        n': "insertN g db cn ?r (ValueNode v) = Inr (d1, n')" "absN R H db False n' c1" by blast
      show ?thesis using n' c1 2(6) True g(1) c n(1) by (cases d1) auto
    qed
  qed simp
next
  case (3 ts x k v)
  have k: "hexKey (x # k)" "canon (PFull ts)" using 3(2) by (auto simp: canonAt_def)
  note child = canonAt_child[OF k(2,1)]
  have same: "\<not> d \<longrightarrow> t' = PFull ts" using pins_spec[OF 3(2,3,6)] by blast
  show ?case
  proof (rule insertN_loaded[OF assms(1) 3(4,5) _ same])
    fix n fuel assume n: "absN R H db r n (PFull ts)" "\<not> isHash n" "2 * length (x # k) + 1 \<le> fuel"
    obtain cs f where c: "n = FullNode cs f" "list_all2 (absN R H db False) cs ts" using n(1,2) by (cases n) auto
    obtain g where g: "fuel = Suc g" "2 * length (x # k) \<le> g" using n(3) by (cases fuel) auto
    have x: "unat x < length cs" "absN R H db False (cs ! unat x) (ts ! unat x)"
      using c(2) child(2) by (auto simp: list_all2_conv_all_nth)
    obtain d1 c1 where c1: "pins (ts ! unat x) k v = (d1, c1)" by force
    have "2 * length k + (if isHash (cs ! unat x) then 2 else 1) \<le> g" using g(2) by simp
    from 3(1)[OF child(2,1) 3(3) x(2) this c1] obtain n' where
      n': "insertN g db (cs ! unat x) k (ValueNode v) = Inr (d1, n')" "absN R H db False n' c1" by blast
    have "list_all2 (absN R H db False) (cs[unat x := n']) (ts[unat x := c1])"
      using c(2) n'(2) by (rule list_all2_update_cong)
    with n' c1 3(6) g(1) c n(1) x(1) child(2)
    show "\<exists>n'. insertN fuel db n (x # k) (ValueNode v) = Inr (d, n') \<and> absN R H db r n' t'"
      by (cases d1) (auto simp: atIndex_def)
  qed simp
next
  case (4 x k v)
  then have n: "n = NilNode" using absN_Nil_iff by blast
  obtain g where "fuel = Suc g" using 4(4) by (cases fuel) auto
  with 4 n show ?case by auto
next
  case (5 u x k v)
  then show ?case by (auto simp: canonAt_def)
qed

lemma leftOver_spec:
  "leftOver i cs pos =
    (case filter (\<lambda>j. cs ! j \<noteq> NilNode) [0..<length cs] of
       [] \<Rightarrow> pos
     | [j] \<Rightarrow> if pos = -1 then int (i + j) else -2
     | _ \<Rightarrow> -2)" if "pos = -1 \<or> 0 \<le> pos"
  using that
proof (induction i cs pos rule: leftOver.induct)
  case (1 i pos)
  then show ?case by simp
next
  case (2 i cld cs pos)
  have f: "filter (\<lambda>j. (cld # cs) ! j \<noteq> NilNode) [0..<length (cld # cs)] =
    (if cld \<noteq> NilNode then [0] else []) @ map Suc (filter (\<lambda>j. cs ! j \<noteq> NilNode) [0..<length cs])"
    by (simp add: upt_conv_Cons map_Suc_upt[symmetric] filter_map o_def del: upt_Suc)
  show ?case
  proof (cases "cld = NilNode")
    case True
    then show ?thesis using 2(2,3) unfolding f
      by (cases "filter (\<lambda>j. cs ! j \<noteq> NilNode) [0..<length cs]")
        (auto split: list.splits)
  next
    case False
    then show ?thesis using 2(1,3) unfolding f
      by (cases "filter (\<lambda>j. cs ! j \<noteq> NilNode) [0..<length cs]")
        (auto split: list.splits)
  qed
qed

lemma occupied_abs:
  assumes "list_all2 (absN R H db False) cs ts"
  shows "filter (\<lambda>j. cs ! j \<noteq> NilNode) [0..<length cs] = occupied ts"
  unfolding occupied_def using assms absN_Nil_iff
  by (intro filter_cong) (auto simp: list_all2_conv_all_nth)

lemma reduceFull_refines:
  assumes "hash32 H" "list_all2 (absN R H db False) cs ts" "length ts = 17" "occupied ts \<noteq> []"
    "\<And>i. i < 17 \<Longrightarrow> slotOk i (ts ! i)"
  shows "\<exists>n'. reduceFull db cs = Inr (True, n') \<and> absN R H db r n' (preduce ts)"
proof (cases "2 \<le> length (occupied ts)")
  case True
  then have "preduce ts = PFull ts" by (auto simp: preduce_def split: list.splits)
  moreover have "leftOver 0 cs (-1) = -2"
    using True unfolding leftOver_spec[OF disjI1[OF refl]] occupied_abs[OF assms(2)]
    by (auto split: list.splits)
  ultimately show ?thesis using assms(2) by (simp add: reduceFull_def)
next
  case False
  then obtain pos where occ: "occupied ts = [pos]" using assms(4) by (cases "occupied ts") (auto simp: Suc_le_eq)
  have l: "leftOver 0 cs (-1) = int pos"
    unfolding leftOver_spec[OF disjI1[OF refl]] occupied_abs[OF assms(2)] occ by simp
  have pos: "pos < 17" "ts ! pos \<noteq> PNil" using set_occupied[of ts] assms(3) occ by auto
  have c: "absN R H db False (cs ! pos) (ts ! pos)" using assms(2,3) pos by (auto simp: list_all2_conv_all_nth)
  show ?thesis
  proof (cases "pos = 16")
    case True
    with assms(5)[of 16] pos obtain v where v: "ts ! 16 = PVal v" by (auto simp: slotOk_def)
    then have "preduce ts = PShort [16] (PVal v)" using occ True by (simp add: preduce_def)
    with c l v True show ?thesis by (simp add: reduceFull_def)
  next
    case p16: False
    have "canon (ts ! pos)" using assms(5)[OF pos(1)] p16 by (simp add: slotOk_def)
    then have node: "isNode (ts ! pos)" using canon_isNode pos(2) by blast
    obtain m where m: "resolve db (cs ! pos) = Inr m" "absN R H db False m (ts ! pos)" "\<not> isHash m"
    proof (cases "cs ! pos")
      case (HashNode h)
      with c that absN_HashE[OF c[unfolded HashNode] assms(1)] show thesis by (auto simp: resolve_def)
    qed (use c that in \<open>auto simp: resolve_def\<close>)
    show ?thesis
    proof (cases "ts ! pos")
      case (PShort k t)
      then have "preduce ts = PShort (word_of_nat pos # k) t" using occ p16 by (simp add: preduce_def)
      moreover obtain d f where "m = ShortNode k d f" "absN R H db False d t" using m(2,3) PShort by (cases m) auto
      ultimately show ?thesis using l m(1) p16 by (simp add: reduceFull_def)
    next
      case (PFull us)
      then have "preduce ts = PShort [word_of_nat pos] (ts ! pos)" using occ by (simp add: preduce_def)
      moreover obtain ds f where "m = FullNode ds f" using m(2,3) PFull by (cases m) auto
      ultimately show ?thesis using l m(1) p16 c by (simp add: reduceFull_def)
    qed (use node in auto)
  qed
qed

lemma deleteN_loaded:
  assumes "hash32 H" "absN R H db r n t" "m + (if isHash n then 2 else 1) \<le> fuel" "\<not> d \<longrightarrow> t' = t"
    and direct: "\<And>n fuel. absN R H db r n t \<Longrightarrow> \<not> isHash n \<Longrightarrow> m + 1 \<le> fuel \<Longrightarrow>
      \<exists>n'. deleteN fuel db n key = Inr (d, n') \<and> absN R H db r n' t' \<and> (d \<longrightarrow> \<not> isHash n')"
  shows "\<exists>n'. deleteN fuel db n key = Inr (d, n') \<and> absN R H db r n' t' \<and> (d \<longrightarrow> \<not> isHash n')"
proof (cases "isHash n")
  case True
  then obtain h where h: "n = HashNode h" by (cases n) auto
  obtain k where k: "resolveHash db h = Inr k" "absN R H db r k t" "\<not> isHash k"
    using absN_HashE[OF assms(2)[unfolded h] assms(1)] by blast
  obtain g where g: "fuel = Suc g" "m + 1 \<le> g" using assms(3) True by (cases fuel) auto
  from direct[OF k(2,3) g(2)] k h g(1) assms(4) show ?thesis by auto
next
  case False
  then show ?thesis using direct[OF assms(2)] assms(3) by simp
qed

text \<open>What is left below a short node after a deletion that changed it.\<close>

lemma absN_merge:
  assumes "absN R H db False n c" "(\<exists>q e. c = PShort q e) \<or> (\<exists>us. c = PFull us)" "\<not> isHash n"
  shows "\<exists>n'. (case n of ShortNode k' c' _ \<Rightarrow> Inr (True, ShortNode (p @ k') c' newFlag) | _ \<Rightarrow> Inr (True, ShortNode p n newFlag)) =
      (Inr (True, n') :: (bool \<times> node) go) \<and>
    absN R H db r n' (case c of PShort q d \<Rightarrow> PShort (p @ q) d | _ \<Rightarrow> PShort p c)"
  using assms by (cases n) auto

lemma reduceFull_not_hash: "reduceFull db cs = Inr (d, n) \<Longrightarrow> \<not> isHash n"
  unfolding reduceFull_def Let_def go_bind_eq_Inr_iff
  apply (auto simp: go_bind_eq_Inr_iff split: if_splits)
  subgoal for a by (cases a) auto
  done

lemma deleteN_full:
  assumes "hash32 H" "canon (PFull ts)" "hexKey (x # k)" "list_all2 (absN R H db False) cs ts"
    "pdel (ts ! unat x) k = (d1, c1)" "deleteN g db (cs ! unat x) k = Inr (d1, n1)" "absN R H db False n1 c1"
    "pdel (PFull ts) (x # k) = (d, t')" "absN R H db r (FullNode cs f) (PFull ts)"
  shows "\<exists>n'. deleteN (Suc g) db (FullNode cs f) (x # k) = Inr (d, n') \<and> absN R H db r n' t' \<and> (d \<longrightarrow> \<not> isHash n')"
proof -
  note child = canonAt_child[OF assms(2,3)]
  have len: "length ts = 17" "length cs = 17" using assms(2,4) by (auto simp: canon_Full_iff list_all2_lengthD)
  have x: "unat x < 17" using child(2) len by simp
  have upd: "list_all2 (absN R H db False) (cs[unat x := n1]) (ts[unat x := c1])"
    using assms(4,7) by (rule list_all2_update_cong)
  show ?thesis
  proof (cases "\<not> d1 \<or> c1 \<noteq> PNil")
    case True
    then show ?thesis using assms(5,6,8,9) upd x len absN_Nil_iff[OF assms(7)]
      by (auto simp: atIndex_def)
  next
    case False
    then have t': "d" "t' = preduce (ts[unat x := PNil])" "n1 = NilNode" "c1 = PNil"
      using assms(5,8) x len absN_Nil_iff[OF assms(7)] by auto
    have two: "2 \<le> length (occupied ts)" and slots: "\<And>i. i < 17 \<Longrightarrow> slotOk i (ts ! i)"
      using assms(2) by (auto simp: canon_Full_iff)
    obtain i j where ij: "i \<noteq> j" "i < length ts" "j < length ts" "ts ! i \<noteq> PNil" "ts ! j \<noteq> PNil"
      using occupied_two[OF two] by blast
    then have "i \<in> set (occupied (ts[unat x := PNil])) \<or> j \<in> set (occupied (ts[unat x := PNil]))"
      by (cases "unat x = i") auto
    then have occ: "occupied (ts[unat x := PNil]) \<noteq> []" by (auto simp del: set_occupied)
    have "slotOk i (ts[unat x := PNil] ! i)" if "i < 17" for i
      using slots[OF that] that len by (cases "unat x = i") (auto simp: slotOk_def canon_Nil)
    from reduceFull_refines[OF assms(1) upd[unfolded t'(3,4)] _ occ this] len obtain n' where
      n': "reduceFull db (cs[unat x := NilNode]) = Inr (True, n')" "absN R H db r n' (preduce (ts[unat x := PNil]))"
      by auto
    moreover have "\<not> isHash n'" using n'(1) by (rule reduceFull_not_hash)
    ultimately show ?thesis using False assms(6) t' x len by (simp add: atIndex_def)
  qed
qed

lemma deleteN_refines:
  assumes "hash32 H" "canonAt k t" "absN R H db r n t" "2 * length k + (if isHash n then 2 else 1) \<le> fuel"
    "pdel t k = (d, t')"
  shows "\<exists>n'. deleteN fuel db n k = Inr (d, n') \<and> absN R H db r n' t' \<and> (d \<longrightarrow> \<not> isHash n')"
  using assms(2-)
proof (induction t k arbitrary: r n fuel d t' rule: pdel.induct)
  case (1 k)
  then obtain g where "fuel = Suc g" by (cases fuel) (auto split: if_splits)
  with 1 absN_Nil_iff[OF 1(2)] show ?case by auto
next
  case (2 v k)
  then obtain g where "fuel = Suc g" by (cases fuel) (auto split: if_splits)
  with 2 show ?case by (cases n) (auto simp: absN_Hash)
next
  case (3 p c k)
  have k: "hexKey k" "canon (PShort p c)" using 3(2) by (auto simp: canonAt_def split: if_splits)
  have same: "\<not> d \<longrightarrow> t' = PShort p c" using pdel_spec[OF 3(2,5)] by blast
  show ?case
  proof (rule deleteN_loaded[OF assms(1) 3(3,4) same])
    fix n fuel assume n: "absN R H db r n (PShort p c)" "\<not> isHash n" "2 * length k + 1 \<le> fuel"
    obtain cn f where c: "n = ShortNode p cn f" "absN R H db False cn c" using n(1,2) by (cases n) auto
    obtain g where g: "fuel = Suc g" "2 * length k \<le> g" using n(3) by (cases fuel) auto
    show "\<exists>n'. deleteN fuel db n k = Inr (d, n') \<and> absN R H db r n' t' \<and> (d \<longrightarrow> \<not> isHash n')"
    proof (cases "prefixLen k p < length p \<or> prefixLen k p = length k")
      case True
      with 3(5) c g n(1) show ?thesis by (auto split: if_splits)
    next
      case False
      then have pre: "prefix p k" using prefixLen_full_iff[of k p] prefixLen_le(2)[of k p] by simp
      have p: "0 < length p" using k(2) by (auto elim: canon_Short_cases)
      let ?r = "drop (length p) k"
      obtain d1 c1 where c1: "pdel c ?r = (d1, c1)" by force
      have r: "canonAt ?r c" using canonAt_short[OF k(2,1) pre] .
      have "length ?r < length k" using p prefix_length_le[OF pre] by (auto simp del: length_greater_0_conv)
      then have "2 * length ?r + (if isHash cn then 2 else 1) \<le> g" using g(2) by (cases "isHash cn"; simp only: if_True if_False; linarith)
      from 3(1)[OF _ _ r c(2) this c1] False obtain n1 where
        n1: "deleteN g db cn ?r = Inr (d1, n1)" "absN R H db False n1 c1" "d1 \<longrightarrow> \<not> isHash n1" by blast
      show ?thesis
      proof (cases d1)
        case d: False
        with n1 c1 3(5) False g(1) c n(1) show ?thesis by auto
      next
        case True
        have "?r \<noteq> []" using False pre prefixLen_full_iff[of k p] prefix_length_le[OF pre] by auto
        then obtain y s ts where ys: "?r = y # s" "hexKey (y # s)" "c = PFull ts" "canon (PFull ts)"
          using k(2) r by (cases ?r) (auto simp: canonAt_def elim!: canon_Short_cases)
        then have shape: "(\<exists>q e. c1 = PShort q e) \<or> (\<exists>us. c1 = PFull us)" using pdel_Full_shape c1 by metis
        obtain n' where n': "(case n1 of ShortNode k' c' _ \<Rightarrow> Inr (True, ShortNode (p @ k') c' newFlag)
            | _ \<Rightarrow> Inr (True, ShortNode p n1 newFlag)) = (Inr (True, n') :: (bool \<times> node) go)"
          "absN R H db r n' (case c1 of PShort q d \<Rightarrow> PShort (p @ q) d | _ \<Rightarrow> PShort p c1)"
          using absN_merge[OF n1(2) shape, of p r] n1(3) True by blast
        have "d" "t' = (case c1 of PShort q d \<Rightarrow> PShort (p @ q) d | _ \<Rightarrow> PShort p c1)"
          using 3(5) False c1 True by (auto split: pt.splits)
        moreover have "\<not> isHash n'" using n'(1) by (auto split: node.splits)
        ultimately show ?thesis using n' n1(1) True False g(1) c(1) by (simp add: Let_def)
      qed
    qed
  qed
next
  case (4 ts)
  then show ?case by (auto simp: canonAt_def)
next
  case (5 ts x k)
  have k: "hexKey (x # k)" "canon (PFull ts)" using 5(2) by (auto simp: canonAt_def)
  note child = canonAt_child[OF k(2,1)]
  have same: "\<not> d \<longrightarrow> t' = PFull ts" using pdel_spec[OF 5(2,5)] by blast
  show ?case
  proof (rule deleteN_loaded[OF assms(1) 5(3,4) same])
    fix n fuel assume n: "absN R H db r n (PFull ts)" "\<not> isHash n" "2 * length (x # k) + 1 \<le> fuel"
    obtain cs f where c: "n = FullNode cs f" "list_all2 (absN R H db False) cs ts" using n(1,2) by (cases n) auto
    obtain g where g: "fuel = Suc g" "2 * length (x # k) \<le> g" using n(3) by (cases fuel) auto
    have x: "absN R H db False (cs ! unat x) (ts ! unat x)"
      using c(2) child(2) by (auto simp: list_all2_conv_all_nth)
    obtain d1 c1 where c1: "pdel (ts ! unat x) k = (d1, c1)" by force
    have "2 * length k + (if isHash (cs ! unat x) then 2 else 1) \<le> g" using g(2) by simp
    from 5(1)[OF child(2,1) x this c1] obtain n1 where
      n1: "deleteN g db (cs ! unat x) k = Inr (d1, n1)" "absN R H db False n1 c1" by blast
    from deleteN_full[OF assms(1) k(2,1) c(2) c1 n1 5(5) n(1)[unfolded c(1)]] c(1) g(1)
    show "\<exists>n'. deleteN fuel db n (x # k) = Inr (d, n') \<and> absN R H db r n' t' \<and> (d \<longrightarrow> \<not> isHash n')" by simp
  qed
qed

section \<open>The trie is a store\<close>

definition trieRep :: "rlp \<Rightarrow> (bytes \<Rightarrow> bytes) \<Rightarrow> nodeReader \<Rightarrow> Trie \<Rightarrow> pt \<Rightarrow> bool" where
  "trieRep R H db tr t \<longleftrightarrow> absN R H db True (trRoot tr) t \<and> byteTree t"

lemma trieRep_canonAt: "trieRep R H db tr t \<Longrightarrow> canonAt (keybytesToHex key) t"
  by (simp add: trieRep_def byteTree_def canonAt_def)

lemma trieFuel_enough: "2 * length k + (if isHash n then 2 else 1) \<le> trieFuel k"
  by (simp add: trieFuel_def)

lemma trieRep_empty [simp]: "trieRep R H db emptyTrie PNil"
  by (simp add: trieRep_def emptyTrie_def)

lemma TryGet_refines:
  assumes "hash32 H" "trieRep R H db tr t"
  shows "\<exists>tr'. TryGet db key tr = (Inr (plook t key), tr') \<and> trieRep R H db tr' t"
proof -
  obtain n d where "tryGet (trieFuel (keybytesToHex key)) db (trRoot tr) (keybytesToHex key) 0 = Inr (plook t key, n, d)"
    "absN R H db True n t"
    using tryGet_refines[OF assms(1) trieRep_canonAt[OF assms(2)] _ _ _ trieFuel_enough, of 0 "keybytesToHex key" key R db True]
      assms(2) by (fastforce simp: plook_def trieRep_def)
  with assms(2) show ?thesis by (simp add: TryGet_def trieRep_def)
qed

lemma TryDelete_refines:
  assumes "hash32 H" "trieRep R H db tr t"
  shows "\<exists>tr'. TryDelete db key tr = (Inr (), tr') \<and> trieRep R H db tr' (pupd key [] t)"
proof -
  obtain d t' where t': "pdel t (keybytesToHex key) = (d, t')" by force
  have "absN R H db True (trRoot tr) t" "byteTree t" using assms(2) by (simp_all add: trieRep_def)
  with deleteN_refines[OF assms(1) trieRep_canonAt[OF assms(2)] _ trieFuel_enough t'] t' ptrie.ok_upd[of t key "[]"]
  show ?thesis by (fastforce simp: TryDelete_def storeRoot_def trieRep_def pupd_def Let_def)
qed

lemma TryUpdate_refines:
  assumes "hash32 H" "trieRep R H db tr t"
  shows "\<exists>tr'. TryUpdate db key v tr = (Inr (), tr') \<and> trieRep R H db tr' (pupd key v t)"
proof (cases "v = []")
  case True
  then have "TryUpdate db key v tr = TryDelete db key tr" by (simp add: TryUpdate_def TryDelete_def)
  with TryDelete_refines[OF assms] True show ?thesis by simp
next
  case False
  obtain d t' where t': "pins t (keybytesToHex key) v = (d, t')" by force
  have "absN R H db True (trRoot tr) t" "byteTree t" using assms(2) by (simp_all add: trieRep_def)
  with insertN_refines[OF assms(1) trieRep_canonAt[OF assms(2)] False _ trieFuel_enough t'] t' False
    ptrie.ok_upd[of t key v]
  show ?thesis by (fastforce simp: TryUpdate_def storeRoot_def trieRep_def pupd_def Let_def)
qed

end
