(* ===== verification/Trie_Hash.thy ===== *)
theory Trie_Hash
  imports Trie_Core
begin

text \<open>
  Hashing of the trie (\<^verbatim>\<open>src/trie/hasher.go\<close>, \<^verbatim>\<open>Trie.Hash\<close>). \<open>H\<close> is Keccak-256. The 16 goroutines
  of a parallel run write to children of their own, so the result is that of the
  sequential loop. The root hash is shown to be a function of the contents of the trie alone.
\<close>

definition hashData :: "(bytes \<Rightarrow> bytes) \<Rightarrow> bytes \<Rightarrow> node" where
  "hashData H data = HashNode (H data)"

text \<open>\<^verbatim>\<open>shortnodeToHash\<close> and \<^verbatim>\<open>fullnodeToHash\<close> have the same body.\<close>

definition shortnodeToHash :: "rlp \<Rightarrow> (bytes \<Rightarrow> bytes) \<Rightarrow> node \<Rightarrow> bool \<Rightarrow> node" where
  "shortnodeToHash R H n force =
    (let enc = encode R n in if length enc < 32 \<and> \<not> force then n else hashData H enc)"

definition fullnodeToHash :: "rlp \<Rightarrow> (bytes \<Rightarrow> bytes) \<Rightarrow> node \<Rightarrow> bool \<Rightarrow> node" where
  "fullnodeToHash R H n force =
    (let enc = encode R n in if length enc < 32 \<and> \<not> force then n else hashData H enc)"

text \<open>
  The collapsed and the cached copy of a node, given those of its children. Hashing leaves a nil, value
  or hash node as it is, which is what the type switch over the child of a short node does.
\<close>

definition hashShortNodeChildren :: "node \<times> node \<Rightarrow> bytes \<Rightarrow> nodeFlag \<Rightarrow> node \<times> node" where
  "hashShortNodeChildren val key flags =
    (ShortNode (HexToCompact key) (fst val) flags, ShortNode key (snd val) flags)"

definition hashFullNodeChildren :: "(node \<times> node) list \<Rightarrow> node list \<Rightarrow> nodeFlag \<Rightarrow> node \<times> node" where
  "hashFullNodeChildren hashed rest flags =
    (FullNode (map fst hashed @ rest) flags, FullNode (map snd hashed @ rest) flags)"

definition setHash :: "node \<Rightarrow> node \<Rightarrow> node" where
  "setHash cached hashed =
    (let h = (case hashed of HashNode h \<Rightarrow> Some h | _ \<Rightarrow> None)
     in case cached of
          ShortNode k c f \<Rightarrow> ShortNode k c (f\<lparr>nfHash := h\<rparr>)
        | FullNode cs f \<Rightarrow> FullNode cs (f\<lparr>nfHash := h\<rparr>)
        | n \<Rightarrow> n)"

lemma size_taken [termination_simp]: "x \<in> set (take n cs) \<Longrightarrow> size x < Suc (size_list size (cs :: node list))"
  using size_list_estimation'[OF in_set_takeD order_refl, of x n cs size] by simp

fun hashN :: "rlp \<Rightarrow> (bytes \<Rightarrow> bytes) \<Rightarrow> node \<Rightarrow> bool \<Rightarrow> node \<times> node" where
  "hashN R H (ShortNode k c f) force =
    (case nfHash f of
       Some h \<Rightarrow> (HashNode h, ShortNode k c f)
     | None \<Rightarrow>
         let (collapsed, cached) = hashShortNodeChildren (hashN R H c False) k f;
             hashed = shortnodeToHash R H collapsed force
         in (hashed, setHash cached hashed))"
| "hashN R H (FullNode cs f) force =
    (case nfHash f of
       Some h \<Rightarrow> (HashNode h, FullNode cs f)
     | None \<Rightarrow>
         let (collapsed, cached) = hashFullNodeChildren
               (map (\<lambda>c. if c = NilNode then (ValueNode [], NilNode) else hashN R H c False) (take 16 cs)) (drop 16 cs) f;
             hashed = fullnodeToHash R H collapsed force
         in (hashed, setHash cached hashed))"
| "hashN R H n force = (n, n)"

definition proofHash :: "rlp \<Rightarrow> (bytes \<Rightarrow> bytes) \<Rightarrow> node \<Rightarrow> node \<times> node" where
  "proofHash R H original =
    (case original of
       ShortNode k c f \<Rightarrow>
         let (sn, _) = hashShortNodeChildren (hashN R H c False) k f in (sn, shortnodeToHash R H sn False)
     | FullNode cs f \<Rightarrow>
         let (fn, _) = hashFullNodeChildren
               (map (\<lambda>c. if c = NilNode then (ValueNode [], NilNode) else hashN R H c False) (take 16 cs)) (drop 16 cs) f
         in (fn, fullnodeToHash R H fn False)
     | n \<Rightarrow> (n, n))"

definition hashRoot :: "rlp \<Rightarrow> (bytes \<Rightarrow> bytes) \<Rightarrow> Trie \<Rightarrow> (node \<times> node) \<times> Trie" where
  "hashRoot R H t =
    (if trRoot t = NilNode then ((HashNode emptyRoot, NilNode), t)
     else (hashN R H (trRoot t) True, t\<lparr>trUnhashed := 0\<rparr>))"

definition Hash :: "rlp \<Rightarrow> (bytes \<Rightarrow> bytes) \<Rightarrow> Trie \<Rightarrow> bytes go \<times> Trie" where
  "Hash R H t =
    (let ((hash, cached), t1) = hashRoot R H t
     in (case hash of HashNode h \<Rightarrow> Inr (BytesToHash h)
         | _ \<Rightarrow> Inl (Panic ''interface conversion: trie.Node is not trie.HashNode''),
         t1\<lparr>trRoot := cached\<rparr>))"

section \<open>Hashing computes the encoding of the plain tree\<close>

definition rootOf :: "rlp \<Rightarrow> (bytes \<Rightarrow> bytes) \<Rightarrow> pt \<Rightarrow> bytes" where
  "rootOf R H t = (if t = PNil then emptyRoot else H (encP R H t))"

definition hashedOk :: "rlp \<Rightarrow> (bytes \<Rightarrow> bytes) \<Rightarrow> bool \<Rightarrow> node \<Rightarrow> pt \<Rightarrow> bool" where
  "hashedOk R H force n t \<longleftrightarrow>
    (if force \<or> 32 \<le> length (encP R H t) then n = HashNode (H (encP R H t)) else encode R n = encP R H t \<and> \<not> isHash n)"

lemma hashedOk_ref: "hashedOk R H False n t \<Longrightarrow> isNode t \<Longrightarrow> encode R n = refP R H t"
  by (simp add: hashedOk_def refOf_def split: if_splits)

lemma hashedOk_toHash:
  assumes "encode R n = encP R H t" "\<not> isHash n"
  shows "hashedOk R H force (shortnodeToHash R H n force) t" "hashedOk R H force (fullnodeToHash R H n force) t"
  using assms by (auto simp: hashedOk_def shortnodeToHash_def fullnodeToHash_def hashData_def Let_def)

lemma setHash_abs:
  assumes "hashedOk R H force hashed t"
  shows "t = PShort k c \<Longrightarrow> absN R H db False n c \<Longrightarrow> absN R H db force (setHash (ShortNode k n f) hashed) t"
    "t = PFull ts \<Longrightarrow> list_all2 (absN R H db False) cs ts \<Longrightarrow> absN R H db force (setHash (FullNode cs f) hashed) t"
  using assms by (cases hashed; auto simp: setHash_def Let_def hashedOk_def flagOk_def split: if_splits)+

text \<open>The child of a node and what stands for it in the encoding.\<close>

definition childOk :: "rlp \<Rightarrow> (bytes \<Rightarrow> bytes) \<Rightarrow> nodeReader \<Rightarrow> node \<times> node \<Rightarrow> pt \<Rightarrow> bool" where
  "childOk R H db p t \<longleftrightarrow> encode R (fst p) = refP R H t \<and> absN R H db False (snd p) t"

lemma hashN_leaf:
  assumes "absN R H db r n t" "\<not> isNode t"
  shows "hashN R H n force = (n, n)" "encode R n = refP R H t"
proof -
  consider "n = NilNode" "t = PNil" | v where "n = ValueNode v" "t = PVal v"
    using assms by (cases n) (auto simp: absN_Hash)
  then have "hashN R H n force = (n, n) \<and> encode R n = refP R H t" by cases (simp_all add: refOf_def)
  then show "hashN R H n force = (n, n)" "encode R n = refP R H t" by simp_all
qed

lemma hashFull_ok:
  assumes "EmptyString R = WriteBytes R []" "list_all2 (absN R H db False) cs ts" "length ts = 17"
    and "\<And>i. i < 16 \<Longrightarrow> cs ! i \<noteq> NilNode \<Longrightarrow> childOk R H db (hashN R H (cs ! i) False) (ts ! i)"
    and "\<not> isNode (ts ! 16)"
  defines "hs \<equiv> map (\<lambda>c. if c = NilNode then (ValueNode [], NilNode) else hashN R H c False) (take 16 cs)"
  shows "encode R (FullNode (map fst hs @ drop 16 cs) f) = encP R H (PFull ts)"
    "list_all2 (absN R H db False) (map snd hs @ drop 16 cs) ts"
proof -
  have len: "length cs = 17" using assms(2,3) by (simp add: list_all2_lengthD)
  have at: "absN R H db False (cs ! i) (ts ! i)" if "i < 17" for i
    using assms(2) len that by (simp add: list_all2_conv_all_nth)
  have cld: "childOk R H db (hs ! i) (ts ! i)" if "i < 16" for i
  proof (cases "cs ! i = NilNode")
    case True
    then have "ts ! i = PNil" using absN_Nil_iff[OF at[of i]] that by simp
    with True that len assms(1) show ?thesis by (simp add: hs_def childOk_def refOf_def abs_Nil)
  next
    case False
    from assms(4)[OF that False] False that len show ?thesis by (simp add: hs_def)
  qed
  have lh: "length hs = 16" using len by (simp add: hs_def)
  have d: "drop 16 cs = [cs ! 16]" using len by (metis Cons_nth_drop_Suc drop_eq_Nil eval_nat_numeral(3) lessI semiring_norm(26,27) le_refl)
  have "map (encode R) (map fst hs @ drop 16 cs) = map (refP R H) ts"
  proof (rule nth_equalityI)
    fix i assume "i < length (map (encode R) (map fst hs @ drop 16 cs))"
    then have i: "i < 17" using lh d by simp
    show "map (encode R) (map fst hs @ drop 16 cs) ! i = map (refP R H) ts ! i"
    proof (cases "i < 16")
      case True
      with cld[OF True] lh assms(3) show ?thesis by (simp add: nth_append childOk_def)
    next
      case False
      with i have "i = 16" by simp
      with hashN_leaf(2)[OF at[of 16] assms(5)] lh d assms(3) show ?thesis by (simp add: nth_append)
    qed
  qed (use lh d assms(3) in simp)
  then show "encode R (FullNode (map fst hs @ drop 16 cs) f) = encP R H (PFull ts)" by simp
  show "list_all2 (absN R H db False) (map snd hs @ drop 16 cs) ts"
  proof (rule list_all2_all_nthI)
    fix i assume "i < length (map snd hs @ drop 16 cs)"
    then have i: "i < 17" using lh d by simp
    show "absN R H db False ((map snd hs @ drop 16 cs) ! i) (ts ! i)"
    proof (cases "i < 16")
      case True
      with cld[OF True] lh show ?thesis by (simp add: nth_append childOk_def)
    next
      case False
      with i have "i = 16" by simp
      with at[of 16] lh d show ?thesis by (simp add: nth_append)
    qed
  qed (use lh d assms(3) in simp)
qed

text \<open>Canonical trees have a value or nothing in the last place of a branch.\<close>

lemma canon_slot16: "canon (PFull ts) \<Longrightarrow> length ts = 17 \<and> \<not> isNode (ts ! 16)"
  by (auto elim!: canon_FullE)

lemma canon_child:
  assumes "canon (PFull ts)" "i < 17" "isNode (ts ! i)"
  shows "canon (ts ! i)"
proof -
  have "slotOk i (ts ! i)" using assms(1,2) by (simp add: canon_Full_iff)
  with assms(3) show ?thesis by (auto simp: slotOk_def split: if_splits)
qed

lemma hashN_refines:
  assumes "EmptyString R = WriteBytes R []" "absN R H db force n t" "isNode t" "canon t" "hashN R H n force = (hashed, cached)"
  shows "hashedOk R H force hashed t \<and> absN R H db force cached t"
  using assms(2-)
proof (induction n arbitrary: force t hashed cached)
  case (ShortNode k c f)
  obtain u where u: "t = PShort k u" "flagOk R H force f t" "absN R H db False c u" using ShortNode(2) by auto
  show ?case
  proof (cases "nfHash f")
    case (Some h)
    with ShortNode(2,5) u(2) show ?thesis by (auto simp: flagOk_def hashedOk_def)
  next
    case None
    obtain hc cc where hc: "hashN R H c False = (hc, cc)" by force
    have ok: "encode R hc = refP R H u \<and> absN R H db False cc u"
    proof (cases "isNode u")
      case True
      have "canon u" using ShortNode(4) u(1) True by (auto elim: canon_Short_cases)
      with ShortNode(1)[OF u(3) True _ hc] hashedOk_ref[of R H hc u] True show ?thesis by blast
    next
      case False
      with hashN_leaf(1)[OF u(3) False, of False] hashN_leaf(2)[OF u(3) False] hc u(3) show ?thesis by simp
    qed
    let ?n = "ShortNode (HexToCompact k) hc f"
    have e: "hashedOk R H force (shortnodeToHash R H ?n force) t"
      using ok u(1) by (intro hashedOk_toHash) simp_all
    from ShortNode(5) None hc have "hashed = shortnodeToHash R H ?n force" "cached = setHash (ShortNode k cc f) hashed"
      by (auto simp: hashShortNodeChildren_def Let_def)
    with e setHash_abs(1)[OF e u(1)] ok show ?thesis by simp
  qed
next
  case (FullNode cs f)
  obtain ts where ts: "t = PFull ts" "flagOk R H force f t" "list_all2 (absN R H db False) cs ts"
    using FullNode(2) by auto
  show ?case
  proof (cases "nfHash f")
    case (Some h)
    with FullNode(2,5) ts(2) show ?thesis by (auto simp: flagOk_def hashedOk_def)
  next
    case None
    have can: "canon (PFull ts)" using FullNode(4) ts(1) by simp
    note s16 = canon_slot16[OF can]
    let ?hs = "map (\<lambda>c. if c = NilNode then (ValueNode [], NilNode) else hashN R H c False) (take 16 cs)"
    have cld: "childOk R H db (hashN R H (cs ! i) False) (ts ! i)" if i: "i < 16" "cs ! i \<noteq> NilNode" for i
    proof -
      have c: "cs ! i \<in> set cs" "absN R H db False (cs ! i) (ts ! i)"
        using ts(3) s16 i(1) by (auto simp: list_all2_conv_all_nth)
      have n: "slotOk i (ts ! i)" "ts ! i \<noteq> PNil" using can i absN_Nil_iff[OF c(2)] by (auto simp: canon_Full_iff)
      then have n: "isNode (ts ! i)" "canon (ts ! i)" using i(1) canon_isNode by (auto simp: slotOk_def)
      obtain hc cc where hc: "hashN R H (cs ! i) False = (hc, cc)" by force
      from FullNode(1)[OF c n hc] hashedOk_ref[of R H hc "ts ! i"] n(1) hc show ?thesis by (simp add: childOk_def)
    qed
    note full = hashFull_ok[OF assms(1) ts(3) _ cld, simplified s16]
    have e: "hashedOk R H force (fullnodeToHash R H (FullNode (map fst ?hs @ drop 16 cs) f) force) t"
      using full(1)[of f] s16 ts(1) by (intro hashedOk_toHash) simp_all
    from FullNode(5) None have "hashed = fullnodeToHash R H (FullNode (map fst ?hs @ drop 16 cs) f) force"
      "cached = setHash (FullNode (map snd ?hs @ drop 16 cs) f) hashed"
      by (auto simp: hashFullNodeChildren_def Let_def)
    with e setHash_abs(2)[OF e ts(1)] full(2) s16 show ?thesis by simp
  qed
qed (auto simp: absN_Hash hashedOk_def)

section \<open>Runs of operations\<close>

lemma length_emptyRoot [simp]: "length emptyRoot = 32"
  by (simp add: emptyRoot_def)

lemma byteTree_isNode: "byteTree t \<Longrightarrow> t = PNil \<or> isNode t"
  by (simp add: byteTree_def canon_isNode)

lemma Hash_refines:
  assumes "EmptyString R = WriteBytes R []" "hash32 H" "trieRep R H db tr t"
  shows "\<exists>tr'. Hash R H tr = (Inr (rootOf R H t), tr') \<and> trieRep R H db tr' t"
proof -
  have a: "absN R H db True (trRoot tr) t" "byteTree t" using assms(3) by (auto simp: trieRep_def)
  show ?thesis
  proof (cases "t = PNil")
    case True
    with a(1) have "trRoot tr = NilNode" using absN_Nil_iff by blast
    with True show ?thesis by (simp add: Hash_def hashRoot_def rootOf_def trieRep_def BytesToHash_32)
  next
    case False
    then have n: "isNode t" "trRoot tr \<noteq> NilNode" "canon t"
      using byteTree_isNode[OF a(2)] absN_Nil_iff[OF a(1)] a(2) by (auto simp: byteTree_def)
    obtain h c where h: "hashN R H (trRoot tr) True = (h, c)" by force
    from hashN_refines[OF assms(1) a(1) n(1,3) h] have "h = HashNode (H (encP R H t))" "absN R H db True c t"
      by (auto simp: hashedOk_def)
    with h n False a(2) assms(2) show ?thesis
      by (simp add: Hash_def hashRoot_def rootOf_def trieRep_def BytesToHash_32 hash32_length)
  qed
qed

datatype trieOp = OpGet bytes | OpUpdate bytes bytes | OpDelete bytes | OpHash

datatype trieOut = Got "bytes option" | Root bytes

definition trieStep :: "rlp \<Rightarrow> (bytes \<Rightarrow> bytes) \<Rightarrow> nodeReader \<Rightarrow> trieOp \<Rightarrow> Trie \<Rightarrow> (trieOut list \<times> Trie) go" where
  "trieStep R H db oper t =
    (case oper of
       OpGet k \<Rightarrow> (case TryGet db k t of (r, t') \<Rightarrow> go_bind r (\<lambda>v. Inr ([Got v], t')))
     | OpUpdate k v \<Rightarrow> (case TryUpdate db k v t of (r, t') \<Rightarrow> go_bind r (\<lambda>_. Inr ([], t')))
     | OpDelete k \<Rightarrow> (case TryDelete db k t of (r, t') \<Rightarrow> go_bind r (\<lambda>_. Inr ([], t')))
     | OpHash \<Rightarrow> (case Hash R H t of (r, t') \<Rightarrow> go_bind r (\<lambda>h. Inr ([Root h], t'))))"

text \<open>The finite map that the operations describe, the tree that represents it, and what they return.\<close>

fun mapStep :: "trieOp \<Rightarrow> (bytes \<rightharpoonup> bytes) \<Rightarrow> (bytes \<rightharpoonup> bytes)" where
  "mapStep (OpUpdate k v) m = m(k := (if v = [] then None else Some v))"
| "mapStep (OpDelete k) m = m(k := None)"
| "mapStep _ m = m"

definition contents :: "trieOp list \<Rightarrow> (bytes \<rightharpoonup> bytes)" where
  "contents ops = fold mapStep ops Map.empty"

fun treeStep :: "trieOp \<Rightarrow> pt \<Rightarrow> pt" where
  "treeStep (OpUpdate k v) t = pupd k v t"
| "treeStep (OpDelete k) t = pupd k [] t"
| "treeStep _ t = t"

definition treeOf :: "trieOp list \<Rightarrow> pt" where
  "treeOf ops = fold treeStep ops PNil"

fun specOuts :: "rlp \<Rightarrow> (bytes \<Rightarrow> bytes) \<Rightarrow> trieOp list \<Rightarrow> pt \<Rightarrow> trieOut list" where
  "specOuts R H [] t = []"
| "specOuts R H (oper # ops) t =
    (case oper of OpGet k \<Rightarrow> [Got (plook t k)] | OpHash \<Rightarrow> [Root (rootOf R H t)] | _ \<Rightarrow> []) @
    specOuts R H ops (treeStep oper t)"

lemma treeStep_ok: "byteTree t \<Longrightarrow> byteTree (treeStep oper t)" "byteTree t \<Longrightarrow> plook (treeStep oper t) = mapStep oper (plook t)"
  by (cases oper; auto simp: ptrie.ok_upd ptrie.look_upd fun_eq_iff)+

lemma fold_treeStep:
  "byteTree t \<Longrightarrow> byteTree (fold treeStep ops t) \<and> plook (fold treeStep ops t) = fold mapStep ops (plook t)"
  by (induction ops arbitrary: t) (simp_all add: treeStep_ok)

lemma treeOf_ok: "byteTree (treeOf ops)" "plook (treeOf ops) = contents ops"
  using fold_treeStep[of PNil ops] by (simp_all add: treeOf_def contents_def plook_def[abs_def])

lemma treeOf_determined: "contents ops = contents ops' \<Longrightarrow> treeOf ops = treeOf ops'"
  by (rule ptrie.look_ext) (simp_all add: treeOf_ok)

lemma trieStep_refines:
  assumes "EmptyString R = WriteBytes R []" "hash32 H" "trieRep R H db tr t"
  shows "\<exists>tr'. trieStep R H db oper tr = Inr (specOuts R H [oper] t, tr') \<and> trieRep R H db tr' (treeStep oper t)"
proof (cases oper)
  case (OpGet k)
  then show ?thesis using TryGet_refines[OF assms(2,3), of k] by (auto simp: trieStep_def)
next
  case (OpUpdate k v)
  then show ?thesis using TryUpdate_refines[OF assms(2,3), of k v] by (auto simp: trieStep_def)
next
  case (OpDelete k)
  then show ?thesis using TryDelete_refines[OF assms(2,3), of k] by (auto simp: trieStep_def)
next
  case OpHash
  then show ?thesis using Hash_refines[OF assms] by (auto simp: trieStep_def)
qed

lemma trie_run_refines:
  assumes "EmptyString R = WriteBytes R []" "hash32 H" "trieRep R H db tr t"
  shows "\<exists>tr'. runEvents (trieStep R H db) ops tr = Inr (specOuts R H ops t, tr') \<and> trieRep R H db tr' (fold treeStep ops t)"
  using assms(3)
proof (induction ops arbitrary: tr t)
  case (Cons oper ops)
  obtain tr1 where tr1: "trieStep R H db oper tr = Inr (specOuts R H [oper] t, tr1)" "trieRep R H db tr1 (treeStep oper t)"
    using trieStep_refines[OF assms(1,2) Cons.prems] by blast
  obtain tr2 where "runEvents (trieStep R H db) ops tr1 = Inr (specOuts R H ops (treeStep oper t), tr2)"
    "trieRep R H db tr2 (fold treeStep ops (treeStep oper t))" using Cons.IH[OF tr1(2)] by blast
  with tr1(1) show ?case by (cases oper) auto
qed simp

section \<open>Equal roots, equal contents\<close>

fun subTrees :: "pt \<Rightarrow> pt set" where
  "subTrees (PShort k c) = insert (PShort k c) (subTrees c)"
| "subTrees (PFull ts) = insert (PFull ts) (\<Union>t\<in>set ts. subTrees t)"
| "subTrees t = {t}"

definition encodings :: "rlp \<Rightarrow> (bytes \<Rightarrow> bytes) \<Rightarrow> pt \<Rightarrow> bytes set" where
  "encodings R H t = encP R H ` subTrees t"

lemma subTrees_self [simp]: "t \<in> subTrees t"
  by (cases t) auto

lemma encodings_self [simp]: "encP R H t \<in> encodings R H t"
  by (simp add: encodings_def)

lemma encodings_child:
  "encodings R H c \<subseteq> encodings R H (PShort k c)" "c \<in> set ts \<Longrightarrow> encodings R H c \<subseteq> encodings R H (PFull ts)"
  by (auto simp: encodings_def)

lemma decoded_not_hash: "decoded R H h t \<noteq> HashNode x"
  by (cases t) auto

lemma decodedRef_leaf:
  "\<not> isNode c \<Longrightarrow> decodedRef R H c = decodedRef R H c' \<Longrightarrow> c = c'"
  by (cases c; cases c') (auto simp: decodedRef_def split: if_splits)

context rlp_codec
begin

text \<open>Equal references stand for equal decoded nodes, when the hash has no collision among the encodings.\<close>

lemma decodedRef_decoded:
  assumes "hash32 H" "inj_on H (encodings R H c \<union> encodings R H c')" "canon c" "canon c'" "fits c" "fits c'"
    "isNode c" "decodedRef R H c = decodedRef R H c'"
  shows "decoded R H None c = decoded R H None c' \<and> isNode c'"
proof (cases "32 \<le> length (encP R H c)")
  case True
  then have h: "HashNode (H (encP R H c)) = decodedRef R H c'" using assms(7,8) by (simp add: decodedRef_def)
  have c': "isNode c' \<and> 32 \<le> length (encP R H c')"
  proof (rule ccontr)
    assume "\<not> (isNode c' \<and> 32 \<le> length (encP R H c'))"
    then have "decodedRef R H c' = decoded R H None c'" unfolding decodedRef_def by (rule if_not_P)
    with h show False using decoded_not_hash[of R H None c'] by metis
  qed
  then have "H (encP R H c) = H (encP R H c')" using h by (simp add: decodedRef_def)
  then have e: "encP R H c = encP R H c'" using assms(2) by (auto dest!: inj_onD)
  have "c \<noteq> PNil" "c' \<noteq> PNil" using assms(7) c' by auto
  with decodeNode_encP[OF assms(1,3) _ assms(5), of None] decodeNode_encP[OF assms(1,4) _ assms(6), of None] e c'
  show ?thesis by simp
next
  case False
  then have "decoded R H None c = decodedRef R H c'" using assms(8) by (simp add: decodedRef_def)
  then have d: "decoded R H None c = decoded R H None c'"
    using decoded_not_hash[of R H None c] by (auto simp: decodedRef_def split: if_splits)
  with assms(4,7) show ?thesis by (cases c; cases c') auto
qed

lemma decoded_inj:
  assumes "hash32 H" "canon t" "canon t'" "fits t" "fits t'" "inj_on H (encodings R H t \<union> encodings R H t')"
    "decoded R H None t = decoded R H None t'"
  shows "t = t'"
  using assms(2-)
proof (induction arbitrary: t' rule: canon.induct)
  case canon_Nil
  then show ?case by (cases t') auto
next
  case (canon_Leaf p v)
  then obtain c where c: "t' = PShort p c" "decodedRef R H (PVal v) = decodedRef R H c"
    unfolding decoded_refs by (cases t') (auto simp: decodedRef_def)
  with decodedRef_leaf[OF _ c(2)] show ?case by simp
next
  case (canon_Ext p ts)
  then obtain c where c: "t' = PShort p c" "decodedRef R H (PFull ts) = decodedRef R H c"
    unfolding decoded_refs(1) by (cases t') (auto simp: decodedRef_def)
  have "isNode c" using decodedRef_leaf[OF _ c(2)[symmetric]] by (cases c) auto
  then have cc: "canon c" using canon_Ext(5) c(1) by (auto elim: canon_Short_cases)
  have f: "fits (PFull ts)" "fits c" using canon_Ext(6,7) c(1) by auto
  have i: "inj_on H (encodings R H (PFull ts) \<union> encodings R H c)"
    by (rule inj_on_subset[OF canon_Ext(8)[unfolded c(1)] Un_mono[OF encodings_child(1) encodings_child(1)]])
  from decodedRef_decoded[OF assms(1) i canon_Ext(3) cc f _ c(2)] have "decoded R H None (PFull ts) = decoded R H None c" by simp
  from canon_Ext(4)[OF cc f i this] c(1) show ?case by simp
next
  case (canon_Full ts)
  obtain us where us: "t' = PFull us" "map (decodedRef R H) ts = map (decodedRef R H) us"
    using canon_Full(10) unfolding decoded_refs(2) by (cases t') (auto simp: decodedRef_def)
  have can: "canon (PFull ts)" using canon_Full(1-4) by (auto intro: canon.canon_Full)
  have len: "length ts = 17" "length us = 17" using canon_Full(1) map_eq_imp_length_eq[OF us(2)] by simp_all
  have "ts ! i = us ! i" if i: "i < 17" for i
  proof (cases "isNode (ts ! i)")
    case False
    moreover have "decodedRef R H (ts ! i) = decodedRef R H (us ! i)"
      using us(2) i len by (metis nth_map)
    ultimately show ?thesis by (rule decodedRef_leaf)
  next
    case True
    have e: "decodedRef R H (ts ! i) = decodedRef R H (us ! i)" using us(2) i len by (metis nth_map)
    have n: "isNode (us ! i)" using decodedRef_leaf[OF _ e[symmetric]] True by metis
    have c: "canon (ts ! i)" "canon (us ! i)"
      using canon_child[OF can i True] canon_child[OF canon_Full(6)[unfolded us(1)] i n] by simp_all
    have m: "ts ! i \<in> set ts" "us ! i \<in> set us" using i len by simp_all
    then have f: "fits (ts ! i)" "fits (us ! i)" using canon_Full(7,8) us(1) by auto
    have inj: "inj_on H (encodings R H (ts ! i) \<union> encodings R H (us ! i))"
      by (rule inj_on_subset[OF canon_Full(9)[unfolded us(1)] Un_mono[OF encodings_child(2)[OF m(1)] encodings_child(2)[OF m(2)]]])
    have "i < 16" using canon_slot16[OF can] True i by (cases "i = 16") auto
    from canon_Full(5)[OF this c(2) f inj] decodedRef_decoded[OF assms(1) inj c f True e] show ?thesis by blast
  qed
  with len us(1) show ?case by (simp add: nth_equalityI)
qed

lemma encP_inj:
  assumes "hash32 H" "canon t" "canon t'" "fits t" "fits t'" "inj_on H (encodings R H t \<union> encodings R H t')"
    "encP R H t = encP R H t'"
  shows "t = t'"
proof (cases "t = PNil \<or> t' = PNil")
  case False
  then show ?thesis
    using decodeNode_encP[OF assms(1,2) _ assms(4), of None] decodeNode_encP[OF assms(1,3) _ assms(5), of None] assms(7)
    by (intro decoded_inj[OF assms(1-6)]) auto
next
  case True
  have no: "encP R H PNil \<noteq> encP R H u" if u: "canon u" "fits u" "u \<noteq> PNil" for u
  proof -
    have "isNode u" using canon_isNode u by blast
    then obtain c where "encP R H u = ListOf R c" "length c < maxLen" using encP_node_ListOf[OF assms(1) u(2)] by metis
    then show ?thesis using ListOf_not_WriteBytes[of c "[]" "[]" "[]"] by (auto simp: EmptyString maxLen_def)
  qed
  from True show ?thesis using no[OF assms(2,4)] no[OF assms(3,5)] assms(7) by metis
qed

end

text \<open>A tree fits in memory when its keys and values do.\<close>

lemma canon_fits:
  assumes "canon t" "\<And>k v. hexKey k \<Longrightarrow> pget t k = Some v \<Longrightarrow> length k < 2 ^ 32 \<and> length v < 2 ^ 32"
  shows "fits t"
  using assms
proof (induction rule: canon.induct)
  case (canon_Leaf p v)
  from canon_Leaf(3)[OF canon_Leaf(1), of v] show ?case by simp
next
  case (canon_Ext p ts)
  have k: "length (p @ k) < 2 ^ 32 \<and> length v < 2 ^ 32" if "hexKey k" "pget (PFull ts) k = Some v" for k v
    using canon_Ext(5)[of "p @ k" v] that canon_Ext(1) by (simp add: hexKey_append)
  have "fits (PFull ts)" by (rule canon_Ext(4)) (use k in \<open>fastforce\<close>)
  moreover obtain k v where "hexKey k" "pget (PFull ts) k = Some v" using canon_has_key[OF canon_Ext(3)] by auto
  ultimately show ?case using k[of k v] by simp
next
  case (canon_Full ts)
  have "fits (ts ! i)" if i: "i < 17" for i
  proof -
    have u: "unat (word_of_nat i :: byte) = i" using i by (subst unat_of_nat) simp
    have k: "length k < 2 ^ 32 \<and> length v < 2 ^ 32" if "hexKey (word_of_nat i # k)" "pget (ts ! i) k = Some v" for k v
      using canon_Full(6)[OF that(1), of v] that(2) i u canon_Full(1) by simp
    show ?thesis
    proof (cases "i = 16")
      case True
      with k[of "[]"] canon_Full(3) show ?thesis by (auto simp: hexKey_Cons)
    next
      case False
      then have "(word_of_nat i :: byte) < 16" using i by (simp add: word_less_nat_alt u)
      with k False i show ?thesis by (intro canon_Full(5)) (auto simp: hexKey_Cons)
    qed
  qed
  with canon_Full(1) show ?case by (auto simp: in_set_conv_nth)
qed simp

definition smallMap :: "(bytes \<rightharpoonup> bytes) \<Rightarrow> bool" where
  "smallMap m \<longleftrightarrow> (\<forall>k v. m k = Some v \<longrightarrow> length k < 2 ^ 31 \<and> length v < 2 ^ 32)"

lemma byteTree_fits:
  assumes "byteTree t" "smallMap (plook t)"
  shows "fits t"
proof (rule canon_fits)
  fix k v assume k: "hexKey k" "pget t k = Some v"
  then obtain key where key: "k = keybytesToHex key" using assms(1) by (auto simp: byteTree_def)
  then have "length key < 2 ^ 31 \<and> length v < 2 ^ 32" using k(2) assms(2) by (auto simp: plook_def smallMap_def)
  with key show "length k < 2 ^ 32 \<and> length v < 2 ^ 32" by (simp add: keybytesToHex_def)
qed (use assms in \<open>simp add: byteTree_def\<close>)

lemma specOuts_append: "specOuts R H (xs @ ys) t = specOuts R H xs t @ specOuts R H ys (fold treeStep xs t)"
  by (induction xs arbitrary: t) simp_all

lemma trie_run_last:
  assumes "EmptyString R = WriteBytes R []" "hash32 H"
  shows "\<exists>tr'. runEvents (trieStep R H db) (ops @ [oper]) emptyTrie =
    Inr (specOuts R H ops PNil @ specOuts R H [oper] (treeOf ops), tr')"
  using trie_run_refines[OF assms trieRep_empty, of db "ops @ [oper]"]
  by (auto simp: specOuts_append treeOf_def simp del: specOuts.simps)

section \<open>Properties\<close>

text \<open>
  C15. The trie is a finite map. From the empty trie every sequence of updates, deletions, lookups and
  hashings runs without error and within its fuel, and a lookup afterwards returns what the
  last update of its key stored (nil after an update with the empty value or a deletion).
\<close>

theorem trie_refines_map:
  assumes "rlp_codec R" "hash32 H"
  shows "\<exists>outs tr'. runEvents (trieStep R H db) (ops @ [OpGet key]) emptyTrie = Inr (outs @ [Got (contents ops key)], tr')"
  using trie_run_last[OF rlp_codec.EmptyString[OF assms(1)] assms(2), of db ops "OpGet key"] by (auto simp: treeOf_ok)

text \<open>
  C16. The root hash identifies the contents. If the hash maps the empty string's encoding to the constant
  of the code and has no collision among the encodings of the subtrees, two sequences of
  operations on the empty trie give the same root hash exactly when they leave the same contents
  (keys and values of sizes whose encodings the code can hold).
\<close>

theorem trie_root_identifies_contents:
  assumes "rlp_codec R" "hash32 H" "H (EmptyString R) = emptyRoot"
    "inj_on H (encodings R H (treeOf ops) \<union> encodings R H (treeOf ops'))"
    "smallMap (contents ops)" "smallMap (contents ops')"
    "runEvents (trieStep R H db) (ops @ [OpHash]) emptyTrie = Inr (outs @ [Root h], tr)"
    "runEvents (trieStep R H db') (ops' @ [OpHash]) emptyTrie = Inr (outs' @ [Root h'], tr')"
  shows "h = h' \<longleftrightarrow> contents ops = contents ops'"
proof -
  note e = rlp_codec.EmptyString[OF assms(1)]
  have h: "h = rootOf R H (treeOf ops)" "h' = rootOf R H (treeOf ops')"
    using trie_run_last[OF e assms(2), of db ops OpHash] assms(7)
      trie_run_last[OF e assms(2), of db' ops' OpHash] assms(8) by auto
  have r: "rootOf R H t = H (encP R H t)" for t using assms(3) by (simp add: rootOf_def)
  show ?thesis
  proof
    assume "contents ops = contents ops'"
    then show "h = h'" using h treeOf_determined[of ops ops'] by simp
  next
    assume "h = h'"
    then have "encP R H (treeOf ops) = encP R H (treeOf ops')" using assms(4) h r by (auto dest!: inj_onD)
    then have "treeOf ops = treeOf ops'"
      using treeOf_ok(1)[of ops] treeOf_ok(1)[of ops'] treeOf_ok(2)[of ops] treeOf_ok(2)[of ops'] assms(5,6)
      by (intro rlp_codec.encP_inj[OF assms(1,2) _ _ _ _ assms(4)]) (auto simp: byteTree_def byteTree_fits)
    then show "contents ops = contents ops'" using treeOf_ok(2) by metis
  qed
qed

text \<open>A hash for the examples: the first 32 bytes, which keeps the short encodings apart.\<close>

definition sampleHash :: "bytes \<Rightarrow> bytes" where
  "sampleHash x = (if x = [0x80] then emptyRoot else take 32 (x @ replicate 32 0))"

lemma hash32_sampleHash [simp]: "hash32 sampleHash"
  by (auto simp: hash32_def sampleHash_def min_def)

definition noDb :: nodeReader where
  "noDb h = Inr NilNode"

definition sampleOps1 :: "trieOp list" where
  "sampleOps1 = [OpUpdate [1] [7], OpUpdate [2] [8], OpDelete [1]]"

definition sampleOps2 :: "trieOp list" where
  "sampleOps2 = [OpUpdate [2] [9], OpGet [2], OpUpdate [2] [8]]"

lemma sampleOps_tree: "treeOf sampleOps1 = PShort [0, 2, 16] (PVal [8])" "treeOf sampleOps2 = PShort [0, 2, 16] (PVal [8])"
  by code_simp+

lemma sampleOps_enc:
  "encodings stdRlp sampleHash (PShort [0, 2, 16] (PVal [8])) = {[0xc4, 0x82, 0x20, 0x02, 0x08], [0x08]}"
proof -
  have "encP stdRlp sampleHash (PShort [0, 2, 16] (PVal [8])) = [0xc4, 0x82, 0x20, 0x02, 0x08]"
    "encP stdRlp sampleHash (PVal [8]) = [0x08]" by code_simp+
  then show ?thesis by (simp add: encodings_def)
qed

lemma sampleOps_contents: "contents sampleOps1 = [[2] \<mapsto> [8]]" "contents sampleOps2 = [[2] \<mapsto> [8]]"
  by (auto simp: contents_def sampleOps1_def sampleOps2_def)

theorem trie_refines_map_witness:
  "\<exists>outs tr'. runEvents (trieStep stdRlp sampleHash noDb) (sampleOps1 @ [OpGet [2]]) emptyTrie = Inr (outs @ [Got (Some [8])], tr')"
  using trie_refines_map[OF stdRlp.rlp_codec_axioms hash32_sampleHash, of noDb sampleOps1 "[2]"]
  by (simp add: sampleOps_contents)

theorem trie_root_identifies_contents_witness:
  "\<exists>outs outs' h h' tr tr'. runEvents (trieStep stdRlp sampleHash noDb) (sampleOps1 @ [OpHash]) emptyTrie = Inr (outs @ [Root h], tr) \<and>
    runEvents (trieStep stdRlp sampleHash noDb) (sampleOps2 @ [OpHash]) emptyTrie = Inr (outs' @ [Root h'], tr') \<and> h = h'"
proof -
  note run = trie_run_last[OF stdRlp.EmptyString hash32_sampleHash, of noDb _ OpHash]
  obtain tr where r1: "runEvents (trieStep stdRlp sampleHash noDb) (sampleOps1 @ [OpHash]) emptyTrie =
      Inr (specOuts stdRlp sampleHash sampleOps1 PNil @ [Root (rootOf stdRlp sampleHash (treeOf sampleOps1))], tr)"
    using run[of sampleOps1] by auto
  obtain tr' where r2: "runEvents (trieStep stdRlp sampleHash noDb) (sampleOps2 @ [OpHash]) emptyTrie =
      Inr (specOuts stdRlp sampleHash sampleOps2 PNil @ [Root (rootOf stdRlp sampleHash (treeOf sampleOps2))], tr')"
    using run[of sampleOps2] by auto
  have empty: "sampleHash (EmptyString stdRlp) = emptyRoot" by (simp add: sampleHash_def stdRlp_def)
  have inj: "inj_on sampleHash (encodings stdRlp sampleHash (treeOf sampleOps1) \<union> encodings stdRlp sampleHash (treeOf sampleOps2))"
    unfolding sampleOps_tree sampleOps_enc by (simp add: sampleHash_def)
  have small: "smallMap [[2] \<mapsto> [8]]" by (simp add: smallMap_def)
  have "contents sampleOps1 = contents sampleOps2" by (simp add: sampleOps_contents)
  with trie_root_identifies_contents[OF stdRlp.rlp_codec_axioms hash32_sampleHash empty inj _ _ r1 r2] small r1 r2
  show ?thesis by (auto simp: sampleOps_contents)
qed

end
