(* ===== verification/Trie_Proof.thy ===== *)
theory Trie_Proof
  imports Trie_Hash
begin

text \<open>
  Merkle proofs (\<^verbatim>\<open>src/trie/proof.go\<close>): the prover collects the encoded nodes on the path of a key,
  the verifier follows the path from the root hash through the encodings it is given. The
  proof database is a map from hashes to encodings. A proof that the prover made is accepted with the
  value of the key, and whatever the verifier accepts is the value in the tree with that root.
\<close>

lemma size_nth [termination_simp]: "i < length cs \<Longrightarrow> size (cs ! i) < Suc (size_list size (cs :: node list))"
  using size_list_estimation'[OF nth_mem order_refl, of i cs size] by simp

function get :: "node \<Rightarrow> bytes \<Rightarrow> bool \<Rightarrow> (bytes \<times> node) go" where
  "get (ShortNode k c f) key skipResolved =
    (if length key < length k \<or> k \<noteq> take (length k) key then Inr ([], NilNode)
     else if skipResolved then get c (drop (length k) key) skipResolved
     else Inr (drop (length k) key, c))"
| "get (FullNode cs f) key skipResolved =
    (if key = [] \<or> length cs \<le> unat (hd key) then Inl (Panic ''index out of range'')
     else if skipResolved then get (cs ! unat (hd key)) (tl key) skipResolved
     else Inr (tl key, cs ! unat (hd key)))"
| "get (HashNode h) key skipResolved = Inr (key, HashNode h)"
| "get NilNode key skipResolved = Inr (key, NilNode)"
| "get (ValueNode v) key skipResolved = Inr ([], ValueNode v)"
  by pat_completeness auto
termination
  by (relation "measure (\<lambda>(n, key, skip). size n)") (auto simp: size_nth)

definition copyHash :: "bytes \<Rightarrow> bytes \<Rightarrow> bytes" where
  "copyHash wantHash cld = take (length wantHash) cld @ drop (length cld) wantHash"

type_synonym proofDb = "bytes \<rightharpoonup> bytes"

fun proofLoop :: "nat \<Rightarrow> rlp \<Rightarrow> proofDb \<Rightarrow> nat \<Rightarrow> bytes \<Rightarrow> bytes \<Rightarrow> bytes option go" where
  "proofLoop 0 R db i wantHash key = Inl (Blocked ''fuel'')"
| "proofLoop (Suc fuel) R db i wantHash key =
    (case db wantHash of
       None \<Rightarrow> Inl (Err (''proof Node '' @ decimal i @ '' missing''))
     | Some buf \<Rightarrow>
         (case decodeNode R (Some wantHash) buf of
            Inl e \<Rightarrow> Inl (Err (''bad proof Node '' @ decimal i @ '': '' @ decodeErrorString e))
          | Inr n \<Rightarrow>
              go_bind (get n key True) (\<lambda>(keyrest, cld).
                case cld of
                  NilNode \<Rightarrow> Inr None
                | HashNode h \<Rightarrow> proofLoop fuel R db (Suc i) (copyHash wantHash h) keyrest
                | ValueNode v \<Rightarrow> Inr (Some v)
                | _ \<Rightarrow> proofLoop fuel R db (Suc i) wantHash key)))"

text \<open>Every node that the verifier passes takes a nibble of the key, so its length is enough fuel.\<close>

definition VerifyProof :: "rlp \<Rightarrow> bytes \<Rightarrow> bytes \<Rightarrow> proofDb \<Rightarrow> bytes option go" where
  "VerifyProof R rootHash key db =
    (let k = keybytesToHex key in proofLoop (length k + 1) R db 0 rootHash k)"

fun proveLoop :: "nat \<Rightarrow> nodeReader \<Rightarrow> bytes \<Rightarrow> node \<Rightarrow> node list go" where
  "proveLoop 0 db key tn = Inl (Blocked ''fuel'')"
| "proveLoop (Suc fuel) db key tn =
    (if length key = 0 \<or> tn = NilNode then Inr []
     else case tn of
       ShortNode k c f \<Rightarrow>
         go_bind (if length key < length k \<or> k \<noteq> take (length k) key then proveLoop fuel db key NilNode
                  else proveLoop fuel db (drop (length k) key) c)
           (\<lambda>nodes. Inr (tn # nodes))
     | FullNode cs f \<Rightarrow>
         go_bind (atIndex cs (unat (hd key))) (\<lambda>c.
         go_bind (proveLoop fuel db (tl key) c) (\<lambda>nodes. Inr (tn # nodes)))
     | HashNode h \<Rightarrow> go_bind (resolveHash db h) (\<lambda>n. proveLoop fuel db key n)
     | _ \<Rightarrow> Inl (Panic ''invalid Node''))"

definition putNode :: "rlp \<Rightarrow> (bytes \<Rightarrow> bytes) \<Rightarrow> nat \<Rightarrow> node \<Rightarrow> proofDb \<Rightarrow> proofDb" where
  "putNode R H i n pd =
    (case proofHash R H n of (collapsed, hn) \<Rightarrow>
       let enc = encode R collapsed
       in case hn of HashNode h \<Rightarrow> pd(h \<mapsto> enc)
          | _ \<Rightarrow> if i = 0 then pd(H enc \<mapsto> enc) else pd)"

fun putNodes :: "rlp \<Rightarrow> (bytes \<Rightarrow> bytes) \<Rightarrow> nat \<Rightarrow> nat \<Rightarrow> node list \<Rightarrow> proofDb \<Rightarrow> proofDb" where
  "putNodes R H i fromLevel [] pd = pd"
| "putNodes R H i fromLevel (n # nodes) pd =
    (if 0 < fromLevel then putNodes R H (Suc i) (fromLevel - 1) nodes pd
     else putNodes R H (Suc i) fromLevel nodes (putNode R H i n pd))"

definition Prove :: "rlp \<Rightarrow> (bytes \<Rightarrow> bytes) \<Rightarrow> nodeReader \<Rightarrow> bytes \<Rightarrow> nat \<Rightarrow> Trie \<Rightarrow> proofDb \<Rightarrow> unit go \<times> proofDb" where
  "Prove R H db key fromLevel t pd =
    (let k = keybytesToHex key
     in case proveLoop (trieFuel k) db k (trRoot t) of
          Inl e \<Rightarrow> (Inl e, pd)
        | Inr nodes \<Rightarrow> (Inr (), putNodes R H 0 fromLevel nodes pd))"

section \<open>The path of a key\<close>

fun pathOf :: "pt \<Rightarrow> bytes \<Rightarrow> pt list" where
  "pathOf PNil k = []"
| "pathOf (PVal v) k = []"
| "pathOf (PShort p t) k = (if k = [] then [] else PShort p t # (if prefix p k then pathOf t (drop (length p) k) else []))"
| "pathOf (PFull ts) [] = []"
| "pathOf (PFull ts) (x # k) = PFull ts # (if unat x < length ts then pathOf (ts ! unat x) k else [])"

lemma pathOf_subTrees: "s \<in> set (pathOf t k) \<Longrightarrow> s \<in> subTrees t"
  by (induction t k rule: pathOf.induct) (auto split: if_splits)

lemma pathOf_isNode: "s \<in> set (pathOf t k) \<Longrightarrow> isNode s"
  by (induction t k rule: pathOf.induct) (auto split: if_splits)

lemma subTrees_trans: "s \<in> subTrees t \<Longrightarrow> u \<in> subTrees s \<Longrightarrow> u \<in> subTrees t"
  by (induction t) auto

lemma canon_subTrees: "canon t \<Longrightarrow> s \<in> subTrees t \<Longrightarrow> isNode s \<Longrightarrow> canon s"
proof (induction rule: canon.induct)
  case (canon_Full ts)
  show ?case
  proof (cases "s = PFull ts")
    case True
    with canon_Full show ?thesis by (auto intro: canon.canon_Full)
  next
    case False
    then obtain i where i: "i < 17" "s \<in> subTrees (ts ! i)" using canon_Full(1,6) by (auto simp: in_set_conv_nth)
    then show ?thesis using canon_Full(3,7) canon_Full(5)[of i] by (cases "i = 16") auto
  qed
qed (auto intro: canon.intros)

lemma fits_subTrees: "fits t \<Longrightarrow> s \<in> subTrees t \<Longrightarrow> fits s"
  by (induction t) auto

text \<open>
  One round of the verifier on the decoded node of a subtree: it stops with the value below it, or at
  the hash of a subtree further down the path.
\<close>

definition nextOf :: "rlp \<Rightarrow> (bytes \<Rightarrow> bytes) \<Rightarrow> pt \<Rightarrow> bytes \<Rightarrow> bytes \<times> node \<Rightarrow> bool" where
  "nextOf R H s k r \<longleftrightarrow>
    (case r of (rest, cld) \<Rightarrow>
       (cld = NilNode \<and> pget s k = None) \<or> (\<exists>v. cld = ValueNode v \<and> pget s k = Some v) \<or>
       (\<exists>s'. cld = HashNode (H (encP R H s')) \<and> 32 \<le> length (encP R H s') \<and> s' \<in> set (pathOf s k) \<and> canonAt rest s' \<and>
          rest \<noteq> [] \<and> length rest < length k \<and> pget s k = pget s' rest \<and> set (pathOf s' rest) \<subseteq> set (pathOf s k)))"

lemma nextOf_below:
  assumes "nextOf R H c k r" "pget s k' = pget c k" "set (pathOf c k) \<subseteq> set (pathOf s k')" "length k \<le> length k'"
  shows "nextOf R H s k' r"
  using assms by (fastforce simp: nextOf_def)

lemma get_ref:
  assumes "canonAt k c" "k = [] \<longrightarrow> \<not> isNode c" "pget s k' = pget c k" "set (pathOf c k) \<subseteq> set (pathOf s k')" "length k < length k'"
    and below: "isNode c \<Longrightarrow> \<exists>r. get (decoded R H None c) k True = Inr r \<and> nextOf R H c k r"
  shows "\<exists>r. get (decodedRef R H c) k True = Inr r \<and> nextOf R H s k' r"
proof (cases "isNode c")
  case True
  show ?thesis
  proof (cases "32 \<le> length (encP R H c)")
    case big: True
    have kn: "k \<noteq> []" using assms(2) True by auto
    have "c \<in> set (pathOf c k)" using True kn assms(1) by (cases c; cases k) (auto simp: canonAt_def)
    with big True assms kn show ?thesis by (auto simp: decodedRef_def nextOf_def)
  next
    case False
    then have "decodedRef R H c = decoded R H None c" by (simp add: decodedRef_def)
    with below[OF True] nextOf_below[OF _ assms(3,4), of R H] assms(5) show ?thesis by auto
  qed
next
  case False
  then show ?thesis using assms(1,3) by (cases c) (auto simp: decodedRef_def nextOf_def)
qed

lemma get_decoded:
  assumes "canonAt k s" "k \<noteq> []"
  shows "\<exists>r. get (decoded R H h s) k True = Inr r \<and> nextOf R H s k r"
  using assms
proof (induction s k arbitrary: h rule: pget.induct)
  case (3 p t k)
  have k: "hexKey k" "canon (PShort p t)" using 3(2,3) by (auto simp: canonAt_def)
  have m: "prefix p k \<longleftrightarrow> \<not> (length k < length p \<or> p \<noteq> take (length p) k)" by (auto simp: take_prefix)
  show ?case
  proof (cases "prefix p k")
    case False
    with m show ?thesis unfolding decoded_refs by (auto simp: nextOf_def)
  next
    case True
    note c = canonAt_short[OF k(2,1) True]
    have p: "p \<noteq> []" using k(2) by (auto elim: canon_Short_cases)
    have e: "drop (length p) k = [] \<longrightarrow> \<not> isNode t" using c by (auto simp: canonAt_def)
    have l: "length (drop (length p) k) < length k" using p 3(3) by simp
    have "\<exists>r. get (decodedRef R H t) (drop (length p) k) True = Inr r \<and> nextOf R H (PShort p t) k r"
      by (rule get_ref[OF c e _ _ l]) (use True 3(1)[OF True c] 3(3) e in auto)
    with True m show ?thesis unfolding decoded_refs by auto
  qed
next
  case (5 ts x k)
  have k: "hexKey (x # k)" "canon (PFull ts)" using 5(2) by (auto simp: canonAt_def)
  note child = canonAt_child[OF k(2,1)]
  have e: "k = [] \<longrightarrow> \<not> isNode (ts ! unat x)" using child(1) by (auto simp: canonAt_def)
  have "\<exists>r. get (decodedRef R H (ts ! unat x)) k True = Inr r \<and> nextOf R H (PFull ts) (x # k) r"
    by (rule get_ref[OF child(1) e]) (use 5(1)[OF child(2,1)] child(2) e in auto)
  with child(2) show ?case unfolding decoded_refs by auto
qed (auto simp: canonAt_def nextOf_def)

section \<open>The verifier\<close>

definition keyedBy :: "(bytes \<Rightarrow> bytes) \<Rightarrow> proofDb \<Rightarrow> bool" where
  "keyedBy H db \<longleftrightarrow> (\<forall>h buf. db h = Some buf \<longrightarrow> H buf = h)"

lemma copyHash_32: "length w = 32 \<Longrightarrow> length h = 32 \<Longrightarrow> copyHash w h = h"
  by (simp add: copyHash_def)

context rlp_codec
begin

lemma proofLoop_spec:
  assumes "hash32 H" "keyedBy H db"
    and "inj_on H (ran db \<union> E)" "encP R H ` set (pathOf s k) \<subseteq> E" "canonAt k s" "isNode s" "k \<noteq> []" "fits s" "length k < fuel"
  shows "(proofLoop fuel R db i (H (encP R H s)) k = Inr (pget s k) \<or>
      (\<exists>e. proofLoop fuel R db i (H (encP R H s)) k = Inl (Err e))) \<and>
    (db (H (encP R H s)) \<noteq> None \<longrightarrow> (\<forall>u\<in>set (pathOf s k). 32 \<le> length (encP R H u) \<longrightarrow> db (H (encP R H u)) \<noteq> None) \<longrightarrow>
      proofLoop fuel R db i (H (encP R H s)) k = Inr (pget s k))"
  using assms(4-)
proof (induction fuel arbitrary: i s k)
  case (Suc fuel)
  have can: "canon s" "s \<noteq> PNil" using Suc.prems(2,3,4) by (auto simp: canonAt_def)
  have self: "s \<in> set (pathOf s k)" using Suc.prems(2,3,4) by (cases s; cases k) (auto simp: canonAt_def)
  show ?case
  proof (cases "db (H (encP R H s))")
    case None
    then show ?thesis by simp
  next
    case (Some buf)
    have "buf \<in> ran db" using Some by (auto intro: ranI)
    moreover have "H buf = H (encP R H s)" using Some assms(2) by (simp add: keyedBy_def)
    ultimately have buf: "buf = encP R H s" using assms(3) self Suc.prems(1) by (auto dest: inj_onD)
    note dec = decodeNode_encP[OF assms(1) can Suc.prems(5), of "Some (H (encP R H s))"]
    obtain rest cld where r: "get (decoded R H (Some (H (encP R H s))) s) k True = Inr (rest, cld)" "nextOf R H s k (rest, cld)"
      using get_decoded[OF Suc.prems(2,4), of R H "Some (H (encP R H s))"] by force
    from r(2) consider "cld = NilNode" "pget s k = None" | v where "cld = ValueNode v" "pget s k = Some v"
      | s' where "cld = HashNode (H (encP R H s'))" "32 \<le> length (encP R H s')" "s' \<in> set (pathOf s k)" "canonAt rest s'"
        "rest \<noteq> []" "length rest < length k" "pget s k = pget s' rest" "set (pathOf s' rest) \<subseteq> set (pathOf s k)"
      unfolding nextOf_def by auto
    then show ?thesis
    proof cases
      case (3 s')
      have "proofLoop (Suc fuel) R db i (H (encP R H s)) k = proofLoop fuel R db (Suc i) (H (encP R H s')) rest"
        using Some buf dec r(1) 3(1) assms(1) by (simp add: copyHash_32 hash32_length)
      moreover have "encP R H ` set (pathOf s' rest) \<subseteq> E" using 3(8) Suc.prems(1) by blast
      moreover have "fits s'" using fits_subTrees[OF Suc.prems(5) pathOf_subTrees[OF 3(3)]] .
      ultimately show ?thesis
        using Suc.IH[of s' rest "Suc i"] 3 pathOf_isNode[OF 3(3)] Suc.prems(6) by auto
    qed (use Some buf dec r in simp_all)
  qed
qed simp

end

section \<open>The prover\<close>

definition onPath :: "rlp \<Rightarrow> (bytes \<Rightarrow> bytes) \<Rightarrow> nodeReader \<Rightarrow> node \<Rightarrow> pt \<Rightarrow> bool" where
  "onPath R H db n s \<longleftrightarrow> absN R H db True n s \<and> \<not> isHash n"

lemma proveLoop_loaded:
  assumes "hash32 H" "absN R H db r n t" "m + (if isHash n then 2 else 1) \<le> fuel" "k \<noteq> []"
    and direct: "\<And>n fuel. absN R H db r n t \<Longrightarrow> \<not> isHash n \<Longrightarrow> m + 1 \<le> fuel \<Longrightarrow>
      \<exists>nodes. proveLoop fuel db k n = Inr nodes \<and> list_all2 (onPath R H db) nodes ps"
  shows "\<exists>nodes. proveLoop fuel db k n = Inr nodes \<and> list_all2 (onPath R H db) nodes ps"
proof (cases "isHash n")
  case True
  then obtain h where h: "n = HashNode h" by (cases n) auto
  obtain k' where k': "resolveHash db h = Inr k'" "absN R H db r k' t" "\<not> isHash k'"
    using absN_HashE[OF assms(2)[unfolded h] assms(1)] by blast
  obtain g where g: "fuel = Suc g" "m + 1 \<le> g" using assms(3) True by (cases fuel) auto
  from direct[OF k'(2,3) g(2)] k'(1) h g(1) assms(4) show ?thesis by auto
next
  case False
  then show ?thesis using direct[OF assms(2)] assms(3) by simp
qed

lemma absN_top: "absN R H db r n t \<Longrightarrow> absN R H db True n t"
  by (cases r) (auto dest: absN_root)

lemma proveLoop_refines:
  assumes "hash32 H" "canonAt k t" "absN R H db r n t" "2 * length k + (if isHash n then 2 else 1) \<le> fuel"
  shows "\<exists>nodes. proveLoop fuel db k n = Inr nodes \<and> list_all2 (onPath R H db) nodes (pathOf t k)"
  using assms(2-)
proof (induction t k arbitrary: r n fuel rule: pathOf.induct)
  case (1 k)
  then obtain g where "fuel = Suc g" by (cases fuel) (auto split: if_splits)
  with 1 absN_Nil_iff[OF 1(2)] show ?case by auto
next
  case (2 v k)
  then obtain g where "fuel = Suc g" by (cases fuel) (auto split: if_splits)
  with 2 show ?case by (auto simp: canonAt_def split: if_splits)
next
  case (3 p t k)
  have k: "k \<noteq> []" "hexKey k" "canon (PShort p t)" using 3(2) by (auto simp: canonAt_def split: if_splits)
  show ?case
  proof (rule proveLoop_loaded[OF assms(1) 3(3,4) k(1)])
    fix n fuel assume n: "absN R H db r n (PShort p t)" "\<not> isHash n" "2 * length k + 1 \<le> fuel"
    obtain c f where c: "n = ShortNode p c f" "absN R H db False c t" using n(1,2) by (cases n) auto
    obtain g where g: "fuel = Suc g" "2 * length k \<le> g" using n(3) by (cases fuel) auto
    have on: "onPath R H db n (PShort p t)" using n absN_top by (auto simp: onPath_def)
    have m: "prefix p k \<longleftrightarrow> \<not> (length k < length p \<or> p \<noteq> take (length p) k)" by (auto simp: take_prefix)
    show "\<exists>nodes. proveLoop fuel db k n = Inr nodes \<and> list_all2 (onPath R H db) nodes (pathOf (PShort p t) k)"
    proof (cases "prefix p k")
      case False
      obtain g' where "g = Suc g'" using g(2) k(1) by (cases g) auto
      with False m c(1) g(1) k(1) on show ?thesis by auto
    next
      case True
      have p: "0 < length p" using k(3) by (auto elim: canon_Short_cases)
      let ?r = "drop (length p) k"
      have "length ?r < length k" using p prefix_length_le[OF True] by (auto simp del: length_greater_0_conv)
      then have "2 * length ?r + (if isHash c then 2 else 1) \<le> g"
        using g(2) by (cases "isHash c"; simp only: if_True if_False; linarith)
      from 3(1)[OF k(1) True canonAt_short[OF k(3,2) True] c(2) this] True m c(1) g(1) k(1) on
      show ?thesis by auto
    qed
  qed
next
  case (4 ts)
  then show ?case by (auto simp: canonAt_def)
next
  case (5 ts x k)
  have k: "hexKey (x # k)" "canon (PFull ts)" using 5(2) by (auto simp: canonAt_def)
  note child = canonAt_child[OF k(2,1)]
  show ?case
  proof (rule proveLoop_loaded[OF assms(1) 5(3,4)])
    fix n fuel assume n: "absN R H db r n (PFull ts)" "\<not> isHash n" "2 * length (x # k) + 1 \<le> fuel"
    obtain cs f where c: "n = FullNode cs f" "list_all2 (absN R H db False) cs ts" using n(1,2) by (cases n) auto
    obtain g where g: "fuel = Suc g" "2 * length (x # k) \<le> g" using n(3) by (cases fuel) auto
    have on: "onPath R H db n (PFull ts)" using n absN_top by (auto simp: onPath_def)
    have x: "unat x < length cs" "absN R H db False (cs ! unat x) (ts ! unat x)"
      using c(2) child(2) by (auto simp: list_all2_conv_all_nth)
    have "2 * length k + (if isHash (cs ! unat x) then 2 else 1) \<le> g" using g(2) by simp
    from 5(1)[OF child(2,1) x(2) this] c(1) g(1) x(1) on child(2)
    show "\<exists>nodes. proveLoop fuel db (x # k) n = Inr nodes \<and> list_all2 (onPath R H db) nodes (pathOf (PFull ts) (x # k))"
      by (auto simp: atIndex_def)
  qed simp
qed

lemma hashN_child:
  assumes "EmptyString R = WriteBytes R []" "canon (PFull ts)" "list_all2 (absN R H db False) cs ts" "i < 16" "cs ! i \<noteq> NilNode"
  shows "childOk R H db (hashN R H (cs ! i) False) (ts ! i)"
proof -
  have c: "absN R H db False (cs ! i) (ts ! i)"
    using assms(3,4) canon_slot16[OF assms(2)] by (auto simp: list_all2_conv_all_nth)
  have "slotOk i (ts ! i)" "ts ! i \<noteq> PNil" using assms(2,4,5) absN_Nil_iff[OF c] by (auto simp: canon_Full_iff)
  then have n: "isNode (ts ! i)" "canon (ts ! i)" using assms(4) canon_isNode by (auto simp: slotOk_def)
  obtain hc cc where hc: "hashN R H (cs ! i) False = (hc, cc)" by force
  from hashN_refines[OF assms(1) c n hc] hashedOk_ref[of R H hc "ts ! i"] n(1) hc show ?thesis by (simp add: childOk_def)
qed

lemma proofHash_refines:
  assumes "EmptyString R = WriteBytes R []" "onPath R H db n s" "isNode s" "canon s"
  shows "\<exists>c hn. proofHash R H n = (c, hn) \<and> encode R c = encP R H s \<and> hashedOk R H False hn s"
proof (cases n)
  case (ShortNode k c f)
  obtain u where u: "s = PShort k u" "absN R H db False c u" using assms(2) ShortNode by (auto simp: onPath_def)
  obtain hc cc where hc: "hashN R H c False = (hc, cc)" by force
  have "encode R hc = refP R H u"
  proof (cases "isNode u")
    case True
    have "canon u" using assms(4) u(1) True by (auto elim: canon_Short_cases)
    with hashN_refines[OF assms(1) u(2) True _ hc] hashedOk_ref[of R H hc u] True show ?thesis by blast
  next
    case False
    with hashN_leaf(1)[OF u(2) False, of False] hashN_leaf(2)[OF u(2) False] hc show ?thesis by simp
  qed
  then have e: "encode R (ShortNode (HexToCompact k) hc f) = encP R H s" using u(1) by simp
  with hashedOk_toHash(1)[OF e, of False] hc ShortNode show ?thesis
    by (simp add: proofHash_def hashShortNodeChildren_def)
next
  case (FullNode cs f)
  obtain ts where ts: "s = PFull ts" "list_all2 (absN R H db False) cs ts" using assms(2) FullNode by (auto simp: onPath_def)
  have can: "canon (PFull ts)" using assms(4) ts(1) by simp
  note s16 = canon_slot16[OF can]
  have cld: "childOk R H db (hashN R H (cs ! i) False) (ts ! i)" if i: "i < 16" "cs ! i \<noteq> NilNode" for i
    using hashN_child[OF assms(1) can ts(2) i] .
  note full = hashFull_ok[OF assms(1) ts(2) _ cld, simplified s16]
  let ?n = "FullNode (map fst (map (\<lambda>c. if c = NilNode then (ValueNode [], NilNode) else hashN R H c False) (take 16 cs)) @ drop 16 cs) f"
  have e: "encode R ?n = encP R H s" using full(1)[of f] s16 ts(1) by simp
  with hashedOk_toHash(2)[OF e, of False] FullNode show ?thesis
    by (simp add: proofHash_def hashFullNodeChildren_def)
qed (use assms in \<open>auto simp: onPath_def\<close>)

text \<open>What the prover stores: encodings of subtrees on the path, the root and the long ones among them.\<close>

lemma putNode_refines:
  assumes "EmptyString R = WriteBytes R []" "onPath R H db n s" "isNode s" "canon s"
  shows "putNode R H i n pd = (if i = 0 \<or> 32 \<le> length (encP R H s) then pd(H (encP R H s) \<mapsto> encP R H s) else pd)"
proof -
  obtain c hn where c: "proofHash R H n = (c, hn)" "encode R c = encP R H s" "hashedOk R H False hn s"
    using proofHash_refines[OF assms] by blast
  show ?thesis
  proof (cases "32 \<le> length (encP R H s)")
    case True
    with c show ?thesis by (simp add: putNode_def hashedOk_def)
  next
    case False
    then have "\<not> isHash hn" using c(3) by (simp add: hashedOk_def)
    with False c show ?thesis by (cases hn) (auto simp: putNode_def Let_def)
  qed
qed

lemma putNodes_refines:
  assumes "EmptyString R = WriteBytes R []" "list_all2 (onPath R H db) nodes ps" "\<And>s. s \<in> set ps \<Longrightarrow> isNode s \<and> canon s"
    "keyedBy H pd"
  shows "keyedBy H (putNodes R H i 0 nodes pd) \<and> ran (putNodes R H i 0 nodes pd) \<subseteq> ran pd \<union> encP R H ` set ps \<and>
    (\<forall>s\<in>set ps. 32 \<le> length (encP R H s) \<longrightarrow> putNodes R H i 0 nodes pd (H (encP R H s)) \<noteq> None) \<and>
    (\<forall>h. pd h \<noteq> None \<longrightarrow> putNodes R H i 0 nodes pd h \<noteq> None) \<and>
    (i = 0 \<longrightarrow> ps \<noteq> [] \<longrightarrow> putNodes R H i 0 nodes pd (H (encP R H (hd ps))) \<noteq> None)"
  using assms(2-)
proof (induction nodes ps arbitrary: i pd rule: list_all2_induct)
  case (Cons n nodes s ps)
  let ?pd = "putNode R H i n pd"
  have p: "?pd = (if i = 0 \<or> 32 \<le> length (encP R H s) then pd(H (encP R H s) \<mapsto> encP R H s) else pd)"
    using putNode_refines[OF assms(1) Cons(1)] Cons.prems(1) by simp
  let ?q = "putNodes R H (Suc i) 0 nodes ?pd"
  have "keyedBy H ?pd" using Cons.prems(2) by (simp add: p keyedBy_def)
  from Cons.IH[OF _ this, of "Suc i"] Cons.prems(1)
  have q: "keyedBy H ?q" "ran ?q \<subseteq> ran ?pd \<union> encP R H ` set ps"
    "\<forall>s\<in>set ps. 32 \<le> length (encP R H s) \<longrightarrow> ?q (H (encP R H s)) \<noteq> None" "\<forall>h. ?pd h \<noteq> None \<longrightarrow> ?q h \<noteq> None"
    by simp_all
  have ran: "ran ?pd \<subseteq> ran pd \<union> {encP R H s}" by (auto simp: p ran_def)
  have own: "i = 0 \<or> 32 \<le> length (encP R H s) \<Longrightarrow> ?q (H (encP R H s)) \<noteq> None" using q(4) p by (metis fun_upd_same option.distinct(1))
  have keep: "\<forall>h. pd h \<noteq> None \<longrightarrow> ?q h \<noteq> None" using q(4) by (simp add: p split: if_splits)
  have e: "putNodes R H i 0 (n # nodes) pd = ?q" by simp
  show ?case unfolding e
  proof (intro conjI)
    show "ran ?q \<subseteq> ran pd \<union> encP R H ` set (s # ps)" using q(2) ran by auto
    show "\<forall>s\<in>set (s # ps). 32 \<le> length (encP R H s) \<longrightarrow> ?q (H (encP R H s)) \<noteq> None" using q(3) own by simp
    show "i = 0 \<longrightarrow> s # ps \<noteq> [] \<longrightarrow> ?q (H (encP R H (hd (s # ps)))) \<noteq> None" using own by (metis list.sel(1))
  qed (use q(1) keep in simp_all)
qed simp

lemma Prove_refines:
  assumes "EmptyString R = WriteBytes R []" "hash32 H" "trieRep R H db tr t" "t \<noteq> PNil"
  obtains pd where "Prove R H db key 0 tr Map.empty = (Inr (), pd)" "keyedBy H pd"
    "ran pd \<subseteq> encP R H ` set (pathOf t (keybytesToHex key))"
    "pd (H (encP R H t)) \<noteq> None"
    "\<forall>s\<in>set (pathOf t (keybytesToHex key)). 32 \<le> length (encP R H s) \<longrightarrow> pd (H (encP R H s)) \<noteq> None"
proof -
  let ?k = "keybytesToHex key"
  have t: "absN R H db True (trRoot tr) t" "canon t" "isNode t"
    using assms(3,4) canon_isNode by (auto simp: trieRep_def byteTree_def)
  obtain nodes where n: "proveLoop (trieFuel ?k) db ?k (trRoot tr) = Inr nodes" "list_all2 (onPath R H db) nodes (pathOf t ?k)"
    using proveLoop_refines[OF assms(2) trieRep_canonAt[OF assms(3)] t(1) trieFuel_enough] by blast
  have path: "pathOf t ?k \<noteq> [] \<and> hd (pathOf t ?k) = t" using t(3) by (cases t; cases ?k) auto
  have "isNode s \<and> canon s" if "s \<in> set (pathOf t ?k)" for s
    using canon_subTrees[OF t(2) pathOf_subTrees[OF that]] pathOf_isNode[OF that] by simp
  from putNodes_refines[OF assms(1) n(2) this, of Map.empty 0] path
  have p: "keyedBy H (putNodes R H 0 0 nodes Map.empty)" "ran (putNodes R H 0 0 nodes Map.empty) \<subseteq> encP R H ` set (pathOf t ?k)"
    "putNodes R H 0 0 nodes Map.empty (H (encP R H t)) \<noteq> None"
    "\<forall>s\<in>set (pathOf t ?k). 32 \<le> length (encP R H s) \<longrightarrow> putNodes R H 0 0 nodes Map.empty (H (encP R H s)) \<noteq> None"
    by (auto simp: keyedBy_def)
  with that[of "putNodes R H 0 0 nodes Map.empty"] n(1) show thesis by (auto simp: Prove_def)
qed

lemma path_encodings: "encP R H ` set (pathOf t k) \<subseteq> encodings R H t"
  using pathOf_subTrees by (auto simp: encodings_def)

section \<open>Properties\<close>

text \<open>The committee reads a proof as a list of encodings (\<^verbatim>\<open>src/committee/proof.go\<close>).\<close>

definition proofReaderGet :: "(bytes \<Rightarrow> bytes) \<Rightarrow> bytes list \<Rightarrow> bytes \<Rightarrow> bytes option" where
  "proofReaderGet H ps key = find (\<lambda>node. H node = key) ps"

definition proofReaderHas :: "(bytes \<Rightarrow> bytes) \<Rightarrow> bytes list \<Rightarrow> bytes \<Rightarrow> bool" where
  "proofReaderHas H ps key = (proofReaderGet H ps key \<noteq> None)"

lemma keyedBy_proofReader: "keyedBy H (proofReaderGet H ps)" "ran (proofReaderGet H ps) \<subseteq> set ps"
  by (auto simp: keyedBy_def proofReaderGet_def ran_def find_Some_iff)

lemma trie_run_root:
  assumes "EmptyString R = WriteBytes R []" "hash32 H"
    "runEvents (trieStep R H db) (ops @ [OpHash]) emptyTrie = Inr (outs @ [Root h], tr)"
  shows "h = rootOf R H (treeOf ops)" "trieRep R H db tr (treeOf ops)"
proof -
  obtain tr1 where "runEvents (trieStep R H db) (ops @ [OpHash]) emptyTrie = Inr (specOuts R H (ops @ [OpHash]) PNil, tr1)"
    "trieRep R H db tr1 (fold treeStep (ops @ [OpHash]) PNil)"
    using trie_run_refines[OF assms(1,2) trieRep_empty] by blast
  with assms(3) show "h = rootOf R H (treeOf ops)" "trieRep R H db tr (treeOf ops)"
    by (auto simp: specOuts_append treeOf_def)
qed

lemma treeOf_PNil: "contents ops \<noteq> Map.empty \<Longrightarrow> treeOf ops \<noteq> PNil"
  using treeOf_ok(2)[of ops] by (auto simp: plook_def[abs_def])

text \<open>The verifier on the tree of a run of operations.\<close>

lemma VerifyProof_run:
  assumes "rlp_codec R" "hash32 H" "keyedBy H pd" "inj_on H (ran pd \<union> encodings R H (treeOf ops))"
    "contents ops \<noteq> Map.empty" "smallMap (contents ops)"
  shows "VerifyProof R (rootOf R H (treeOf ops)) key pd = Inr (contents ops key) \<or>
      (\<exists>e. VerifyProof R (rootOf R H (treeOf ops)) key pd = Inl (Err e))"
    "pd (H (encP R H (treeOf ops))) \<noteq> None \<Longrightarrow>
      (\<And>s. s \<in> set (pathOf (treeOf ops) (keybytesToHex key)) \<Longrightarrow> 32 \<le> length (encP R H s) \<Longrightarrow> pd (H (encP R H s)) \<noteq> None) \<Longrightarrow>
      VerifyProof R (rootOf R H (treeOf ops)) key pd = Inr (contents ops key)"
proof -
  let ?t = "treeOf ops"
  have t: "canonAt (keybytesToHex key) ?t" "isNode ?t" "fits ?t"
    using treeOf_PNil[OF assms(5)] treeOf_ok[of ops] byteTree_isNode[of ?t] byteTree_fits[of ?t] assms(6)
    by (auto simp: canonAt_def byteTree_def)
  have v: "VerifyProof R (rootOf R H ?t) key pd =
      proofLoop (length (keybytesToHex key) + 1) R pd 0 (H (encP R H ?t)) (keybytesToHex key)"
    using treeOf_PNil[OF assms(5)] unfolding VerifyProof_def rootOf_def Let_def by (simp del: proofLoop.simps)
  have look: "pget ?t (keybytesToHex key) = contents ops key" by (simp add: treeOf_ok(2)[symmetric] plook_def)
  note spec = rlp_codec.proofLoop_spec[OF assms(1-4) path_encodings t(1,2) _ t(3), of "length (keybytesToHex key) + 1" 0, unfolded look, folded v]
  show "VerifyProof R (rootOf R H ?t) key pd = Inr (contents ops key) \<or>
      (\<exists>e. VerifyProof R (rootOf R H ?t) key pd = Inl (Err e))" using spec by simp
  show "pd (H (encP R H ?t)) \<noteq> None \<Longrightarrow>
      (\<And>s. s \<in> set (pathOf ?t (keybytesToHex key)) \<Longrightarrow> 32 \<le> length (encP R H s) \<Longrightarrow> pd (H (encP R H s)) \<noteq> None) \<Longrightarrow>
      VerifyProof R (rootOf R H ?t) key pd = Inr (contents ops key)" using spec by simp
qed

text \<open>
  C18. Proofs are complete. For a trie built by any operations that left it non-empty, the prover
  returns a proof of every key, present or absent, and the verifier accepts it against the
  root hash with the value of the key, provided the hash has no collision among the encodings of
  the trie and its keys and values have sizes whose encodings the code can hold.
\<close>

theorem merkle_proof_complete:
  assumes "rlp_codec R" "hash32 H" "inj_on H (encodings R H (treeOf ops))" "contents ops \<noteq> Map.empty" "smallMap (contents ops)"
    "runEvents (trieStep R H db) (ops @ [OpHash]) emptyTrie = Inr (outs @ [Root h], tr)"
  shows "\<exists>pd. Prove R H db key 0 tr Map.empty = (Inr (), pd) \<and> VerifyProof R h key pd = Inr (contents ops key)"
proof -
  note e = rlp_codec.EmptyString[OF assms(1)]
  note r = trie_run_root[OF e assms(2,6)]
  obtain pd where pd: "Prove R H db key 0 tr Map.empty = (Inr (), pd)" "keyedBy H pd"
    "ran pd \<subseteq> encP R H ` set (pathOf (treeOf ops) (keybytesToHex key))" "pd (H (encP R H (treeOf ops))) \<noteq> None"
    "\<forall>s\<in>set (pathOf (treeOf ops) (keybytesToHex key)). 32 \<le> length (encP R H s) \<longrightarrow> pd (H (encP R H s)) \<noteq> None"
    by (rule Prove_refines[OF e assms(2) r(2) treeOf_PNil[OF assms(4)]])
  have "inj_on H (ran pd \<union> encodings R H (treeOf ops))" using assms(3) order_trans[OF pd(3) path_encodings] by (simp add: Un_absorb1)
  from VerifyProof_run(2)[OF assms(1,2) pd(2) this assms(4,5) pd(4)] pd(1,5) r(1) show ?thesis by auto
qed

text \<open>
  C17. Proofs are sound. Whatever list of encodings the verifier is given, it returns, within its fuel and
  without a panic, and it returns either an error or the value that the key has in the trie with
  that root hash, provided the hash has no collision among the encodings of the proof and of the trie,
  the trie is not empty and its keys and values have sizes whose encodings the code can hold.
\<close>

theorem merkle_proof_sound:
  assumes "rlp_codec R" "hash32 H" "inj_on H (set ps \<union> encodings R H (treeOf ops))" "contents ops \<noteq> Map.empty"
    "smallMap (contents ops)" "runEvents (trieStep R H db) (ops @ [OpHash]) emptyTrie = Inr (outs @ [Root h], tr)"
  shows "VerifyProof R h key (proofReaderGet H ps) = Inr (contents ops key) \<or>
    (\<exists>e. VerifyProof R h key (proofReaderGet H ps) = Inl (Err e))"
proof -
  have "inj_on H (ran (proofReaderGet H ps) \<union> encodings R H (treeOf ops))"
    using assms(3) by (rule inj_on_subset) (use keyedBy_proofReader(2)[of H ps] in auto)
  from VerifyProof_run(1)[OF assms(1,2) keyedBy_proofReader(1) this assms(4,5)]
    trie_run_root(1)[OF rlp_codec.EmptyString[OF assms(1)] assms(2,6)] show ?thesis by simp
qed

lemma sampleRun_hash:
  "\<exists>outs h tr. runEvents (trieStep stdRlp sampleHash noDb) (sampleOps1 @ [OpHash]) emptyTrie = Inr (outs @ [Root h], tr)"
  using trie_run_last[OF stdRlp.EmptyString hash32_sampleHash, of noDb sampleOps1 OpHash] by auto

lemma sampleOps1_facts:
  "inj_on sampleHash (set [[0xc0]] \<union> encodings stdRlp sampleHash (treeOf sampleOps1))"
  "inj_on sampleHash (encodings stdRlp sampleHash (treeOf sampleOps1))"
  "contents sampleOps1 \<noteq> Map.empty" "smallMap (contents sampleOps1)"
  by (simp_all add: sampleOps_tree sampleOps_enc sampleOps_contents smallMap_def sampleHash_def)

theorem merkle_proof_complete_witness:
  "\<exists>outs h tr pd. runEvents (trieStep stdRlp sampleHash noDb) (sampleOps1 @ [OpHash]) emptyTrie = Inr (outs @ [Root h], tr) \<and>
    Prove stdRlp sampleHash noDb [2] 0 tr Map.empty = (Inr (), pd) \<and> VerifyProof stdRlp h [2] pd = Inr (Some [8])"
proof -
  obtain outs h tr where r: "runEvents (trieStep stdRlp sampleHash noDb) (sampleOps1 @ [OpHash]) emptyTrie = Inr (outs @ [Root h], tr)"
    using sampleRun_hash by blast
  from merkle_proof_complete[OF stdRlp.rlp_codec_axioms hash32_sampleHash sampleOps1_facts(2-4) r, of "[2]"] r
  show ?thesis by (auto simp: sampleOps_contents)
qed

theorem merkle_proof_sound_witness:
  "\<exists>outs h tr. runEvents (trieStep stdRlp sampleHash noDb) (sampleOps1 @ [OpHash]) emptyTrie = Inr (outs @ [Root h], tr) \<and>
    (VerifyProof stdRlp h [2] (proofReaderGet sampleHash [[0xc0]]) = Inr (Some [8]) \<or>
     (\<exists>e. VerifyProof stdRlp h [2] (proofReaderGet sampleHash [[0xc0]]) = Inl (Err e)))"
proof -
  obtain outs h tr where r: "runEvents (trieStep stdRlp sampleHash noDb) (sampleOps1 @ [OpHash]) emptyTrie = Inr (outs @ [Root h], tr)"
    using sampleRun_hash by blast
  from merkle_proof_sound[OF stdRlp.rlp_codec_axioms hash32_sampleHash sampleOps1_facts(1,3,4) r, of "[2]"] r
  show ?thesis by (auto simp: sampleOps_contents)
qed

end
