(* ===== verification/Rebuild.thy ===== *)
theory Rebuild
  imports Executor Trie_Proof
begin

text \<open>
  The state root without the state (\<^verbatim>\<open>src/committee/worker.go\<close>: \<^verbatim>\<open>analyseStates\<close>, \<^verbatim>\<open>rebuildTrie\<close>,
  \<^verbatim>\<open>rebuildHelper\<close>, \<^verbatim>\<open>Finalize\<close>). The worker decodes the nodes of the Merkle proofs into a map from hashes to
  nodes, and hashes bottom up again with the accounts it changed. The map holds pointers and the code
  overwrites the nodes in place, so the model threads the map through the recursion. The recursion
  follows hashes, so it runs on fuel; 65 levels are enough for keys of 32 bytes.
\<close>

record ShardSendState =
  StatusTrieHash :: bytes
  AccountData :: "(address \<times> bytes) list"
  AccountsProofs :: "address \<rightharpoonup> bytes list"
  sssHeight :: int

type_synonym hash2Node = "bytes \<rightharpoonup> node"

definition analyseProof :: "rlp \<Rightarrow> (bytes \<Rightarrow> bytes) \<Rightarrow> bytes \<Rightarrow> hash2Node \<Rightarrow> hash2Node go" where
  "analyseProof R H encodedNode m =
    (if m (H encodedNode) \<noteq> None then Inr m
     else go_bind (MustDecodeNode R (H encodedNode) encodedNode) (\<lambda>n. Inr (m(H encodedNode \<mapsto> n))))"

definition analyseState ::
  "rlp \<Rightarrow> (bytes \<Rightarrow> bytes) \<Rightarrow> (bytes \<Rightarrow> string + StateAccount) \<Rightarrow> (address \<rightharpoonup> bytes list) \<Rightarrow> address \<times> bytes \<Rightarrow>
    accounts \<times> hash2Node \<Rightarrow> (accounts \<times> hash2Node) go" where
  "analyseState R H decodeBytes proofs entry st =
    (case entry of (addr, encodedState) \<Rightarrow> case st of (addr2State, m) \<Rightarrow>
     case decodeBytes encodedState of
       Inl e \<Rightarrow> Inl (Exit (''rlp encode fail. err: '' @ e))
     | Inr state \<Rightarrow>
         go_bind (go_fold (analyseProof R H) (case proofs addr of None \<Rightarrow> [] | Some ps \<Rightarrow> ps) m) (\<lambda>m'.
         Inr (addr2State(addr \<mapsto> state), m')))"

text \<open>The accounts come in the order in which Go iterates over the map of the response.\<close>

definition analyseStates ::
  "rlp \<Rightarrow> (bytes \<Rightarrow> bytes) \<Rightarrow> (bytes \<Rightarrow> string + StateAccount) \<Rightarrow> ShardSendState \<Rightarrow> (accounts \<times> hash2Node) go" where
  "analyseStates R H decodeBytes states =
    go_fold (analyseState R H decodeBytes (AccountsProofs states)) (AccountData states) (Map.empty, Map.empty)"

definition getCurrentKey :: "bytes \<Rightarrow> bytes \<Rightarrow> bytes" where
  "getCurrentKey pre nodeKey = pre @ nodeKey"

text \<open>Assignments through the pointer that the map holds for a hash.\<close>

definition setFullChild :: "bytes \<Rightarrow> nat \<Rightarrow> node \<Rightarrow> hash2Node \<Rightarrow> hash2Node" where
  "setFullChild hash i n m =
    (case m hash of Some (FullNode cs f) \<Rightarrow> m(hash \<mapsto> FullNode (cs[i := n]) f) | _ \<Rightarrow> m)"

definition setShortVal :: "bytes \<Rightarrow> node \<Rightarrow> hash2Node \<Rightarrow> hash2Node" where
  "setShortVal hash n m =
    (case m hash of Some (ShortNode k c f) \<Rightarrow> m(hash \<mapsto> ShortNode k n f) | _ \<Rightarrow> m)"

definition compactShortKey :: "bytes \<Rightarrow> hash2Node \<Rightarrow> hash2Node" where
  "compactShortKey hash m =
    (case m hash of Some (ShortNode k c f) \<Rightarrow> m(hash \<mapsto> ShortNode (HexToCompact k) c f) | _ \<Rightarrow> m)"

definition hashOfNode :: "rlp \<Rightarrow> (bytes \<Rightarrow> bytes) \<Rightarrow> bytes \<Rightarrow> hash2Node \<Rightarrow> (bytes \<times> hash2Node) go" where
  "hashOfNode R H hash m =
    (case m hash of None \<Rightarrow> Inl (Panic ''nil pointer dereference'')
     | Some n \<Rightarrow> go_bind (nodeToBytes R n) (\<lambda>enc. Inr (H enc, m)))"

type_synonym rebuilder = "bytes \<Rightarrow> bytes \<Rightarrow> hash2Node \<Rightarrow> (bytes \<times> hash2Node) go"

fun rebuildChildren :: "rebuilder \<Rightarrow> bytes \<Rightarrow> bytes \<Rightarrow> nat \<Rightarrow> node list \<Rightarrow> hash2Node \<Rightarrow> hash2Node go" where
  "rebuildChildren rebuild hash pre i [] m = Inr m"
| "rebuildChildren rebuild hash pre i (child # cs) m =
    (case child of
       NilNode \<Rightarrow> rebuildChildren rebuild hash pre (i + 1) cs m
     | HashNode childHash \<Rightarrow>
         go_bind (rebuild childHash (getCurrentKey pre [word_of_nat i]) m) (\<lambda>(temp, m1).
         rebuildChildren rebuild hash pre (i + 1) cs (setFullChild hash i (HashNode temp) m1))
     | _ \<Rightarrow> Inl (Exit ''fullnode's not nil child is not of HashNode type?! why?''))"

fun rebuildHelper ::
  "nat \<Rightarrow> rlp \<Rightarrow> (bytes \<Rightarrow> bytes) \<Rightarrow> (StateAccount \<Rightarrow> string + bytes) \<Rightarrow> (bytes \<rightharpoonup> StateAccount) \<Rightarrow> rebuilder" where
  "rebuildHelper 0 R H encodeToBytes upd hash pre m = Inl (Blocked ''fuel'')"
| "rebuildHelper (Suc fuel) R H encodeToBytes upd hash pre m =
    (case m hash of
       None \<Rightarrow> Inr (hash, m)
     | Some (FullNode cs f) \<Rightarrow>
         go_bind (rebuildChildren (rebuildHelper fuel R H encodeToBytes upd) hash pre 0 cs m) (hashOfNode R H hash)
     | Some (ShortNode k c f) \<Rightarrow>
         (let curKey = getCurrentKey pre k
          in case c of
               HashNode h \<Rightarrow>
                 go_bind (rebuildHelper fuel R H encodeToBytes upd h curKey m) (\<lambda>(temp, m1).
                 hashOfNode R H hash (compactShortKey hash (setShortVal hash (HashNode temp) m1)))
             | ValueNode v \<Rightarrow>
                 go_bind (hexToKeybytes curKey) (\<lambda>recoverAddressHash.
                 go_bind (case upd recoverAddressHash of
                            None \<Rightarrow> Inr m
                          | Some stateAccount \<Rightarrow>
                              (case encodeToBytes stateAccount of
                                 Inl e \<Rightarrow> Inl (Exit ''rlp encode err'')
                               | Inr encodedBytes \<Rightarrow> Inr (setShortVal hash (ValueNode encodedBytes) m)))
                   (\<lambda>m1. hashOfNode R H hash (compactShortKey hash m1)))
             | _ \<Rightarrow> Inl (Exit ''shortnode's val unknown type''))
     | Some _ \<Rightarrow> Inl (Exit ''unknown node type''))"

definition rebuildFuel :: nat where
  "rebuildFuel = 65"

definition rebuildTrie ::
  "rlp \<Rightarrow> (bytes \<Rightarrow> bytes) \<Rightarrow> (StateAccount \<Rightarrow> string + bytes) \<Rightarrow> bytes \<Rightarrow> hash2Node \<Rightarrow> (bytes \<rightharpoonup> StateAccount) \<Rightarrow> bytes go" where
  "rebuildTrie R H encodeToBytes trieRoot m upd =
    go_bind (rebuildHelper rebuildFuel R H encodeToBytes upd trieRoot [] m) (\<lambda>(root, _). Inr (BytesToHash root))"

definition Finalize ::
  "rlp \<Rightarrow> (bytes \<Rightarrow> bytes) \<Rightarrow> (StateAccount \<Rightarrow> string + bytes) \<Rightarrow> (Transaction list \<Rightarrow> bytes) \<Rightarrow> Header \<Rightarrow> Transaction list \<Rightarrow>
    hash2Node \<Rightarrow> bytes \<Rightarrow> (bytes \<rightharpoonup> StateAccount) \<Rightarrow> Block go" where
  "Finalize R H encodeToBytes DeriveSha header txs m trieRoot upd =
    go_bind (rebuildTrie R H encodeToBytes trieRoot m upd) (\<lambda>newTrieRoot.
    Inr (NewBlock DeriveSha (header\<lparr>hRoot := newTrieRoot\<rparr>) txs))"

section \<open>The tree after the changes\<close>

fun retree :: "(bytes \<Rightarrow> bytes \<Rightarrow> bytes) \<Rightarrow> bytes \<Rightarrow> pt \<Rightarrow> pt"
  and retrees :: "(bytes \<Rightarrow> bytes \<Rightarrow> bytes) \<Rightarrow> bytes \<Rightarrow> nat \<Rightarrow> pt list \<Rightarrow> pt list" where
  "retree g pre PNil = PNil"
| "retree g pre (PVal v) = PVal (g pre v)"
| "retree g pre (PShort p c) = PShort p (retree g (pre @ p) c)"
| "retree g pre (PFull ts) = PFull (retrees g pre 0 ts)"
| "retrees g pre i [] = []"
| "retrees g pre i (t # ts) = retree g (pre @ [word_of_nat i]) t # retrees g pre (Suc i) ts"

fun nodesOf :: "pt \<Rightarrow> pt list" where
  "nodesOf (PShort k c) = PShort k c # nodesOf c"
| "nodesOf (PFull ts) = PFull ts # concat (map nodesOf ts)"
| "nodesOf t = []"

fun bigVals :: "pt \<Rightarrow> bool" where
  "bigVals (PVal v) = (32 \<le> length v)"
| "bigVals (PShort k c) = bigVals c"
| "bigVals (PFull ts) = (\<forall>t\<in>set ts. bigVals t)"
| "bigVals PNil = True"

lemma length_retrees [simp]: "length (retrees g pre i ts) = length ts"
  by (induction ts arbitrary: i) auto

lemma nth_retrees: "j < length ts \<Longrightarrow> retrees g pre i ts ! j = retree g (pre @ [word_of_nat (i + j)]) (ts ! j)"
proof (induction ts arbitrary: i j)
  case (Cons t ts)
  then show ?case by (cases j) (auto simp: add.assoc)
qed simp

lemma retree_Nil_iff [simp]: "retree g pre t = PNil \<longleftrightarrow> t = PNil"
  by (cases t) auto

lemma retree_isNode [simp]: "isNode (retree g pre t) = isNode t"
  by (cases t) auto

lemma occupied_retrees [simp]: "occupied (retrees g pre i ts) = occupied ts"
  unfolding occupied_def by (intro filter_cong) (auto simp: nth_retrees)

lemma pget_retree: "pget (retree g pre t) k = map_option (g (pre @ k)) (pget t k)" if "canonAt k t"
  using that
proof (induction t k arbitrary: pre rule: pget.induct)
  case (2 v k)
  then show ?case by (auto simp: canonAt_def split: if_splits)
next
  case (3 p t k)
  have k: "hexKey k" "canon (PShort p t)" using 3(2) by (auto simp: canonAt_def split: if_splits)
  show ?case
  proof (cases "prefix p k")
    case True
    from 3(1)[OF True canonAt_short[OF k(2,1) True], of "pre @ p"] True show ?thesis by (auto simp: prefix_def)
  qed simp
next
  case (5 ts x k)
  have k: "hexKey (x # k)" "canon (PFull ts)" using 5(2) by (auto simp: canonAt_def)
  note child = canonAt_child[OF k(2,1)]
  from 5(1)[OF child(2,1), of "pre @ [x]"] child(2) show ?case by (simp add: nth_retrees)
qed auto

text \<open>New values are as large as accounts are.\<close>

definition accountSized :: "(bytes \<Rightarrow> bytes \<Rightarrow> bytes) \<Rightarrow> bool" where
  "accountSized g \<longleftrightarrow> (\<forall>k v. (32 \<le> length v \<longrightarrow> 32 \<le> length (g k v)) \<and> (length v < 2 ^ 32 \<longrightarrow> length (g k v) < 2 ^ 32))"

lemma in_retrees: "t \<in> set (retrees g pre i ts) \<Longrightarrow> \<exists>u\<in>set ts. \<exists>q. t = retree g q u"
  by (induction ts arbitrary: i) auto

lemma bigVals_retree: "bigVals t \<Longrightarrow> accountSized g \<Longrightarrow> bigVals (retree g pre t)"
proof (induction t arbitrary: pre)
  case (PFull ts)
  then show ?case by (auto dest!: in_retrees)
qed (auto simp: accountSized_def)

lemma fits_retree: "fits t \<Longrightarrow> accountSized g \<Longrightarrow> fits (retree g pre t)"
proof (induction t arbitrary: pre)
  case (PFull ts)
  then show ?case by (auto dest!: in_retrees)
qed (auto simp: accountSized_def)

lemma canon_retree:
  assumes "canon t" "bigVals t" "accountSized g"
  shows "canon (retree g pre t)"
  using assms(1,2)
proof (induction arbitrary: pre rule: canon.induct)
  case canon_Nil
  then show ?case by (simp add: canon.canon_Nil)
next
  case (canon_Leaf p v)
  then have "32 \<le> length (g (pre @ p) v)" using assms(3) by (simp add: accountSized_def)
  then show ?case using canon_Leaf(1) by (auto intro: canon.canon_Leaf)
next
  case (canon_Ext p ts)
  then show ?case using canon_Ext(4)[of "pre @ p"] by (auto intro: canon.canon_Ext)
next
  case (canon_Full ts)
  have "slotOk i (retrees g pre 0 ts ! i)" if i: "i < 17" for i
  proof (cases "i = 16")
    case True
    have "ts ! 16 \<in> set ts" using canon_Full(1) by simp
    then have "bigVals (ts ! 16)" using canon_Full(6) by auto
    have e: "retrees g pre 0 ts ! 16 = retree g (pre @ [16]) (ts ! 16)"
      using nth_retrees[of 16 ts g pre 0] canon_Full(1) by simp
    from canon_Full(3) have "slotOk 16 (retree g (pre @ [16]) (ts ! 16))"
    proof
      assume "\<exists>v. v \<noteq> [] \<and> ts ! 16 = PVal v"
      then obtain v where v: "ts ! 16 = PVal v" by blast
      with \<open>bigVals (ts ! 16)\<close> assms(3) have "32 \<le> length (g (pre @ [16]) v)" by (simp add: accountSized_def)
      then have "g (pre @ [16]) v \<noteq> []" by auto
      with v show ?thesis by (simp add: slotOk_def)
    qed (simp add: slotOk_def)
    with e True show ?thesis by simp
  next
    case False
    have "ts ! i \<in> set ts" using canon_Full(1) i by simp
    with False i canon_Full(1,6) canon_Full(5)[of i] show ?thesis by (simp add: slotOk_def nth_retrees)
  qed
  with canon_Full(1,4) show ?case by (simp add: canon_Full_iff)
qed

lemma retree_unchanged:
  assumes "canon t" "bigVals t" "accountSized g" "\<And>k v. hexKey k \<Longrightarrow> pget t k = Some v \<Longrightarrow> g (pre @ k) v = v"
  shows "retree g pre t = t"
proof (rule canon_unique[OF canon_retree[OF assms(1-3)] assms(1)])
  fix k assume k: "hexKey k"
  then have "canonAt k t" using assms(1) by (auto simp: canonAt_def)
  from pget_retree[OF this, of g pre] assms(4)[OF k] show "pget (retree g pre t) k = pget t k"
    by (cases "pget t k") auto
qed

lemma pathOf_nodesOf: "u \<in> set (pathOf t k) \<Longrightarrow> u \<in> set (nodesOf t)"
  by (induction t k rule: pathOf.induct) (auto split: if_splits)

lemma pathOf_self: "isNode t \<Longrightarrow> k \<noteq> [] \<Longrightarrow> t \<in> set (pathOf t k)"
  by (cases t; cases k) auto

context rlp_codec
begin

lemma encP_big:
  assumes "hash32 H" "canon t" "bigVals t" "fits t" "isNode t"
  shows "32 \<le> length (encP R H t)"
  using assms(2-)
proof (induction rule: canon.induct)
  case (canon_Leaf p v)
  have "length v < maxLen" using canon_Leaf(4) by (simp add: maxLen_def)
  from length_WriteBytes[OF this] length_ListOf[OF content_bounds(1)[OF assms(1) canon_Leaf(4)]] canon_Leaf(3)
  show ?case by (simp add: refOf_def)
next
  case (canon_Ext p ts)
  then have "32 \<le> length (encP R H (PFull ts))" by simp
  then have "32 \<le> length (refP R H (PFull ts))"
    using length_WriteBytes[of "H (encP R H (PFull ts))"] hash32_length[OF assms(1)] by (simp add: refOf_def maxLen_def)
  with length_ListOf[OF content_bounds(1)[OF assms(1) canon_Ext(6)]] show ?case by simp
next
  case (canon_Full ts)
  obtain i where i: "i < 17" "ts ! i \<noteq> PNil" using occupied_two[OF canon_Full(4)] canon_Full(1) by metis
  have m: "ts ! i \<in> set ts" using i(1) canon_Full(1) by simp
  have f: "fits (ts ! i)" "bigVals (ts ! i)" using canon_Full(6,7) m by auto
  have "32 \<le> length (refP R H (ts ! i))"
  proof (cases "i = 16")
    case True
    with i(2) canon_Full(3) obtain v where v: "ts ! i = PVal v" by auto
    with f length_WriteBytes[of v] show ?thesis by (simp add: refOf_def maxLen_def)
  next
    case False
    with i have n: "i < 16" "canon (ts ! i)" "isNode (ts ! i)" using canon_Full(2)[of i] canon_isNode by auto
    from canon_Full(5)[OF n(1) f(2,1) n(3)] show ?thesis
      using n(3) length_WriteBytes[of "H (encP R H (ts ! i))"] hash32_length[OF assms(1)] by (simp add: refOf_def maxLen_def)
  qed
  also have "\<dots> \<le> length (concat (map (refP R H) ts))" using m by (simp add: length_concat member_le_sum_list)
  also have "\<dots> \<le> length (encP R H (PFull ts))"
    using length_ListOf[OF content_bounds(2)[OF assms(1) canon_Full(7)]] by simp
  finally show ?case .
qed simp

end

section \<open>Rebuilding computes the root of the changed tree\<close>

definition hashesOf :: "rlp \<Rightarrow> (bytes \<Rightarrow> bytes) \<Rightarrow> pt \<Rightarrow> bytes list" where
  "hashesOf R H t = map (\<lambda>u. H (encP R H u)) (nodesOf t)"

definition newRef :: "rlp \<Rightarrow> (bytes \<Rightarrow> bytes) \<Rightarrow> pt \<Rightarrow> node" where
  "newRef R H c = (if c = PNil then NilNode else HashNode (H (encP R H c)))"

definition rebuildsTo :: "rlp \<Rightarrow> (bytes \<Rightarrow> bytes) \<Rightarrow> rebuilder \<Rightarrow> (bytes \<Rightarrow> bytes \<Rightarrow> bytes) \<Rightarrow> bytes \<Rightarrow> hash2Node \<Rightarrow> pt \<Rightarrow> bool" where
  "rebuildsTo R H rebuild g pre m t \<longleftrightarrow>
    (\<forall>m'. (\<forall>h\<in>set (hashesOf R H t). m' h = m h) \<longrightarrow>
      (\<exists>m''. rebuild (H (encP R H t)) pre m' = Inr (H (encP R H (retree g pre t)), m'') \<and>
        (\<forall>h. h \<notin> set (hashesOf R H t) \<longrightarrow> m'' h = m' h)))"

lemma hashesOf_simps:
  "hashesOf R H (PShort k c) = H (encP R H (PShort k c)) # hashesOf R H c"
  "hashesOf R H (PFull ts) = H (encP R H (PFull ts)) # concat (map (hashesOf R H) ts)"
  "hashesOf R H PNil = []" "hashesOf R H (PVal v) = []"
  by (simp_all add: hashesOf_def[abs_def] map_concat o_def del: encP.simps)

lemma hashesOf_self: "isNode t \<Longrightarrow> H (encP R H t) \<in> set (hashesOf R H t)"
  by (cases t) (auto simp: hashesOf_def simp del: encP.simps)

lemma rebuildsToI:
  assumes "\<And>m'. (\<And>h. h \<in> set (hashesOf R H t) \<Longrightarrow> m' h = m h) \<Longrightarrow>
    \<exists>m''. rebuild (H (encP R H t)) pre m' = Inr (H (encP R H (retree g pre t)), m'') \<and>
      (\<forall>h. h \<notin> set (hashesOf R H t) \<longrightarrow> m'' h = m' h)"
  shows "rebuildsTo R H rebuild g pre m t"
  using assms unfolding rebuildsTo_def by blast

lemma rebuildChildren_spec:
  assumes "\<And>j. j < length ts \<Longrightarrow> ts ! j = PNil \<or> isNode (ts ! j) \<and> 32 \<le> length (encP R H (ts ! j)) \<and>
      rebuildsTo R H rebuild g (pre @ [word_of_nat (i + j)]) m (ts ! j)"
    and "distinct (concat (map (hashesOf R H) ts))" "hash \<notin> set (concat (map (hashesOf R H) ts))"
    and "m hash = Some (FullNode cs f)" "drop i cs = map (decodedRef R H) ts" "i \<le> length cs"
  shows "\<exists>m'. rebuildChildren rebuild hash pre i (map (decodedRef R H) ts) m = Inr m' \<and>
    m' hash = Some (FullNode (take i cs @ map (newRef R H) (retrees g pre i ts)) f) \<and>
    (\<forall>h. h \<noteq> hash \<longrightarrow> h \<notin> set (concat (map (hashesOf R H) ts)) \<longrightarrow> m' h = m h)"
  using assms
proof (induction ts arbitrary: i m cs)
  case Nil
  then show ?case by simp
next
  case (Cons t ts)
  have i: "i < length cs" "cs ! i = decodedRef R H t" "drop (Suc i) cs = map (decodedRef R H) ts"
    using drop_ConsD[of i cs] Cons.prems(5) by auto
  have rest: "ts ! j = PNil \<or> isNode (ts ! j) \<and> 32 \<le> length (encP R H (ts ! j)) \<and>
      rebuildsTo R H rebuild g (pre @ [word_of_nat (Suc i + j)]) m (ts ! j)" if "j < length ts" for j
    using Cons.prems(1)[of "Suc j"] that by (simp add: add.assoc)
  show ?case
  proof (cases "t = PNil")
    case True
    have "take (Suc i) cs = take i cs @ [NilNode]" using i True by (simp add: take_Suc_conv_app_nth decodedRef_def)
    with Cons.IH[OF rest _ _ Cons.prems(4) i(3)] Cons.prems(2,3) i(1) True show ?thesis
      by (auto simp: decodedRef_def newRef_def hashesOf_simps)
  next
    case False
    then have t: "isNode t" "32 \<le> length (encP R H t)" "rebuildsTo R H rebuild g (pre @ [word_of_nat i]) m t"
      using Cons.prems(1)[of 0] by auto
    then obtain m1 where m1: "rebuild (H (encP R H t)) (pre @ [word_of_nat i]) m =
        Inr (H (encP R H (retree g (pre @ [word_of_nat i]) t)), m1)" "\<And>h. h \<notin> set (hashesOf R H t) \<Longrightarrow> m1 h = m h"
      unfolding rebuildsTo_def by blast
    let ?n = "HashNode (H (encP R H (retree g (pre @ [word_of_nat i]) t)))"
    let ?m2 = "setFullChild hash i ?n m1"
    have m2: "?m2 hash = Some (FullNode (cs[i := ?n]) f)" "\<And>h. h \<noteq> hash \<Longrightarrow> ?m2 h = m1 h"
      using m1(2)[of hash] Cons.prems(3,4) by (auto simp: setFullChild_def)
    have same: "?m2 h = m h" if "h \<in> set (concat (map (hashesOf R H) ts))" for h
    proof -
      have "h \<noteq> hash" "h \<notin> set (hashesOf R H t)" using that Cons.prems(2,3) by auto
      then show ?thesis using m2(2) m1(2) by simp
    qed
    have "ts ! j = PNil \<or> isNode (ts ! j) \<and> 32 \<le> length (encP R H (ts ! j)) \<and>
        rebuildsTo R H rebuild g (pre @ [word_of_nat (Suc i + j)]) ?m2 (ts ! j)" if j: "j < length ts" for j
    proof -
      have "ts ! j \<in> set ts" using j by simp
      then have "?m2 h = m h" if "h \<in> set (hashesOf R H (ts ! j))" for h using same that by auto
      with rest[OF j] show ?thesis unfolding rebuildsTo_def by auto
    qed
    from Cons.IH[OF this _ _ m2(1)] Cons.prems(2,3) i obtain m' where
      m': "rebuildChildren rebuild hash pre (Suc i) (map (decodedRef R H) ts) ?m2 = Inr m'"
      "m' hash = Some (FullNode (take (Suc i) (cs[i := ?n]) @ map (newRef R H) (retrees g pre (Suc i) ts)) f)"
      "\<forall>h. h \<noteq> hash \<longrightarrow> h \<notin> set (concat (map (hashesOf R H) ts)) \<longrightarrow> m' h = ?m2 h" by auto
    have "take (Suc i) (cs[i := ?n]) = take i cs @ [?n]" using i(1) by (simp add: take_Suc_conv_app_nth)
    moreover have "decodedRef R H t = HashNode (H (encP R H t))" using t by (simp add: decodedRef_def)
    ultimately show ?thesis using m1 m' m2(2) False
      by (auto simp: getCurrentKey_def newRef_def simp del: encP.simps)
  qed
qed

text \<open>
  What the map has to hold for a subtree below the key prefix \<open>pre\<close>: nothing but its decoded nodes, and
  all nodes on the path of every key whose value changes. Keys have a fixed length.
\<close>

definition rebuildable ::
  "rlp \<Rightarrow> (bytes \<Rightarrow> bytes) \<Rightarrow> (bytes \<Rightarrow> bytes \<Rightarrow> bytes) \<Rightarrow> nat \<Rightarrow> bytes \<Rightarrow> hash2Node \<Rightarrow> pt \<Rightarrow> bool" where
  "rebuildable R H g n pre m s \<longleftrightarrow>
    (\<forall>u\<in>set (nodesOf s). m (H (encP R H u)) = None \<or> m (H (encP R H u)) = Some (decoded R H (Some (H (encP R H u))) u)) \<and>
    (\<forall>k v. hexKey k \<longrightarrow> pget s k = Some v \<longrightarrow> length k = n \<and> (\<exists>kb. pre @ k = keybytesToHex kb) \<and>
      (g (pre @ k) v \<noteq> v \<longrightarrow> (\<forall>u\<in>set (pathOf s k). m (H (encP R H u)) \<noteq> None)))"

lemma rebuildable_cong:
  assumes "rebuildable R H g n pre m s" "\<And>h. h \<in> set (hashesOf R H s) \<Longrightarrow> m' h = m h"
  shows "rebuildable R H g n pre m' s"
proof -
  have e: "m' (H (encP R H u)) = m (H (encP R H u))" if "u \<in> set (nodesOf s)" for u
    using assms(2) that by (simp add: hashesOf_def)
  have "m' (H (encP R H u)) = m (H (encP R H u))" if "u \<in> set (pathOf s k)" for u k
    using e pathOf_nodesOf[OF that] by blast
  with e assms(1) show ?thesis unfolding rebuildable_def by metis
qed

lemma rebuildable_node:
  assumes "rebuildable R H g n pre m s" "isNode s"
  shows "m (H (encP R H s)) = None \<or> m (H (encP R H s)) = Some (decoded R H (Some (H (encP R H s))) s)"
proof -
  have "s \<in> set (nodesOf s)" using assms(2) by (cases s) auto
  with assms(1) show ?thesis unfolding rebuildable_def by blast
qed

lemma rebuildable_short:
  assumes "rebuildable R H g n pre m (PShort p c)" "nibbles p"
  shows "rebuildable R H g (n - length p) (pre @ p) m c"
  unfolding rebuildable_def
proof (intro conjI allI impI)
  show "\<forall>u\<in>set (nodesOf c). m (H (encP R H u)) = None \<or> m (H (encP R H u)) = Some (decoded R H (Some (H (encP R H u))) u)"
    using assms(1) unfolding rebuildable_def by simp
  fix k v assume k: "hexKey k" "pget c k = Some v"
  then have pk: "hexKey (p @ k)" "pget (PShort p c) (p @ k) = Some v" using assms(2) by (simp_all add: hexKey_append)
  then have "length (p @ k) = n" "\<exists>kb. pre @ p @ k = keybytesToHex kb"
    "g (pre @ p @ k) v \<noteq> v \<longrightarrow> (\<forall>u\<in>set (pathOf (PShort p c) (p @ k)). m (H (encP R H u)) \<noteq> None)"
    using assms(1) unfolding rebuildable_def by blast+
  moreover have "set (pathOf c k) \<subseteq> set (pathOf (PShort p c) (p @ k))" using k(1) by auto
  ultimately show "length k = n - length p" "\<exists>kb. (pre @ p) @ k = keybytesToHex kb"
    "g ((pre @ p) @ k) v \<noteq> v \<Longrightarrow> (\<forall>u\<in>set (pathOf c k). m (H (encP R H u)) \<noteq> None)" by auto
qed

lemma rebuildable_child:
  assumes "rebuildable R H g n pre m (PFull ts)" "length ts = 17" "i < 16"
  shows "rebuildable R H g (n - 1) (pre @ [word_of_nat i]) m (ts ! i)"
  unfolding rebuildable_def
proof (intro conjI allI impI)
  have i: "ts ! i \<in> set ts" using assms(2,3) by simp
  show "\<forall>u\<in>set (nodesOf (ts ! i)). m (H (encP R H u)) = None \<or> m (H (encP R H u)) = Some (decoded R H (Some (H (encP R H u))) u)"
    using assms(1) i unfolding rebuildable_def by auto
  fix k v assume k: "hexKey k" "pget (ts ! i) k = Some v"
  have u: "unat (word_of_nat i :: byte) = i" using assms(3) by (subst unat_of_nat) simp
  have "(word_of_nat i :: byte) < 16" using assms(3) by (simp add: word_less_nat_alt u)
  with k u assms(2,3) have pk: "hexKey (word_of_nat i # k)" "pget (PFull ts) (word_of_nat i # k) = Some v"
    by (simp_all add: hexKey_Cons)
  then have "length (word_of_nat i # k :: bytes) = n" "\<exists>kb. pre @ word_of_nat i # k = keybytesToHex kb"
    "g (pre @ word_of_nat i # k) v \<noteq> v \<longrightarrow> (\<forall>u\<in>set (pathOf (PFull ts) (word_of_nat i # k)). m (H (encP R H u)) \<noteq> None)"
    using assms(1) unfolding rebuildable_def by blast+
  moreover have "set (pathOf (ts ! i) k) \<subseteq> set (pathOf (PFull ts) (word_of_nat i # k))" using u assms(2,3) by auto
  ultimately show "length k = n - 1" "\<exists>kb. (pre @ [word_of_nat i]) @ k = keybytesToHex kb"
    "g ((pre @ [word_of_nat i]) @ k) v \<noteq> v \<Longrightarrow> (\<forall>u\<in>set (pathOf (ts ! i) k). m (H (encP R H u)) \<noteq> None)" by auto
qed

text \<open>Keys of one length leave the last place of every branch empty.\<close>

lemma rebuildable_slot16:
  assumes "rebuildable R H g n pre m (PFull ts)" "canon (PFull ts)"
  shows "ts ! 16 = PNil"
proof (rule ccontr)
  assume o: "ts ! 16 \<noteq> PNil"
  have c: "length ts = 17" "2 \<le> length (occupied ts)" using assms(2) by (auto simp: canon_Full_iff)
  obtain i where i: "i < 16" "ts ! i \<noteq> PNil"
  proof -
    obtain a b where "a \<noteq> b" "a < length ts" "b < length ts" "ts ! a \<noteq> PNil" "ts ! b \<noteq> PNil" using occupied_two[OF c(2)] .
    with that[of a] that[of b] c(1) show thesis by (cases "a = 16") auto
  qed
  obtain k v where k: "hexKey (word_of_nat i # k)" "pget (PFull ts) (word_of_nat i # k) = Some v"
    using branch_key[OF assms(2) _ i(2)] i(1) by auto
  obtain l w where l: "hexKey (16 # l)" "pget (PFull ts) (16 # l) = Some w"
    using branch_key[OF assms(2) _ o] by auto
  have "(word_of_nat i :: byte) < 16" using i(1) by (simp add: word_less_nat_alt unat_of_nat)
  then have "word_of_nat i \<noteq> (16 :: byte)" by auto
  with k(1) have "k \<noteq> []" by (auto simp: hexKey_Cons)
  moreover have "l = []" using l(1) by (auto simp: hexKey_Cons)
  moreover have "length (word_of_nat i # k :: bytes) = n" "length (16 # l) = n"
    using assms(1) k l unfolding rebuildable_def by blast+
  ultimately show False by auto
qed

definition newVal :: "(StateAccount \<Rightarrow> string + bytes) \<Rightarrow> (bytes \<rightharpoonup> StateAccount) \<Rightarrow> bytes \<Rightarrow> bytes \<Rightarrow> bytes" where
  "newVal enc upd k v =
    (case hexToKeybytes k of Inl _ \<Rightarrow> v
     | Inr kb \<Rightarrow> (case upd kb of None \<Rightarrow> v | Some acc \<Rightarrow> (case enc acc of Inl _ \<Rightarrow> v | Inr b \<Rightarrow> b)))"

definition encodable :: "(StateAccount \<Rightarrow> string + bytes) \<Rightarrow> (bytes \<rightharpoonup> StateAccount) \<Rightarrow> bool" where
  "encodable enc upd \<longleftrightarrow> (\<forall>acc\<in>ran upd. \<exists>b. enc acc = Inr b \<and> 32 \<le> length b \<and> length b < 2 ^ 32)"

lemma accountSized_newVal: "encodable enc upd \<Longrightarrow> accountSized (newVal enc upd)"
  unfolding accountSized_def
proof (intro allI)
  fix k v assume e: "encodable enc upd"
  show "(32 \<le> length v \<longrightarrow> 32 \<le> length (newVal enc upd k v)) \<and> (length v < 2 ^ 32 \<longrightarrow> length (newVal enc upd k v) < 2 ^ 32)"
  proof (cases "\<exists>kb acc. hexToKeybytes k = Inr kb \<and> upd kb = Some acc")
    case True
    then obtain kb acc where a: "hexToKeybytes k = Inr kb" "upd kb = Some acc" by blast
    then have "acc \<in> ran upd" by (auto simp: ran_def)
    with e obtain b where "enc acc = Inr b" "32 \<le> length b" "length b < 2 ^ 32" unfolding encodable_def by blast
    with a show ?thesis by (simp add: newVal_def)
  next
    case False
    then have "newVal enc upd k v = v" by (auto simp: newVal_def split: sum.split option.split)
    then show ?thesis by simp
  qed
qed

lemma rebuild_unvisited:
  assumes "m (H (encP R H s)) = None" "rebuildable R H g n pre m s"
    and "isNode s" "canon s" "bigVals s" "accountSized g"
  shows "rebuildHelper (Suc f) R H enc upd (H (encP R H s)) pre m = Inr (H (encP R H (retree g pre s)), m)"
proof -
  have "g (pre @ k) v = v" if k: "hexKey k" "pget s k = Some v" for k v
  proof (rule ccontr)
    assume "g (pre @ k) v \<noteq> v"
    with k assms(2) have "\<forall>u\<in>set (pathOf s k). m (H (encP R H u)) \<noteq> None" unfolding rebuildable_def by blast
    moreover have "s \<in> set (pathOf s k)" using pathOf_self[OF assms(3), of k] k(1) by (cases k) auto
    ultimately show False using assms(1) by blast
  qed
  from retree_unchanged[OF assms(4-6) this] assms(1) show ?thesis by simp
qed

lemma rebuild_leaf:
  assumes "m (H (encP R H (PShort p (PVal v)))) = Some (decoded R H h (PShort p (PVal v)))"
    and "rebuildable R H g n pre m (PShort p (PVal v))" "hexKey p" "encodable enc upd" "g = newVal enc upd"
  shows "\<exists>m'. rebuildHelper (Suc f) R H enc upd (H (encP R H (PShort p (PVal v)))) pre m =
      Inr (H (encP R H (retree g pre (PShort p (PVal v)))), m') \<and>
    (\<forall>h. h \<notin> set (hashesOf R H (PShort p (PVal v))) \<longrightarrow> m' h = m h)"
proof -
  obtain kb where kb: "pre @ p = keybytesToHex kb"
    using assms(2,3) unfolding rebuildable_def by (metis pget.simps(2) pget.simps(3) prefix_order.order_refl drop_all order_refl)
  then have key: "hexToKeybytes (pre @ p) = Inr kb" by (simp add: hexToKeybytes_keybytesToHex)
  let ?h = "H (encP R H (PShort p (PVal v)))"
  have node: "m ?h = Some (ShortNode p (ValueNode v) (loaded h))" using assms(1) by simp
  show ?thesis
  proof (cases "upd kb")
    case None
    then have "g (pre @ p) v = v" by (simp add: assms(5) newVal_def key)
    then show ?thesis
      using node None key by (simp add: hashesOf_simps getCurrentKey_def Let_def compactShortKey_def hashOfNode_def
        nodeToBytes_def refOf_def del: encP.simps) (simp add: refOf_def)
  next
    case (Some acc)
    then have "acc \<in> ran upd" by (auto simp: ran_def)
    then obtain b where b: "enc acc = Inr b" using assms(4) unfolding encodable_def by blast
    then have "g (pre @ p) v = b" using Some by (simp add: assms(5) newVal_def key)
    then show ?thesis
      using node Some key b by (simp add: hashesOf_simps getCurrentKey_def Let_def compactShortKey_def hashOfNode_def
        setShortVal_def nodeToBytes_def refOf_def del: encP.simps) (simp add: refOf_def)
  qed
qed

context rlp_codec
begin

lemma rebuild_ext:
  assumes H: "hash32 H" and "canon (PShort p (PFull ts))" "bigVals (PFull ts)" "fits (PShort p (PFull ts))" "accountSized g"
    and "m (H (encP R H (PShort p (PFull ts)))) = Some (decoded R H h (PShort p (PFull ts)))"
    and "distinct (hashesOf R H (PShort p (PFull ts)))"
    and "rebuildsTo R H (rebuildHelper f R H enc upd) g (pre @ p) m (PFull ts)"
  shows "\<exists>m'. rebuildHelper (Suc f) R H enc upd (H (encP R H (PShort p (PFull ts)))) pre m =
      Inr (H (encP R H (retree g pre (PShort p (PFull ts)))), m') \<and>
    (\<forall>h. h \<notin> set (hashesOf R H (PShort p (PFull ts))) \<longrightarrow> m' h = m h)"
proof -
  let ?h = "H (encP R H (PShort p (PFull ts)))" and ?c = "PFull ts" and ?c' = "retree g (pre @ p) (PFull ts)"
  have c: "canon ?c" "fits ?c" using assms(2,4) by (auto elim: canon_ShortE)
  have big: "32 \<le> length (encP R H ?c)" by (rule encP_big[OF H c(1) assms(3) c(2)]) simp
  have big': "32 \<le> length (encP R H ?c')"
    by (rule encP_big[OF H canon_retree[OF c(1) assms(3,5)] bigVals_retree[OF assms(3,5)] fits_retree[OF c(2) assms(5)]]) simp
  have node: "m ?h = Some (ShortNode p (HashNode (H (encP R H ?c))) (loaded h))"
    using assms(6) big by (simp del: encP.simps)
  obtain m1 where m1: "rebuildHelper f R H enc upd (H (encP R H ?c)) (pre @ p) m = Inr (H (encP R H ?c'), m1)"
    "\<forall>h. h \<notin> set (hashesOf R H ?c) \<longrightarrow> m1 h = m h"
    using assms(8) unfolding rebuildsTo_def by blast
  have "?h \<notin> set (hashesOf R H ?c)" using assms(7) by (simp only: hashesOf_simps distinct.simps not_False_eq_True)
  with m1(2) node have m1h: "m1 ?h = Some (ShortNode p (HashNode (H (encP R H ?c))) (loaded h))" by simp
  have enc: "encP R H (retree g pre (PShort p ?c)) = ListOf R (WriteBytes R (HexToCompact p) @ WriteBytes R (H (encP R H ?c')))"
    using big' by (simp add: refOf_def)
  show ?thesis unfolding enc
    using node m1 m1h by (simp add: hashesOf_simps getCurrentKey_def Let_def compactShortKey_def hashOfNode_def
      setShortVal_def nodeToBytes_def del: encP.simps retree.simps)
qed

lemma rebuild_full:
  assumes H: "hash32 H" and "canon (PFull ts)" "bigVals (PFull ts)" "fits (PFull ts)" "accountSized g" "ts ! 16 = PNil"
    and "m (H (encP R H (PFull ts))) = Some (decoded R H h (PFull ts))"
    and "distinct (hashesOf R H (PFull ts))"
    and "\<And>i. i < 16 \<Longrightarrow> ts ! i \<noteq> PNil \<Longrightarrow> rebuildsTo R H (rebuildHelper f R H enc upd) g (pre @ [word_of_nat i]) m (ts ! i)"
  shows "\<exists>m'. rebuildHelper (Suc f) R H enc upd (H (encP R H (PFull ts))) pre m =
      Inr (H (encP R H (retree g pre (PFull ts))), m') \<and>
    (\<forall>h. h \<notin> set (hashesOf R H (PFull ts)) \<longrightarrow> m' h = m h)"
proof -
  let ?h = "H (encP R H (PFull ts))"
  have len: "length ts = 17" and sl: "\<And>i. i < 17 \<Longrightarrow> slotOk i (ts ! i)" using assms(2) by (auto simp: canon_Full_iff)
  have child: "canon (ts ! i)" "isNode (ts ! i)" "bigVals (ts ! i)" "fits (ts ! i)" "i < 16"
    if "i < 17" "ts ! i \<noteq> PNil" for i
  proof -
    show "i < 16" using that assms(6) by (cases "i = 16") auto
    then show "canon (ts ! i)" using sl[of i] by (auto simp: slotOk_def)
    then show "isNode (ts ! i)" using that(2) canon_isNode by auto
    have "ts ! i \<in> set ts" using that len by simp
    then show "bigVals (ts ! i)" "fits (ts ! i)" using assms(3,4) by auto
  qed
  have ch: "ts ! j = PNil \<or> isNode (ts ! j) \<and> 32 \<le> length (encP R H (ts ! j)) \<and>
      rebuildsTo R H (rebuildHelper f R H enc upd) g (pre @ [word_of_nat (0 + j)]) m (ts ! j)" if "j < length ts" for j
  proof (cases "ts ! j = PNil")
    case False
    have j: "j < 17" using that len by simp
    from child[OF j False] encP_big[OF H, of "ts ! j"] assms(9)[OF _ False] show ?thesis by simp
  qed simp
  have refs: "encode R (newRef R H c') = refP R H c'" if "c' \<in> set (retrees g pre 0 ts)" for c'
  proof -
    from that obtain i where i: "i < 17" "c' = retree g (pre @ [word_of_nat i]) (ts ! i)"
      using len by (auto simp: in_set_conv_nth nth_retrees)
    show ?thesis
    proof (cases "ts ! i = PNil")
      case False
      note c = child[OF i(1) False]
      have "32 \<le> length (encP R H c')" unfolding i(2)
        by (rule encP_big[OF H canon_retree[OF c(1,3) assms(5)] bigVals_retree[OF c(3) assms(5)] fits_retree[OF c(4) assms(5)]])
          (simp add: c(2))
      moreover have "isNode c'" "c' \<noteq> PNil" using c(2) False i(2) by simp_all
      ultimately show ?thesis by (simp add: newRef_def refOf_def)
    qed (simp add: i(2) newRef_def refOf_def)
  qed
  have d: "distinct (concat (map (hashesOf R H) ts))" "?h \<notin> set (concat (map (hashesOf R H) ts))"
    using assms(8) by (simp_all only: hashesOf_simps distinct.simps not_False_eq_True)
  have node: "m ?h = Some (FullNode (map (decodedRef R H) ts) (loaded h))" using assms(7) unfolding decoded_refs .
  from rebuildChildren_spec[OF ch d node] obtain m' where m':
    "rebuildChildren (rebuildHelper f R H enc upd) ?h pre 0 (map (decodedRef R H) ts) m = Inr m'"
    "m' ?h = Some (FullNode (map (newRef R H) (retrees g pre 0 ts)) (loaded h))"
    "\<forall>h. h \<noteq> ?h \<longrightarrow> h \<notin> set (concat (map (hashesOf R H) ts)) \<longrightarrow> m' h = m h" by auto
  have "map (encode R \<circ> newRef R H) (retrees g pre 0 ts) = map (refP R H) (retrees g pre 0 ts)"
    using refs by (intro map_cong) auto
  then have enc: "encode R (FullNode (map (newRef R H) (retrees g pre 0 ts)) (loaded h)) = encP R H (retree g pre (PFull ts))"
    by (simp only: encode.simps retree.simps encP.simps map_map)
  have "rebuildHelper (Suc f) R H enc upd ?h pre m = Inr (H (encP R H (retree g pre (PFull ts))), m')"
    unfolding enc[symmetric] using node m'(1,2) by (simp add: hashOfNode_def nodeToBytes_def del: encP.simps)
  then show ?thesis using m'(3) by (intro exI[of _ m']) (simp only: hashesOf_simps set_simps insert_iff, blast)
qed

lemma rebuildable_length:
  assumes "rebuildable R H g n pre m s" "canon s" "isNode s"
  shows "0 < n"
proof -
  obtain k v where k: "hexKey k" "pget s k = Some v" using canon_has_key[OF assms(2)] assms(3) by (cases s) auto
  with assms(1) have "length k = n" unfolding rebuildable_def by blast
  with k(1) show ?thesis by auto
qed

lemma rebuildHelper_refines:
  assumes H: "hash32 H" and enc: "encodable enc upd" and g: "g = newVal enc upd"
    and "canon s" "isNode s" "bigVals s" "fits s" "distinct (hashesOf R H s)" "rebuildable R H g n pre m s" "n \<le> f"
  shows "rebuildsTo R H (rebuildHelper f R H enc upd) g pre m s"
  using assms(4-)
proof (induction arbitrary: pre n f m rule: canon.induct)
  case (canon_Leaf p v)
  let ?s = "PShort p (PVal v)"
  have c: "canon ?s" using canon_Leaf(1,2) by (rule canon.canon_Leaf)
  from rebuildable_length[OF canon_Leaf(7) c canon_Leaf(3)] canon_Leaf(8) obtain f' where f: "f = Suc f'" by (cases f) auto
  show ?case unfolding f
  proof (rule rebuildsToI)
    fix m' assume "\<And>h. h \<in> set (hashesOf R H ?s) \<Longrightarrow> m' h = m h"
    with canon_Leaf(7) have r: "rebuildable R H g n pre m' ?s" by (rule rebuildable_cong)
    show "\<exists>m''. rebuildHelper (Suc f') R H enc upd (H (encP R H ?s)) pre m' = Inr (H (encP R H (retree g pre ?s)), m'') \<and>
      (\<forall>h. h \<notin> set (hashesOf R H ?s) \<longrightarrow> m'' h = m' h)"
      using rebuildable_node[OF r canon_Leaf(3)]
    proof
      assume "m' (H (encP R H ?s)) = None"
      from rebuild_unvisited[OF this r canon_Leaf(3) c canon_Leaf(4) accountSized_newVal[OF enc, folded g]] show ?thesis by blast
    qed (rule rebuild_leaf[OF _ r canon_Leaf(1) enc g])
  qed
next
  case (canon_Ext p ts)
  let ?s = "PShort p (PFull ts)"
  have c: "canon ?s" using canon_Ext(1-3) by (rule canon.canon_Ext)
  from rebuildable_length[OF canon_Ext(9) c canon_Ext(5)] canon_Ext(10) obtain f' where f: "f = Suc f'" by (cases f) auto
  have n: "n - length p \<le> f'" using canon_Ext(2,10) f by (cases p) auto
  have b: "bigVals (PFull ts)" "fits (PFull ts)" "distinct (hashesOf R H (PFull ts))"
    using canon_Ext(6-8) by (simp_all add: hashesOf_simps del: encP.simps)
  show ?case unfolding f
  proof (rule rebuildsToI)
    fix m' assume "\<And>h. h \<in> set (hashesOf R H ?s) \<Longrightarrow> m' h = m h"
    with canon_Ext(9) have r: "rebuildable R H g n pre m' ?s" by (rule rebuildable_cong)
    show "\<exists>m''. rebuildHelper (Suc f') R H enc upd (H (encP R H ?s)) pre m' = Inr (H (encP R H (retree g pre ?s)), m'') \<and>
      (\<forall>h. h \<notin> set (hashesOf R H ?s) \<longrightarrow> m'' h = m' h)"
      using rebuildable_node[OF r canon_Ext(5)]
    proof
      assume "m' (H (encP R H ?s)) = None"
      from rebuild_unvisited[OF this r canon_Ext(5) c canon_Ext(6) accountSized_newVal[OF enc, folded g]] show ?thesis by blast
    next
      assume "m' (H (encP R H ?s)) = Some (decoded R H (Some (H (encP R H ?s))) ?s)"
      from rebuild_ext[OF H c b(1) canon_Ext(7) accountSized_newVal[OF enc, folded g] this canon_Ext(8)
          canon_Ext(4)[OF _ b rebuildable_short[OF r canon_Ext(1)] n]]
      show ?thesis by simp
    qed
  qed
next
  case (canon_Full ts)
  let ?s = "PFull ts"
  have c: "canon ?s" using canon_Full(1-4) by (rule canon.canon_Full)
  from rebuildable_length[OF canon_Full(10) c canon_Full(6)] canon_Full(11) obtain f' where f: "f = Suc f'" by (cases f) auto
  have n: "n - 1 \<le> f'" using canon_Full(11) f by auto
  show ?case unfolding f
  proof (rule rebuildsToI)
    fix m' assume "\<And>h. h \<in> set (hashesOf R H ?s) \<Longrightarrow> m' h = m h"
    with canon_Full(10) have r: "rebuildable R H g n pre m' ?s" by (rule rebuildable_cong)
    have child: "rebuildsTo R H (rebuildHelper f' R H enc upd) g (pre @ [word_of_nat i]) m' (ts ! i)"
      if i: "i < 16" "ts ! i \<noteq> PNil" for i
    proof -
      have t: "ts ! i \<in> set ts" "canon (ts ! i)" using i(1) canon_Full(1,2) by simp_all
      have d: "distinct (hashesOf R H (ts ! i))"
        using canon_Full(9) t(1) by (simp add: hashesOf_simps distinct_concat_iff del: encP.simps)
      show ?thesis
        using canon_Full(7,8) t canon_isNode[OF t(2)] i(2)
        by (intro canon_Full(5)[OF i(1) _ _ _ d rebuildable_child[OF r canon_Full(1) i(1)] n]) auto
    qed
    show "\<exists>m''. rebuildHelper (Suc f') R H enc upd (H (encP R H ?s)) pre m' = Inr (H (encP R H (retree g pre ?s)), m'') \<and>
      (\<forall>h. h \<notin> set (hashesOf R H ?s) \<longrightarrow> m'' h = m' h)"
      using rebuildable_node[OF r canon_Full(6)]
    proof
      assume "m' (H (encP R H ?s)) = None"
      from rebuild_unvisited[OF this r canon_Full(6) c canon_Full(7) accountSized_newVal[OF enc, folded g]] show ?thesis by blast
    next
      assume "m' (H (encP R H ?s)) = Some (decoded R H (Some (H (encP R H ?s))) ?s)"
      from rebuild_full[OF H c canon_Full(7,8) accountSized_newVal[OF enc, folded g] rebuildable_slot16[OF r c] this canon_Full(9) child]
      show ?thesis .
    qed
  qed
qed simp

end

section \<open>Reading the response of the shard\<close>

lemma nodesOf_subTrees: "u \<in> set (nodesOf t) \<Longrightarrow> u \<in> subTrees t \<and> isNode u"
  by (induction t) auto

lemma bigVals_subTrees: "bigVals t \<Longrightarrow> s \<in> subTrees t \<Longrightarrow> bigVals s"
  by (induction t) auto

text \<open>A map that holds nothing but decoded nodes of a tree.\<close>

definition decodedFrom :: "rlp \<Rightarrow> (bytes \<Rightarrow> bytes) \<Rightarrow> pt \<Rightarrow> hash2Node \<Rightarrow> bool" where
  "decodedFrom R H t m \<longleftrightarrow>
    (\<forall>h n. m h = Some n \<longrightarrow> (\<exists>u\<in>set (nodesOf t). h = H (encP R H u) \<and> n = decoded R H (Some h) u))"

context rlp_codec
begin

lemma analyseProofs_ok:
  assumes "hash32 H" "canon t" "fits t" "set ps \<subseteq> encP R H ` set (nodesOf t)" "decodedFrom R H t m"
  shows "\<exists>m'. go_fold (analyseProof R H) ps m = Inr m' \<and> decodedFrom R H t m' \<and>
    (\<forall>p\<in>set ps. m' (H p) \<noteq> None) \<and> (\<forall>h. m h \<noteq> None \<longrightarrow> m' h \<noteq> None)"
  using assms(4,5)
proof (induction ps arbitrary: m)
  case (Cons p ps)
  obtain u where u: "u \<in> set (nodesOf t)" "p = encP R H u" using Cons.prems(1) by auto
  note n = nodesOf_subTrees[OF u(1)]
  have "decodeNode R (Some (H p)) p = Inr (decoded R H (Some (H p)) u)" unfolding u(2)
    by (rule decodeNode_encP[OF assms(1) canon_subTrees[OF assms(2)] _ fits_subTrees[OF assms(3)]]) (use n in auto)
  then have dec: "MustDecodeNode R (H p) p = Inr (decoded R H (Some (H p)) u)" by (simp add: MustDecodeNode_def)
  define m1 where "m1 = (if m (H p) \<noteq> None then m else m(H p \<mapsto> decoded R H (Some (H p)) u))"
  have m1: "analyseProof R H p m = Inr m1" "decodedFrom R H t m1" "m1 (H p) \<noteq> None" "\<forall>h. m h \<noteq> None \<longrightarrow> m1 h \<noteq> None"
    using dec Cons.prems(2) u by (auto simp: m1_def analyseProof_def decodedFrom_def)
  from Cons.IH[OF _ m1(2)] Cons.prems(1) obtain m' where "go_fold (analyseProof R H) ps m1 = Inr m'" "decodedFrom R H t m'"
    "\<forall>p\<in>set ps. m' (H p) \<noteq> None" "\<forall>h. m1 h \<noteq> None \<longrightarrow> m' h \<noteq> None" by auto
  with m1 show ?case by (intro exI[of _ m']) auto
qed simp

lemma analyseStates_fold:
  assumes "hash32 H" "canon t" "fits t" "decodedFrom R H t m"
    and "\<And>a e. (a, e) \<in> set es \<Longrightarrow> (\<exists>acc. dec e = Inr acc) \<and> (\<exists>ps. proofs a = Some ps \<and> set ps \<subseteq> encP R H ` set (nodesOf t))"
  shows "\<exists>accs' m'. go_fold (analyseState R H dec proofs) es (accs, m) = Inr (accs', m') \<and> decodedFrom R H t m' \<and>
    (\<forall>a\<in>fst ` set es. \<forall>p\<in>set (the (proofs a)). m' (H p) \<noteq> None) \<and> (\<forall>h. m h \<noteq> None \<longrightarrow> m' h \<noteq> None)"
  using assms(4-)
proof (induction es arbitrary: accs m)
  case (Cons x es)
  obtain a e where x: "x = (a, e)" by force
  obtain acc ps where a: "dec e = Inr acc" "proofs a = Some ps" "set ps \<subseteq> encP R H ` set (nodesOf t)" using Cons.prems(2)[of a e] x by auto
  obtain m1 where m1: "go_fold (analyseProof R H) ps m = Inr m1" "decodedFrom R H t m1"
    "\<forall>p\<in>set ps. m1 (H p) \<noteq> None" "\<forall>h. m h \<noteq> None \<longrightarrow> m1 h \<noteq> None"
    using analyseProofs_ok[OF assms(1-3) a(3) Cons.prems(1)] by blast
  have "(\<exists>acc. dec e = Inr acc) \<and> (\<exists>ps. proofs a = Some ps \<and> set ps \<subseteq> encP R H ` set (nodesOf t))"
    if "(a, e) \<in> set es" for a e by (intro Cons.prems(2)) (simp add: that)
  from Cons.IH[OF m1(2) this, of "accs(a \<mapsto> acc)"] obtain accs' m' where
    "go_fold (analyseState R H dec proofs) es (accs(a \<mapsto> acc), m1) = Inr (accs', m')" "decodedFrom R H t m'"
    "\<forall>a\<in>fst ` set es. \<forall>p\<in>set (the (proofs a)). m' (H p) \<noteq> None" "\<forall>h. m1 h \<noteq> None \<longrightarrow> m' h \<noteq> None" by blast
  moreover have "analyseState R H dec proofs x (accs, m) = Inr (accs(a \<mapsto> acc), m1)"
    using m1(1) a x by (simp add: analyseState_def)
  ultimately show ?case using m1(3,4) a(2) x by (intro exI[of _ accs'] exI[of _ m']) auto
qed simp

lemma decodedFrom_agrees:
  assumes "hash32 H" "canon t" "fits t" "inj_on H (encodings R H t)" "decodedFrom R H t m" "u \<in> set (nodesOf t)"
  shows "m (H (encP R H u)) = None \<or> m (H (encP R H u)) = Some (decoded R H (Some (H (encP R H u))) u)"
proof (cases "m (H (encP R H u))")
  case (Some n)
  with assms(5) obtain w where w: "w \<in> set (nodesOf t)" "H (encP R H u) = H (encP R H w)" "n = decoded R H (Some (H (encP R H u))) w"
    unfolding decodedFrom_def by blast
  note s = nodesOf_subTrees[OF assms(6)] nodesOf_subTrees[OF w(1)]
  have "encP R H u = encP R H w" using assms(4) w(2) s by (auto dest!: inj_onD simp: encodings_def)
  moreover have "decodeNode R (Some (H (encP R H u))) (encP R H v) = Inr (decoded R H (Some (H (encP R H u))) v)"
    if "v \<in> subTrees t \<and> isNode v" for v
    by (rule decodeNode_encP[OF assms(1) canon_subTrees[OF assms(2)] _ fits_subTrees[OF assms(3)]]) (use that in auto)
  ultimately have "decoded R H (Some (H (encP R H u))) u = n" using s w(3) by (metis sum.inject(2))
  with Some show ?thesis by simp
qed simp

lemma distinct_hashesOf:
  assumes "hash32 H" "canon t" "fits t" "inj_on H (encodings R H t)" "distinct (nodesOf t)"
  shows "distinct (hashesOf R H t)"
  unfolding hashesOf_def distinct_map
proof (intro conjI assms(5) inj_onI)
  fix u w assume u: "u \<in> set (nodesOf t)" "w \<in> set (nodesOf t)" "H (encP R H u) = H (encP R H w)"
  note s = nodesOf_subTrees[OF u(1)] nodesOf_subTrees[OF u(2)]
  have e: "encP R H u = encP R H w" using assms(4) u(3) s by (auto dest!: inj_onD simp: encodings_def)
  have "encodings R H u \<union> encodings R H w \<subseteq> encodings R H t"
    using s subTrees_trans[of u t] subTrees_trans[of w t] by (auto simp: encodings_def)
  from encP_inj[OF assms(1) canon_subTrees canon_subTrees fits_subTrees fits_subTrees inj_on_subset[OF assms(4) this] e]
  show "u = w" using assms(2,3) s by blast
qed

end

section \<open>The root of the next block\<close>

text \<open>Keys are hashes, values are encoded accounts.\<close>

definition accountMap :: "(bytes \<rightharpoonup> bytes) \<Rightarrow> bool" where
  "accountMap c \<longleftrightarrow> (\<forall>k v. c k = Some v \<longrightarrow> length k = 32 \<and> 32 \<le> length v \<and> length v < 2 ^ 32)"

text \<open>The response of a shard that serves its trie: accounts that decode, each with the nodes that the prover stored.\<close>

definition honestResponse ::
  "rlp \<Rightarrow> (bytes \<Rightarrow> bytes) \<Rightarrow> nodeReader \<Rightarrow> Trie \<Rightarrow> (bytes \<Rightarrow> string + StateAccount) \<Rightarrow> ShardSendState \<Rightarrow> bool" where
  "honestResponse R H db tr dec states \<longleftrightarrow>
    (\<forall>(a, e)\<in>set (AccountData states). (\<exists>acc. dec e = Inr acc) \<and>
      (\<exists>pd ps. Prove R H db (H a) 0 tr Map.empty = (Inr (), pd) \<and> AccountsProofs states a = Some ps \<and> set ps = ran pd))"

text \<open>The contents of the state trie after the changed accounts are written to it.\<close>

definition afterBlock :: "(StateAccount \<Rightarrow> string + bytes) \<Rightarrow> (bytes \<rightharpoonup> StateAccount) \<Rightarrow> (bytes \<rightharpoonup> bytes) \<Rightarrow> (bytes \<rightharpoonup> bytes)" where
  "afterBlock enc upd c =
    (\<lambda>k. case upd k of None \<Rightarrow> c k | Some acc \<Rightarrow> (case enc acc of Inl _ \<Rightarrow> c k | Inr b \<Rightarrow> Some b))"

lemma canon_bigVals:
  assumes "canon t" "\<And>k v. hexKey k \<Longrightarrow> pget t k = Some v \<Longrightarrow> 32 \<le> length v"
  shows "bigVals t"
  using assms
proof (induction rule: canon.induct)
  case (canon_Leaf p v)
  from canon_Leaf(3)[of p v] canon_Leaf(1) show ?case by simp
next
  case (canon_Ext p ts)
  have "bigVals (PFull ts)"
  proof (rule canon_Ext(4))
    fix k v assume "hexKey k" "pget (PFull ts) k = Some v"
    then show "32 \<le> length v" using canon_Ext(5)[of "p @ k" v] canon_Ext(1) by (simp add: hexKey_append)
  qed
  then show ?case by simp
next
  case (canon_Full ts)
  have "bigVals (ts ! i)" if i: "i < 17" for i
  proof (cases "i = 16")
    case True
    then show ?thesis using canon_Full(3) canon_Full(6)[of "[16]"] canon_Full(1) by (auto simp: hexKey_Cons)
  next
    case False
    then have i16: "i < 16" using i by simp
    have u: "unat (word_of_nat i :: byte) = i" using i by (subst unat_of_nat) simp
    have w: "(word_of_nat i :: byte) < 16" using i16 by (simp add: word_less_nat_alt u)
    show ?thesis
    proof (rule canon_Full(5)[OF i16])
      fix k v assume "hexKey k" "pget (ts ! i) k = Some v"
      then show "32 \<le> length v" using canon_Full(6)[of "word_of_nat i # k" v] canon_Full(1) i u w by (simp add: hexKey_Cons)
    qed
  qed
  with canon_Full(1) show ?case by (auto simp: in_set_conv_nth)
qed simp

lemma newVal_at: "newVal enc upd (keybytesToHex key) v = (case upd key of None \<Rightarrow> v | Some acc \<Rightarrow> (case enc acc of Inl _ \<Rightarrow> v | Inr b \<Rightarrow> b))"
  by (simp add: newVal_def hexToKeybytes_keybytesToHex)

lemma treeOf_after:
  assumes "accountMap (contents ops)" "encodable enc upd" "dom upd \<subseteq> dom (contents ops)" "bigVals (treeOf ops)"
    "contents ops' = afterBlock enc upd (contents ops)"
  shows "treeOf ops' = retree (newVal enc upd) [] (treeOf ops)"
proof (rule canon_unique)
  show "canon (treeOf ops')" using treeOf_ok(1)[of ops'] by (simp add: byteTree_def)
  have c: "canon (treeOf ops)" using treeOf_ok(1)[of ops] by (simp add: byteTree_def)
  show "canon (retree (newVal enc upd) [] (treeOf ops))" by (rule canon_retree[OF c assms(4) accountSized_newVal[OF assms(2)]])
  fix k assume k: "hexKey k"
  have r: "pget (retree (newVal enc upd) [] (treeOf ops)) k = map_option (newVal enc upd k) (pget (treeOf ops) k)"
    using pget_retree[of k "treeOf ops" "newVal enc upd" "[]"] k c by (cases k) (auto simp: canonAt_def)
  show "pget (treeOf ops') k = pget (retree (newVal enc upd) [] (treeOf ops)) k"
  proof (cases "\<exists>key. k = keybytesToHex key")
    case True
    then obtain key where key: "k = keybytesToHex key" by blast
    have look: "pget (treeOf o') (keybytesToHex key) = contents o' key" for o' by (simp add: treeOf_ok(2)[symmetric] plook_def)
    show ?thesis unfolding r unfolding key look newVal_at assms(5) afterBlock_def
      using assms(3) by (cases "upd key"; cases "contents ops key") (auto split: sum.split)
  next
    case False
    then have "pget (treeOf o') k = None" for o' using treeOf_ok(1)[of o'] k by (cases "pget (treeOf o') k") (auto simp: byteTree_def)
    then show ?thesis by (simp add: r)
  qed
qed

lemma rebuildTrie_refines:
  assumes "rlp_codec R" "hash32 H" "inj_on H (encodings R H t)" "canon t" "isNode t" "bigVals t" "fits t" "distinct (nodesOf t)"
    "encodable enc upd" "rebuildable R H (newVal enc upd) rebuildFuel [] m t"
  shows "rebuildTrie R H enc (H (encP R H t)) m upd = Inr (H (encP R H (retree (newVal enc upd) [] t)))"
proof -
  have "rebuildsTo R H (rebuildHelper rebuildFuel R H enc upd) (newVal enc upd) [] m t"
    by (rule rlp_codec.rebuildHelper_refines[OF assms(1,2,9) refl assms(4-7)
        rlp_codec.distinct_hashesOf[OF assms(1,2,4,7,3,8)] assms(10) order_refl])
  moreover have "BytesToHash (H x) = H x" for x using hash32_length[OF assms(2), of x] by (simp add: BytesToHash_def)
  ultimately show ?thesis unfolding rebuildsTo_def rebuildTrie_def by fastforce
qed

lemma honest_rebuildable:
  assumes "rlp_codec R" "hash32 H" "inj_on H (encodings R H t)" "trieRep R H db tr t" "t \<noteq> PNil" "bigVals t" "fits t"
    "accountMap (plook t)" "honestResponse R H db tr dec states" "dom upd \<subseteq> H ` fst ` set (AccountData states)"
  shows "\<exists>accs m. analyseStates R H dec states = Inr (accs, m) \<and> rebuildable R H (newVal enc upd) rebuildFuel [] m t"
proof -
  have t: "canon t" "byteTree t" using assms(4) by (auto simp: trieRep_def byteTree_def)
  have ps: "\<exists>ps. AccountsProofs states a = Some ps \<and> set ps \<subseteq> encP R H ` set (nodesOf t) \<and>
      (\<forall>s\<in>set (pathOf t (keybytesToHex (H a))). encP R H s \<in> set ps) \<and> (\<exists>acc. dec e = Inr acc)"
    if a: "(a, e) \<in> set (AccountData states)" for a e
  proof -
    obtain pd ps where pd: "Prove R H db (H a) 0 tr Map.empty = (Inr (), pd)" "AccountsProofs states a = Some ps" "set ps = ran pd"
      "\<exists>acc. dec e = Inr acc"
      using assms(9) a unfolding honestResponse_def by blast
    obtain pd' where pd': "Prove R H db (H a) 0 tr Map.empty = (Inr (), pd')" "keyedBy H pd'"
      "ran pd' \<subseteq> encP R H ` set (pathOf t (keybytesToHex (H a)))"
      "\<forall>s\<in>set (pathOf t (keybytesToHex (H a))). 32 \<le> length (encP R H s) \<longrightarrow> pd' (H (encP R H s)) \<noteq> None"
      by (rule Prove_refines[OF rlp_codec.EmptyString[OF assms(1)] assms(2,4,5)])
    then have r: "set ps = ran pd'" using pd by simp
    have "encP R H s \<in> ran pd'" if s: "s \<in> set (pathOf t (keybytesToHex (H a)))" for s
    proof -
      have "32 \<le> length (encP R H s)"
        using rlp_codec.encP_big[OF assms(1,2) canon_subTrees[OF t(1)] bigVals_subTrees[OF assms(6)] fits_subTrees[OF assms(7)]]
          pathOf_subTrees[OF s] pathOf_isNode[OF s] by blast
      with pd'(4) s obtain buf where buf: "pd' (H (encP R H s)) = Some buf" by blast
      then have h: "H buf = H (encP R H s)" "buf \<in> ran pd'" using pd'(2) by (auto simp: keyedBy_def intro: ranI)
      moreover from h(2) have "buf \<in> encodings R H t" using order_trans[OF pd'(3) path_encodings] by blast
      moreover have "encP R H s \<in> encodings R H t" using pathOf_subTrees[OF s] by (simp add: encodings_def)
      ultimately show ?thesis using assms(3) by (metis inj_onD)
    qed
    with r pd(2,4) pd'(3) pathOf_nodesOf show ?thesis by blast
  qed
  obtain accs m where m: "analyseStates R H dec states = Inr (accs, m)" "decodedFrom R H t m"
    "\<forall>a\<in>fst ` set (AccountData states). \<forall>p\<in>set (the (AccountsProofs states a)). m (H p) \<noteq> None"
    using rlp_codec.analyseStates_fold[OF assms(1,2) t(1) assms(7), of Map.empty "AccountData states" dec "AccountsProofs states" Map.empty] ps
    unfolding analyseStates_def decodedFrom_def by blast
  have "rebuildable R H (newVal enc upd) rebuildFuel [] m t" unfolding rebuildable_def
  proof (intro conjI ballI allI impI)
    show "m (H (encP R H u)) = None \<or> m (H (encP R H u)) = Some (decoded R H (Some (H (encP R H u))) u)"
      if "u \<in> set (nodesOf t)" for u by (rule rlp_codec.decodedFrom_agrees[OF assms(1,2) t(1) assms(7,3) m(2) that])
    fix k v assume k: "hexKey k" "pget t k = Some v"
    then obtain key where key: "k = keybytesToHex key" using t(2) by (auto simp: byteTree_def)
    with k(2) have "plook t key = Some v" by (simp add: plook_def)
    with assms(8) have "length key = 32" by (simp add: accountMap_def)
    with key show "length k = rebuildFuel" "\<exists>kb. [] @ k = keybytesToHex kb" by (auto simp: rebuildFuel_def keybytesToHex_def)
    fix u assume c: "newVal enc upd ([] @ k) v \<noteq> v" and u: "u \<in> set (pathOf t k)"
    from c key have "key \<in> dom upd" by (auto simp: newVal_at split: option.splits)
    then obtain a e where "(a, e) \<in> set (AccountData states)" "key = H a" using assms(10) by auto
    with ps[of a e] u key m(3) show "m (H (encP R H u)) \<noteq> None" by fastforce
  qed
  with m(1) show ?thesis by blast
qed

text \<open>
  C2. The committee computes the root that the shard will have. Take any trie of accounts
  in which no two places hold the same subtree, and a response that gives, for each account of a block, the nodes that the
  prover stores for it. Reading the response succeeds, and rebuilding from it with the changed
  accounts ends within its fuel and gives the root hash that the trie itself has after the
  changed accounts were written to it, whatever operations led there. The trie is not empty, its
  keys and encoded accounts have their usual sizes, the block changes accounts that are in it,
  and the hash has no collision among the encodings of its subtrees.
\<close>

theorem committee_root_matches_trie:
  assumes "rlp_codec R" "hash32 H" "inj_on H (encodings R H (treeOf ops))" "distinct (nodesOf (treeOf ops))"
    and "accountMap (contents ops)" "contents ops \<noteq> Map.empty"
    and "runEvents (trieStep R H db) (ops @ [OpHash]) emptyTrie = Inr (outs @ [Root h], tr)"
    and "honestResponse R H db tr dec states" "StatusTrieHash states = h"
    and "dom upd \<subseteq> H ` fst ` set (AccountData states)" "dom upd \<subseteq> dom (contents ops)" "encodable enc upd"
    and "contents ops' = afterBlock enc upd (contents ops)"
    and "runEvents (trieStep R H db) (ops' @ [OpHash]) emptyTrie = Inr (outs' @ [Root h'], tr')"
  shows "\<exists>accs m. analyseStates R H dec states = Inr (accs, m) \<and> rebuildTrie R H enc (StatusTrieHash states) m upd = Inr h'"
proof -
  let ?t = "treeOf ops"
  note run = trie_run_root[OF rlp_codec.EmptyString[OF assms(1)] assms(2)]
  have t: "canon ?t" "?t \<noteq> PNil" "isNode ?t" "fits ?t" "accountMap (plook ?t)"
    using treeOf_ok[of ops] treeOf_PNil[OF assms(6)] byteTree_isNode[of ?t] byteTree_fits[of ?t] assms(5)
    by (auto simp: byteTree_def accountMap_def smallMap_def)
  have b: "bigVals ?t"
  proof (rule canon_bigVals[OF t(1)])
    fix k v assume k: "hexKey k" "pget ?t k = Some v"
    then obtain key where "k = keybytesToHex key" using treeOf_ok(1)[of ops] by (auto simp: byteTree_def)
    with k(2) t(5) show "32 \<le> length v" by (auto simp: accountMap_def plook_def)
  qed
  obtain accs m where m: "analyseStates R H dec states = Inr (accs, m)" "rebuildable R H (newVal enc upd) rebuildFuel [] m ?t"
    using honest_rebuildable[OF assms(1-3) run(2)[OF assms(7)] t(2) b t(4,5) assms(8,10)] by blast
  have "rebuildTrie R H enc (H (encP R H ?t)) m upd = Inr (H (encP R H (retree (newVal enc upd) [] ?t)))"
    by (rule rebuildTrie_refines[OF assms(1-3) t(1,3) b t(4) assms(4,12) m(2)])
  moreover have "h = H (encP R H ?t)" using run(1)[OF assms(7)] t(2) by (simp add: rootOf_def)
  moreover have "h' = H (encP R H (retree (newVal enc upd) [] ?t))"
    using run(1)[OF assms(14)] t(2) treeOf_after[OF assms(5,12,11) b assms(13)] by (simp add: rootOf_def)
  ultimately show ?thesis using m(1) assms(9) by auto
qed

section \<open>An example\<close>

text \<open>Two accounts, of which the block changes the first and the response carries only that one.\<close>

definition sampleEnc :: "StateAccount \<Rightarrow> string + bytes" where
  "sampleEnc acc = Inr (replicate 32 (word_of_int (Balance acc)))"

definition sampleAccount :: "int \<Rightarrow> StateAccount" where
  "sampleAccount b = \<lparr>Nonce = 0, Balance = b, Root = [], CodeHash = []\<rparr>"

definition sampleDec :: "bytes \<Rightarrow> string + StateAccount" where
  "sampleDec e = Inr (sampleAccount (uint (hd e)))"

definition sampleState :: "trieOp list" where
  "sampleState = [OpUpdate (sampleHash [0x10, 1]) (replicate 32 5), OpUpdate (sampleHash [0x20, 2]) (replicate 32 6)]"

definition sampleUpd :: "bytes \<rightharpoonup> StateAccount" where
  "sampleUpd = [sampleHash [0x10, 1] \<mapsto> sampleAccount 9]"

lemma sampleState_tree:
  "treeOf sampleState = PFull ((replicate 17 PNil)[1 := PShort ([0, 0, 1] @ replicate 60 0 @ [16]) (PVal (replicate 32 5)),
     2 := PShort ([0, 0, 2] @ replicate 60 0 @ [16]) (PVal (replicate 32 6))])"
  by code_simp

lemma sampleState_inj: "inj_on sampleHash (encodings stdRlp sampleHash (treeOf sampleState))"
proof -
  have e: "encodings stdRlp sampleHash (treeOf sampleState) \<subseteq> set (map (encP stdRlp sampleHash)
    [treeOf sampleState, PNil, PShort ([0, 0, 1] @ replicate 60 0 @ [16]) (PVal (replicate 32 5)), PVal (replicate 32 5),
     PShort ([0, 0, 2] @ replicate 60 0 @ [16]) (PVal (replicate 32 6)), PVal (replicate 32 6)])"
    unfolding encodings_def sampleState_tree by (simp add: numeral_eq_Suc del: encP.simps)
  have "distinct (map sampleHash (map (encP stdRlp sampleHash)
    [treeOf sampleState, PNil, PShort ([0, 0, 1] @ replicate 60 0 @ [16]) (PVal (replicate 32 5)), PVal (replicate 32 5),
     PShort ([0, 0, 2] @ replicate 60 0 @ [16]) (PVal (replicate 32 6)), PVal (replicate 32 6)]))"
    by code_simp
  then show ?thesis using inj_on_subset[OF _ e] unfolding distinct_map[of sampleHash] by blast
qed

lemma sampleState_nodes: "distinct (nodesOf (treeOf sampleState))"
  by code_simp

lemma sampleState_contents:
  "contents sampleState = [sampleHash [0x10, 1] \<mapsto> replicate 32 5, sampleHash [0x20, 2] \<mapsto> replicate 32 6]"
  by (simp add: contents_def sampleState_def)

theorem committee_root_matches_trie_witness:
  "\<exists>ps h h' accs m outs tr. runEvents (trieStep stdRlp sampleHash noDb)
      ([OpUpdate (sampleHash [0x20, 2]) (replicate 32 6), OpUpdate (sampleHash [0x10, 1]) (replicate 32 9)] @ [OpHash]) emptyTrie
      = Inr (outs @ [Root h'], tr) \<and>
    analyseStates stdRlp sampleHash sampleDec
      \<lparr>StatusTrieHash = h, AccountData = [([0x10, 1], replicate 32 5)], AccountsProofs = [[0x10, 1] \<mapsto> ps], sssHeight = 1\<rparr> = Inr (accs, m) \<and>
    rebuildTrie stdRlp sampleHash sampleEnc h m sampleUpd = Inr h'"
proof -
  let ?ops' = "[OpUpdate (sampleHash [0x20, 2]) (replicate 32 6), OpUpdate (sampleHash [0x10, 1]) (replicate 32 9)]"
  note run = trie_run_last[OF stdRlp.EmptyString hash32_sampleHash, of noDb _ OpHash]
  obtain outs h tr where r1: "runEvents (trieStep stdRlp sampleHash noDb) (sampleState @ [OpHash]) emptyTrie = Inr (outs @ [Root h], tr)"
    using run[of sampleState] by auto
  obtain outs' h' tr' where r2: "runEvents (trieStep stdRlp sampleHash noDb) (?ops' @ [OpHash]) emptyTrie = Inr (outs' @ [Root h'], tr')"
    using run[of ?ops'] by auto
  have ne: "contents sampleState \<noteq> Map.empty" by (simp add: sampleState_contents)
  obtain pd where pd: "Prove stdRlp sampleHash noDb (sampleHash [0x10, 1]) 0 tr Map.empty = (Inr (), pd)"
    "ran pd \<subseteq> encP stdRlp sampleHash ` set (pathOf (treeOf sampleState) (keybytesToHex (sampleHash [0x10, 1])))"
    by (rule Prove_refines[OF stdRlp.EmptyString hash32_sampleHash trie_run_root(2)[OF stdRlp.EmptyString hash32_sampleHash r1] treeOf_PNil[OF ne]])
  obtain ps where ps: "set ps = ran pd" using finite_list[OF finite_subset[OF pd(2)]] by auto
  let ?st = "\<lparr>StatusTrieHash = h, AccountData = [([0x10, 1], replicate 32 5)], AccountsProofs = [[0x10, 1] \<mapsto> ps], sssHeight = 1\<rparr>"
  have ok: "honestResponse stdRlp sampleHash noDb tr sampleDec ?st" using pd(1) ps by (simp add: honestResponse_def sampleDec_def)
  have acc: "accountMap (contents sampleState)"
    using hash32_length[OF hash32_sampleHash] by (auto simp: accountMap_def sampleState_contents split: if_splits)
  have after: "contents ?ops' = afterBlock sampleEnc sampleUpd (contents sampleState)"
    by (rule ext) (simp add: afterBlock_def sampleUpd_def sampleState_contents sampleEnc_def sampleAccount_def contents_def sampleState_def sampleHash_def)
  have "dom sampleUpd \<subseteq> dom (contents sampleState)" "encodable sampleEnc sampleUpd"
    "dom sampleUpd \<subseteq> sampleHash ` fst ` set (AccountData ?st)"
    by (auto simp: sampleUpd_def sampleState_contents encodable_def sampleEnc_def)
  with committee_root_matches_trie[OF stdRlp.rlp_codec_axioms hash32_sampleHash sampleState_inj sampleState_nodes acc ne r1 ok _ _ _ _ after r2]
    r2 show ?thesis by fastforce
qed

end
