(* ===== verification/Tx_Pool.thy ===== *)
theory Tx_Pool
  imports Core_Types
begin

text \<open>
  \<^verbatim>\<open>src/committee/txpool.go\<close>: the two queues of a committee leader, how clients fill
  them and how the worker takes the transactions of the next block. The mutexes
  make every operation atomic. The addresses of a block come from iterating a Go
  map, whose order is unspecified: the model keeps them as a set.
\<close>

section \<open>The pool\<close>

record TxPool =
  pending :: "Transaction list"
  pendingRollback :: "Transaction list"

definition NewTxPool :: TxPool where
  "NewTxPool = \<lparr>pending = [], pendingRollback = []\<rparr>"

definition SetPending :: "Transaction list \<Rightarrow> TxPool \<Rightarrow> TxPool" where
  "SetPending txs pool = pool\<lparr>pending := txs @ pending pool\<rparr>"

definition SetPendingRollback :: "Transaction list \<Rightarrow> TxPool \<Rightarrow> TxPool" where
  "SetPendingRollback txs pool = pool\<lparr>pendingRollback := txs @ pendingRollback pool\<rparr>"

definition AddTxWithoutLock :: "Transaction \<Rightarrow> TxPool \<Rightarrow> TxPool" where
  "AddTxWithoutLock tx pool =
    (if TXtype tx = RollbackTXType
     then pool\<lparr>pendingRollback := pendingRollback pool @ [tx]\<rparr>
     else pool\<lparr>pending := pending pool @ [tx]\<rparr>)"

definition AddTxs :: "Transaction list \<Rightarrow> TxPool \<Rightarrow> TxPool" where
  "AddTxs txs pool = fold AddTxWithoutLock txs pool"

definition PendingLen :: "TxPool \<Rightarrow> nat" where
  "PendingLen pool = length (pending pool)"

definition PendingRollbackLen :: "TxPool \<Rightarrow> nat" where
  "PendingRollbackLen pool = length (pendingRollback pool)"

definition Empty :: "TxPool \<Rightarrow> bool" where
  "Empty pool \<longleftrightarrow> PendingLen pool = 0 \<and> PendingRollbackLen pool = 0"

text \<open>
  The receipt a dropped transaction gets; the table is keyed by transaction id, a
  later transaction with the same id replaces the entry. \<^verbatim>\<open>result.SetTXReceiptV2\<close>
  takes the table.
\<close>

record TXReceipt =
  rTxID :: u64
  rConfirmTimeStamp :: u64
  rTxStatus :: u64
  rShardID :: int
  rBlockHeight :: u64

definition dropReceipt :: "u32 \<Rightarrow> Transaction \<Rightarrow> TXReceipt" where
  "dropReceipt comID tx = \<lparr>rTxID = ID tx, rConfirmTimeStamp = 0, rTxStatus = Dropped,
     rShardID = uint comID, rBlockHeight = 0\<rparr>"

definition Reset :: "u32 \<Rightarrow> TxPool \<Rightarrow> (u64 \<rightharpoonup> TXReceipt) \<times> TxPool" where
  "Reset comID pool =
    (fold (\<lambda>tx table. table(ID tx \<mapsto> dropReceipt comID tx)) (pending pool @ pendingRollback pool)
       Map.empty, NewTxPool)"

section \<open>Taking the transactions of a block\<close>

text \<open>
  Both loops walk a queue from its head. The list is what is left of the queue from
  index \<^verbatim>\<open>i\<close> on, so \<^verbatim>\<open>i >= len\<close> is the empty list; the result is what the loop appends
  to the block and the rest of the queue.
\<close>

fun pickRollback :: "int \<Rightarrow> int \<Rightarrow> Transaction list \<Rightarrow> Transaction list \<times> Transaction list" where
  "pickRollback i maxBlockSize [] = ([], [])"
| "pickRollback i maxBlockSize (tx # rest) =
    (if i = maxBlockSize then ([], tx # rest)
     else let (txs, rest') = pickRollback (i + 1) maxBlockSize rest in (tx # txs, rest'))"

definition cross2Expired :: "int \<Rightarrow> Transaction \<Rightarrow> bool" where
  "cross2Expired parentBlockHeight tx \<longleftrightarrow>
     TXtype tx = CrossTXType2 \<and>
     bigUint64 parentBlockHeight + 1 > Cross1ConfirmHeight tx + RollbackHeight tx"

fun pickPending ::
  "int \<Rightarrow> int \<Rightarrow> int \<Rightarrow> Transaction list \<Rightarrow> Transaction list \<times> Transaction list" where
  "pickPending parentBlockHeight i maxBlockSize [] = ([], [])"
| "pickPending parentBlockHeight i maxBlockSize (tx # rest) =
    (if i = maxBlockSize then ([], tx # rest)
     else if cross2Expired parentBlockHeight tx
     then pickPending parentBlockHeight (i + 1) (maxBlockSize + 1) rest
     else let (txs, rest') = pickPending parentBlockHeight (i + 1) maxBlockSize rest
          in (tx # txs, rest'))"

definition txAddrs :: "Transaction \<Rightarrow> address set go" where
  "txAddrs tx =
    (if TXtype tx = CrossTXType1 \<or> TXtype tx = RollbackTXType then Inr {Sender tx}
     else if TXtype tx = CrossTXType2 then Inr {Recipient tx}
     else if TXtype tx = IntraTXType then Inr {Sender tx, Recipient tx}
     else Inl (Exit ''Unknown Txtype''))"

definition getTxRelatedAddrs :: "Transaction list \<Rightarrow> address set go" where
  "getTxRelatedAddrs txs =
    go_fold (\<lambda>tx addrs. go_bind (txAddrs tx) (\<lambda>as. Inr (addrs \<union> as))) txs {}"

definition Pending :: "int \<Rightarrow> int \<Rightarrow> TxPool \<Rightarrow> (Transaction list \<times> address set \<times> TxPool) go" where
  "Pending maxBlockSize parentBlockHeight pool =
    (let (rtxs, rrest) = pickRollback 0 maxBlockSize (pendingRollback pool);
         (ptxs, prest) = pickPending parentBlockHeight 0 (maxBlockSize - int (length rtxs)) (pending pool);
         txs = rtxs @ ptxs
     in go_bind (getTxRelatedAddrs txs)
          (\<lambda>addrs. Inr (txs, addrs, \<lparr>pending = prest, pendingRollback = rrest\<rparr>)))"

section \<open>The queue discipline\<close>

definition poolOk :: "TxPool \<Rightarrow> bool" where
  "poolOk pool \<longleftrightarrow> (\<forall>tx\<in>set (pendingRollback pool). TXtype tx = RollbackTXType) \<and>
                  (\<forall>tx\<in>set (pending pool). TXtype tx \<noteq> RollbackTXType)"

lemma pickRollback_eq:
  "i \<le> m \<Longrightarrow> pickRollback i m q = (take (nat (m - i)) q, drop (nat (m - i)) q)"
proof (induction i m q rule: pickRollback.induct)
  case (2 i m tx rest)
  show ?case
  proof (cases "i = m")
    case False
    with 2 have "nat (m - i) = Suc (nat (m - (i + 1)))" "i + 1 \<le> m" by auto
    with 2 False show ?thesis by simp
  qed simp
qed simp

text \<open>What the second loop does: it consumes a prefix of the queue and keeps its live part.\<close>

lemma pickPending_prefix:
  "pickPending h i m q = (txs, rest) \<Longrightarrow>
   \<exists>pre. q = pre @ rest \<and> txs = filter (\<lambda>tx. \<not> cross2Expired h tx) pre"
proof (induction h i m q arbitrary: txs rest rule: pickPending.induct)
  case (2 h i m tx q)
  show ?case
  proof (cases "i = m")
    case True
    with "2.prems" show ?thesis by simp
  next
    case False
    show ?thesis
    proof (cases "cross2Expired h tx")
      case True
      with False "2.prems" "2.IH"(1)[OF False True] obtain pre
        where "q = pre @ rest" "txs = filter (\<lambda>tx. \<not> cross2Expired h tx) pre" by auto
      with True show ?thesis by (intro exI[of _ "tx # pre"]) simp
    next
      case nexp: False
      with False "2.prems" obtain txs' where "pickPending h (i + 1) m q = (txs', rest)" "txs = tx # txs'"
        by (auto split: prod.splits)
      with "2.IH"(2)[OF False nexp] obtain pre
        where "q = pre @ rest" "txs' = filter (\<lambda>tx. \<not> cross2Expired h tx) pre" by blast
      with nexp \<open>txs = tx # txs'\<close> show ?thesis by (intro exI[of _ "tx # pre"]) simp
    qed
  qed
qed simp

lemma pickPending_count:
  "pickPending h i m q = (txs, rest) \<Longrightarrow> i \<le> m \<Longrightarrow>
   int (length txs) \<le> m - i \<and> (int (length txs) < m - i \<longrightarrow> rest = [])"
  by (induction h i m q arbitrary: txs rest rule: pickPending.induct)
    (fastforce split: if_splits prod.splits)+

lemma getTxRelatedAddrs_acc:
  assumes "go_fold (\<lambda>tx addrs. go_bind (txAddrs tx) (\<lambda>as. Inr (addrs \<union> as))) txs acc = Inr addrs"
  shows "addrs = acc \<union> (\<Union>tx\<in>set txs. projr (txAddrs tx)) \<and> (\<forall>tx\<in>set txs. \<exists>as. txAddrs tx = Inr as)"
  using assms
proof (induction txs arbitrary: acc)
  case (Cons tx txs)
  then obtain as where as: "txAddrs tx = Inr as" by (auto simp: go_bind_eq_Inr_iff)
  with Cons.prems have "go_fold (\<lambda>tx addrs. go_bind (txAddrs tx) (\<lambda>as. Inr (addrs \<union> as))) txs
    (acc \<union> as) = Inr addrs" by simp
  from Cons.IH[OF this] as show ?case by auto
qed simp

lemma getTxRelatedAddrs_total:
  "(\<forall>tx\<in>set txs. \<exists>as. txAddrs tx = Inr as) \<Longrightarrow>
   go_fold (\<lambda>tx addrs. go_bind (txAddrs tx) (\<lambda>as. Inr (addrs \<union> as))) txs acc
     = Inr (acc \<union> (\<Union>tx\<in>set txs. projr (txAddrs tx)))"
  by (induction txs arbitrary: acc) auto

lemma AddTxs_queues:
  "pending (AddTxs txs pool) = pending pool @ filter (\<lambda>tx. TXtype tx \<noteq> RollbackTXType) txs"
  "pendingRollback (AddTxs txs pool) = pendingRollback pool @ filter (\<lambda>tx. TXtype tx = RollbackTXType) txs"
  by (induction txs arbitrary: pool) (auto simp: AddTxs_def AddTxWithoutLock_def)

lemma AddTxs_poolOk: "poolOk pool \<Longrightarrow> poolOk (AddTxs txs pool)"
  by (auto simp: poolOk_def AddTxs_queues)

lemma cross2_live_height:
  assumes "\<not> cross2Expired h tx" "TXtype tx = CrossTXType2"
    "0 \<le> h" "h + 1 < 2 ^ 64" "unat (Cross1ConfirmHeight tx) + unat (RollbackHeight tx) < 2 ^ 64"
  shows "h + 1 \<le> int (unat (Cross1ConfirmHeight tx) + unat (RollbackHeight tx))"
proof -
  have w: "bigUint64 h + 1 = word_of_int (h + 1)" using assms(3) by (simp add: bigUint64_def)
  have "uint (bigUint64 h + 1) = h + 1"
    unfolding w uint_word_of_int by (rule mod_pos_pos_trivial) (use assms(3,4) in simp_all)
  moreover have "unat (Cross1ConfirmHeight tx + RollbackHeight tx) =
      unat (Cross1ConfirmHeight tx) + unat (RollbackHeight tx)"
    using assms(5) by (simp add: unat_word_ariths)
  moreover have "bigUint64 h + 1 \<le> Cross1ConfirmHeight tx + RollbackHeight tx"
    using assms(1,2) by (simp add: cross2Expired_def)
  ultimately show ?thesis unfolding word_le_def by (metis uint_nat)
qed

lemma Pending_queues:
  assumes "Pending m h pool = Inr (txs, addrs, pool')" "0 \<le> m"
  shows "\<exists>rtxs pre. pendingRollback pool = rtxs @ pendingRollback pool' \<and>
    pending pool = pre @ pending pool' \<and>
    txs = rtxs @ filter (\<lambda>tx. \<not> cross2Expired h tx) pre \<and>
    int (length txs) \<le> m \<and>
    (pendingRollback pool' \<noteq> [] \<longrightarrow> pre = []) \<and>
    (int (length txs) < m \<longrightarrow> Empty pool')"
proof -
  define rtxs where "rtxs = take (nat m) (pendingRollback pool)"
  obtain ptxs prest where p: "pickPending h 0 (m - int (length rtxs)) (pending pool) = (ptxs, prest)"
    by force
  from assms p have r: "txs = rtxs @ ptxs" "pending pool' = prest"
    "pendingRollback pool' = drop (nat m) (pendingRollback pool)"
    by (auto simp: Pending_def pickRollback_eq go_bind_eq_Inr_iff rtxs_def Let_def)
  obtain pre where pre: "pending pool = pre @ prest" "ptxs = filter (\<lambda>tx. \<not> cross2Expired h tx) pre"
    using pickPending_prefix[OF p] by blast
  have len: "int (length rtxs) \<le> m" using assms(2) by (simp add: rtxs_def)
  note cnt = pickPending_count[OF p]
  have "pre = []" if "pendingRollback pool' \<noteq> []"
  proof -
    from that have "int (length rtxs) = m" using assms(2) r(3) by (simp add: rtxs_def)
    with p have "prest = pending pool" by (cases "pending pool") auto
    with pre(1) show ?thesis by simp
  qed
  moreover have "Empty pool'" if "int (length txs) < m"
    using that cnt len r by (auto simp: Empty_def PendingLen_def PendingRollbackLen_def rtxs_def)
  ultimately show ?thesis using r pre cnt len
    by (intro exI[of _ rtxs] exI[of _ pre]) (simp add: rtxs_def)
qed

section \<open>Sample data\<close>

definition samplePool :: TxPool where
  "samplePool = AddTxs
    [NewTransaction IntraTXType [1] [2] 0 5,
     (NewTransaction CrossTXType2 [3] [4] 0 6)\<lparr>Cross1ConfirmHeight := 3, RollbackHeight := 2\<rparr>,
     NewTransaction RollbackTXType [5] [6] 0 7,
     (NewTransaction CrossTXType2 [7] [8] 0 8)\<lparr>Cross1ConfirmHeight := 9, RollbackHeight := 2\<rparr>] NewTxPool"

lemma samplePool_queues:
  "pending samplePool =
    [NewTransaction IntraTXType [1] [2] 0 5,
     (NewTransaction CrossTXType2 [3] [4] 0 6)\<lparr>Cross1ConfirmHeight := 3, RollbackHeight := 2\<rparr>,
     (NewTransaction CrossTXType2 [7] [8] 0 8)\<lparr>Cross1ConfirmHeight := 9, RollbackHeight := 2\<rparr>]"
  "pendingRollback samplePool = [NewTransaction RollbackTXType [5] [6] 0 7]"
  by (simp_all add: samplePool_def AddTxs_queues NewTxPool_def) (simp_all add: NewTransaction_def)

section \<open>Properties\<close>

text \<open>
  C13. The transactions of a block. For a non-negative block size, \<^verbatim>\<open>Pending\<close> takes a prefix of the
  rollback queue followed by the live part of a prefix of the main queue, in queue order; what
  it neither takes nor drops as an expired second half stays queued, in order. The block is at
  most \<^verbatim>\<open>maxBlockSize\<close> long, the main queue is touched only when the rollback queue has been
  emptied, and a block that is not full leaves both queues empty.
\<close>

theorem Pending_block:
  assumes "Pending maxBlockSize h pool = Inr (txs, addrs, pool')" "0 \<le> maxBlockSize"
  shows "\<exists>rtxs pre. pendingRollback pool = rtxs @ pendingRollback pool' \<and>
    pending pool = pre @ pending pool' \<and>
    txs = rtxs @ filter (\<lambda>tx. \<not> cross2Expired h tx) pre \<and>
    int (length txs) \<le> maxBlockSize \<and>
    (pendingRollback pool' \<noteq> [] \<longrightarrow> pre = []) \<and>
    (int (length txs) < maxBlockSize \<longrightarrow> Empty pool')"
  by (rule Pending_queues[OF assms])

theorem Pending_block_witness:
  "\<exists>txs addrs pool'. Pending 2 5 samplePool = Inr (txs, addrs, pool') \<and>
    (\<exists>rtxs pre. pendingRollback samplePool = rtxs @ pendingRollback pool' \<and>
      pending samplePool = pre @ pending pool' \<and> int (length txs) \<le> 2)"
proof -
  obtain txs addrs pool' where "Pending 2 5 samplePool = Inr (txs, addrs, pool')"
    by (simp add: Pending_def samplePool_queues getTxRelatedAddrs_def txAddrs_def NewTransaction_def
        cross2Expired_def)
  from Pending_block[OF this] this show ?thesis by auto
qed

text \<open>
  C21. No second half is executed too late. A second half in a block built on height \<^verbatim>\<open>h\<close> has
  \<^verbatim>\<open>h + 1\<close> at most the height at which its first half was confirmed plus the rollback height,
  where the two heights do not overflow 64 bits; the types of the main queue are those
  \<^verbatim>\<open>AddTxs\<close> puts there.
\<close>

theorem Pending_no_late_cross2:
  assumes "Pending maxBlockSize h pool = Inr (txs, addrs, pool')" "0 \<le> maxBlockSize" "poolOk pool"
    "tx \<in> set txs" "TXtype tx = CrossTXType2" "0 \<le> h" "h + 1 < 2 ^ 64"
    "unat (Cross1ConfirmHeight tx) + unat (RollbackHeight tx) < 2 ^ 64"
  shows "h + 1 \<le> int (unat (Cross1ConfirmHeight tx) + unat (RollbackHeight tx))"
proof -
  obtain rtxs pre where q: "pendingRollback pool = rtxs @ pendingRollback pool'"
    "txs = rtxs @ filter (\<lambda>tx. \<not> cross2Expired h tx) pre"
    using Pending_queues[OF assms(1,2)] by blast
  then have "tx \<notin> set rtxs" using assms(3,5) by (auto simp: poolOk_def)
  with q(2) assms(4) have "\<not> cross2Expired h tx" by auto
  from cross2_live_height[OF this assms(5-8)] show ?thesis .
qed

theorem Pending_no_late_cross2_witness:
  "\<exists>txs addrs pool' tx. Pending 4 5 samplePool = Inr (txs, addrs, pool') \<and> tx \<in> set txs \<and>
    TXtype tx = CrossTXType2 \<and> 5 + 1 \<le> int (unat (Cross1ConfirmHeight tx) + unat (RollbackHeight tx))"
proof -
  let ?tx = "(NewTransaction CrossTXType2 [7] [8] 0 8)\<lparr>Cross1ConfirmHeight := 9, RollbackHeight := 2\<rparr>"
  obtain txs addrs pool' where p: "Pending 4 5 samplePool = Inr (txs, addrs, pool')" "?tx \<in> set txs"
    by (simp add: Pending_def samplePool_queues getTxRelatedAddrs_def txAddrs_def NewTransaction_def
        cross2Expired_def bigUint64_def)
  have "poolOk samplePool"
    unfolding samplePool_def by (rule AddTxs_poolOk) (simp add: poolOk_def NewTxPool_def)
  from Pending_no_late_cross2[OF p(1) _ this p(2)] p show ?thesis
    by (intro exI[of _ txs] exI[of _ addrs] exI[of _ pool'] exI[of _ ?tx]) (simp add: NewTransaction_def)
qed

lemma txAddrs_union:
  assumes "\<forall>tx\<in>set txs. TXtype tx \<in> {IntraTXType, CrossTXType1, CrossTXType2, RollbackTXType}"
  shows "(\<Union>tx\<in>set txs. projr (txAddrs tx)) =
    {Sender tx | tx. tx \<in> set txs \<and> TXtype tx \<in> {IntraTXType, CrossTXType1, RollbackTXType}} \<union>
    {Recipient tx | tx. tx \<in> set txs \<and> TXtype tx \<in> {IntraTXType, CrossTXType2}}"
proof -
  have "projr (txAddrs tx) =
      (if TXtype tx \<in> {IntraTXType, CrossTXType1, RollbackTXType} then {Sender tx} else {}) \<union>
      (if TXtype tx \<in> {IntraTXType, CrossTXType2} then {Recipient tx} else {})" if "tx \<in> set txs" for tx
    using assms that by (fastforce simp: txAddrs_def)
  then show ?thesis by (auto split: if_splits)
qed

text \<open>
  C22. Building a block does not end the process, and asks for exactly the accounts it needs: when
  every queued transaction has a known type, \<^verbatim>\<open>Pending\<close> returns, and the addresses it returns are
  the senders of the block's intra-shard transactions, first halves and rollbacks, and the
  recipients of its intra-shard transactions and second halves, and no others.
\<close>

theorem Pending_returns:
  assumes "\<forall>tx\<in>set (pending pool) \<union> set (pendingRollback pool).
      TXtype tx \<in> {IntraTXType, CrossTXType1, CrossTXType2, RollbackTXType}" "0 \<le> maxBlockSize"
  shows "\<exists>txs addrs pool'. Pending maxBlockSize h pool = Inr (txs, addrs, pool') \<and>
    addrs = {Sender tx | tx. tx \<in> set txs \<and> TXtype tx \<in> {IntraTXType, CrossTXType1, RollbackTXType}} \<union>
            {Recipient tx | tx. tx \<in> set txs \<and> TXtype tx \<in> {IntraTXType, CrossTXType2}}"
proof -
  obtain ptxs prest where p: "pickPending h 0
      (maxBlockSize - int (length (take (nat maxBlockSize) (pendingRollback pool)))) (pending pool)
      = (ptxs, prest)" by force
  define txs where "txs = take (nat maxBlockSize) (pendingRollback pool) @ ptxs"
  have "set txs \<subseteq> set (pending pool) \<union> set (pendingRollback pool)"
    using pickPending_prefix[OF p] by (auto simp: txs_def dest: in_set_takeD)
  then have types: "\<forall>tx\<in>set txs. TXtype tx \<in> {IntraTXType, CrossTXType1, CrossTXType2, RollbackTXType}"
    using assms(1) by blast
  then have "\<forall>tx\<in>set txs. \<exists>as. txAddrs tx = Inr as" by (fastforce simp: txAddrs_def)
  from getTxRelatedAddrs_total[OF this, of "{}"]
  have "getTxRelatedAddrs txs = Inr (\<Union>tx\<in>set txs. projr (txAddrs tx))"
    by (simp add: getTxRelatedAddrs_def)
  with p have "\<exists>pool'. Pending maxBlockSize h pool = Inr (txs, \<Union>tx\<in>set txs. projr (txAddrs tx), pool')"
    using assms(2) by (auto simp: Pending_def pickRollback_eq txs_def Let_def)
  then show ?thesis unfolding txAddrs_union[OF types] by blast
qed

theorem Pending_returns_witness:
  "\<exists>txs addrs pool'. Pending 4 5 samplePool = Inr (txs, addrs, pool') \<and>
    addrs = {Sender tx | tx. tx \<in> set txs \<and> TXtype tx \<in> {IntraTXType, CrossTXType1, RollbackTXType}} \<union>
            {Recipient tx | tx. tx \<in> set txs \<and> TXtype tx \<in> {IntraTXType, CrossTXType2}}"
  by (rule Pending_returns) (auto simp: samplePool_queues NewTransaction_def)

end
