(* ===== verification/Go_Gob.thy ===== *)
theory Go_Gob
  imports Prelude
begin

text \<open>
  The wire format of Go's \<^verbatim>\<open>encoding/gob\<close> for values of the basic types \<^verbatim>\<open>string\<close>, \<^verbatim>\<open>[]byte\<close> and
  \<^verbatim>\<open>int64\<close>, as far as the repository hashes it: each value is one message, a length followed by the
  type id, a zero delta and the value. Ids are 2 for integers, 5 for byte slices, 6 for strings.
\<close>

definition gobUint :: "nat \<Rightarrow> bytes" where
  "gobUint x = (if x \<le> 127 then [word_of_nat x]
                else word_of_int (- int (length (minBytes x))) # minBytes x)"

definition gobInt :: "int \<Rightarrow> bytes" where
  "gobInt i = (if i < 0 then gobUint (nat (2 * (- i - 1) + 1)) else gobUint (nat (2 * i)))"

definition gobMessage :: "bytes \<Rightarrow> bytes" where
  "gobMessage content = gobUint (length content) @ content"

definition stringBytes :: "string \<Rightarrow> bytes" where
  "stringBytes s = map (\<lambda>c. word_of_nat (of_char c)) s"

definition gobBytes :: "int \<Rightarrow> bytes \<Rightarrow> bytes" where
  "gobBytes typeId b = gobMessage (gobInt typeId @ gobUint 0 @ gobUint (length b) @ b)"

definition gobInt64 :: "int \<Rightarrow> bytes" where
  "gobInt64 i = gobMessage (gobInt 2 @ gobUint 0 @ gobInt i)"

text \<open>The code is prefix free, so a sequence of messages determines the values.\<close>

lemma gobUint_first:
  assumes "127 < x" "x < 256 ^ 8"
  shows "\<exists>n. 1 \<le> n \<and> n \<le> 8 \<and> length (minBytes x) = n \<and> unat (hd (gobUint x)) = 256 - n"
proof -
  let ?n = "length (minBytes x)"
  have "minBytes x \<noteq> []" using assms(1) by simp
  then have n: "1 \<le> ?n" "?n \<le> 8" using length_minBytes[OF assms(2)]
    by (simp_all only: length_0_conv[symmetric] One_nat_def Suc_le_eq neq0_conv)
  have "(- int ?n) mod 256 = (256 + - int ?n) mod 256" by (rule mod_add_self1[symmetric])
  also have "\<dots> = 256 + - int ?n" by (rule mod_pos_pos_trivial) (use n in linarith)+
  finally have m: "(- int ?n) mod 2 ^ LENGTH(8) = 256 - int ?n" by (simp only: len_num1 len_bit0) simp
  have "uint (word_of_int (- int ?n) :: byte) = 256 - int ?n"
    unfolding uint_word_of_int by (rule m)
  then have "unat (word_of_int (- int ?n) :: byte) = 256 - ?n"
    unfolding unat_eq_nat_uint using n by linarith
  moreover have "hd (gobUint x) = word_of_int (- int ?n)" unfolding gobUint_def using assms(1) by simp
  ultimately show ?thesis using n by metis
qed

lemma gobUint_prefix_free:
  assumes "gobUint x @ r = gobUint y @ s" "x < 256 ^ 8" "y < 256 ^ 8"
  shows "x = y \<and> r = s"
proof -
  have small: "unat (hd (gobUint z)) = z" "tl (gobUint z) = []" if "z \<le> 127" for z
    using that by (simp_all add: gobUint_def unat_of_nat)
  have ne: "gobUint z \<noteq> []" for z by (simp add: gobUint_def)
  have h: "hd (gobUint x) = hd (gobUint y)" "tl (gobUint x) @ r = tl (gobUint y) @ s"
    using assms(1) ne by (metis hd_append2, metis tl_append2)
  consider "x \<le> 127" "y \<le> 127" | "x \<le> 127" "127 < y" | "127 < x" "y \<le> 127" | "127 < x" "127 < y"
    by linarith
  then show ?thesis
  proof cases
    case 1
    with small h show ?thesis by (metis append_Nil)
  next
    case 2
    with gobUint_first[OF 2(2) assms(3)] small(1)[OF 2(1)] h(1) show ?thesis by auto
  next
    case 3
    with gobUint_first[OF 3(1) assms(2)] small(1)[OF 3(2)] h(1) show ?thesis by auto
  next
    case 4
    with gobUint_first[OF 4(1) assms(2)] gobUint_first[OF 4(2) assms(3)] h(1)
    have "length (minBytes x) = length (minBytes y)" by auto
    with h(2) 4 show ?thesis by (simp add: gobUint_def)
  qed
qed

lemma gobMessage_prefix_free:
  assumes "gobMessage a @ r = gobMessage b @ s" "length a < 256 ^ 8" "length b < 256 ^ 8"
  shows "a = b \<and> r = s"
  using gobUint_prefix_free[of "length a" "a @ r" "length b" "b @ s"] assms
  by (auto simp: gobMessage_def)

lemma gobInt_inj:
  assumes "gobInt i = gobInt j" "- (2 ^ 63) \<le> i" "i < 2 ^ 63" "- (2 ^ 63) \<le> j" "j < 2 ^ 63"
  shows "i = j"
proof -
  define z where "z k = (if k < 0 then nat (2 * (- k - 1) + 1) else nat (2 * k))" for k :: int
  have g: "gobInt k = gobUint (z k)" for k by (simp add: gobInt_def z_def)
  have b: "z k < 256 ^ 8" if "- (2 ^ 63) \<le> k" "k < 2 ^ 63" for k using that by (auto simp: z_def)
  from gobUint_prefix_free[of "z i" "[]" "z j" "[]"] assms g b have "z i = z j" by simp
  then have "int (z i) = int (z j)" by simp
  moreover have "int (z k) = (if k < 0 then - 2 * k - 1 else 2 * k)" for k by (simp add: z_def)
  ultimately have "(if i < 0 then - 2 * i - 1 else 2 * i) = (if j < 0 then - 2 * j - 1 else 2 * j)"
    by simp
  then show ?thesis by presburger
qed

lemma length_gobInt: "- (2 ^ 63) \<le> i \<Longrightarrow> i < 2 ^ 63 \<Longrightarrow> length (gobInt i) \<le> 9"
  using length_minBytes[of "nat (2 * (- i - 1) + 1)" 8] length_minBytes[of "nat (2 * i)" 8]
  by (simp add: gobInt_def gobUint_def)

lemma gobInt64_inj:
  assumes "gobInt64 i = gobInt64 j" "- (2 ^ 63) \<le> i" "i < 2 ^ 63" "- (2 ^ 63) \<le> j" "j < 2 ^ 63"
  shows "i = j"
proof -
  have "length (gobInt 2 @ gobUint 0 @ gobInt k) < 256 ^ 8" if "- (2 ^ 63) \<le> k" "k < 2 ^ 63" for k
    using length_gobInt[OF that] by (simp add: gobUint_def) (simp add: gobInt_def gobUint_def)
  from gobMessage_prefix_free[OF _ this[OF assms(2,3)] this[OF assms(4,5)], of "[]" "[]"] assms(1)
  have "gobInt i = gobInt j" by (simp add: gobInt64_def)
  with assms gobInt_inj show ?thesis by blast
qed

lemma inj_charByte: "inj (\<lambda>c. word_of_nat (of_char c) :: byte)"
proof (rule injI)
  fix x y :: char
  assume "(word_of_nat (of_char x) :: byte) = word_of_nat (of_char y)"
  then have "of_char x mod (256 :: nat) = of_char y mod 256"
    by (simp add: word_of_nat_eq_iff take_bit_eq_mod)
  then have "(of_char x :: nat) = of_char y" by simp
  then show "x = y" by (simp only: of_char_eq_iff)
qed

lemma stringBytes_inj [simp]: "stringBytes s = stringBytes t \<longleftrightarrow> s = t"
  using inj_charByte by (simp add: stringBytes_def inj_map_eq_map)

end
