(* ===== verification/Pbft.thy ===== *)
theory Pbft
  imports Core_Types Go_Gob
begin

text \<open>
  \<^verbatim>\<open>src/pbft/\<close>: one node of a committee's PBFT, its handlers and their composition into runs.
  \<^verbatim>\<open>p.lock\<close> makes each handler atomic. \<^verbatim>\<open>sequenceLock\<close> and \<^verbatim>\<open>askForLock\<close> outlive a handler and are
  part of the state, as is the number of signals waiting in the channel \<^verbatim>\<open>OneConsensusDone\<close>.

  The vote maps are keyed by \<^verbatim>\<open>*NodeInfo\<close>: decoding a message allocates a new object, so a message
  carries the identity of that object besides its content. Log output is left out.
\<close>

section \<open>Messages\<close>

record NodeInfo =
  niShardID :: u32
  niComID :: u32
  niNodeID :: u32
  niNodeAddr :: string

type_synonym nodePtr = "nat \<times> NodeInfo"

record PbftRequest =
  reqMsgType :: string
  reqMsg :: bytes
  reqTime :: int

record PrePrepare =
  ppRequestMsg :: PbftRequest
  ppDigest :: bytes
  ppSeqID :: u64

record Prepare =
  pDigest :: bytes
  pSeqID :: u64
  pSenderInfo :: nodePtr

record Commit =
  cDigest :: bytes
  cSeqID :: u64
  cSenderInfo :: nodePtr

record Reply =
  rMessageID :: u64
  rSenderInfo :: nodePtr
  rResult :: bool

record RequestOldMessage =
  romSeqStartHeight :: u64
  romSeqEndHeight :: u64
  romServerNode :: NodeInfo
  romSenderInfo :: NodeInfo

record SendOldMessage =
  somSeqStartHeight :: u64
  somSeqEndHeight :: u64
  somOldRequest :: "PbftRequest list"
  somReceiverInfo :: NodeInfo

datatype pbftOut = SendPrePrepare u32 PrePrepare
  | SendPrepare u32 bytes u64 NodeInfo
  | SendCommit u32 bytes u64 NodeInfo
  | SendReply u32 u64 NodeInfo bool
  | SendOld u32 SendOldMessage

section \<open>The node\<close>

record PbftConsensusNode =
  pNodeInfo :: NodeInfo
  node_nums :: u32
  malicious_nums :: u32
  view :: u32
  sequenceID :: u64
  requestPool :: "bytes \<rightharpoonup> PbftRequest"
  cntPrepareConfirm :: "bytes \<rightharpoonup> nat set"
  cntCommitConfirm :: "bytes \<rightharpoonup> nat set"
  isCommitBordcast :: "bytes set"
  isReply :: "bytes set"
  replyCnt :: nat
  gotEnoughReply :: "u64 set"
  height2Digest :: "u64 \<rightharpoonup> bytes"
  sequenceLock :: bool
  askForLock :: bool
  OneConsensusDone :: nat

definition NewPbftNode :: "NodeInfo \<Rightarrow> u32 \<Rightarrow> PbftConsensusNode" where
  "NewPbftNode nodeInfo shardSize =
    \<lparr>pNodeInfo = nodeInfo, node_nums = shardSize, malicious_nums = (shardSize - 1) div 3, view = 0,
     sequenceID = 0, requestPool = Map.empty, cntPrepareConfirm = Map.empty,
     cntCommitConfirm = Map.empty, isCommitBordcast = {}, isReply = {},
     replyCnt = 0, gotEnoughReply = {}, height2Digest = Map.empty, sequenceLock = False,
     askForLock = False, OneConsensusDone = 0\<rparr>"

definition pbftReset :: "PbftConsensusNode \<Rightarrow> PbftConsensusNode" where
  "pbftReset p = p\<lparr>requestPool := Map.empty, cntPrepareConfirm := Map.empty,
     cntCommitConfirm := Map.empty, isCommitBordcast := {}, isReply := {},
     replyCnt := 0, gotEnoughReply := {}, height2Digest := Map.empty\<rparr>"

text \<open>
  The three encoder calls. The only error they can raise on these types is a message above the size
  limit of \<^verbatim>\<open>encoding/gob\<close>, 8 GB; the model covers requests below it.
\<close>

definition encodedRequest :: "PbftRequest \<Rightarrow> bytes" where
  "encodedRequest r =
    gobBytes 6 (stringBytes (reqMsgType r)) @ gobBytes 5 (reqMsg r) @ gobInt64 (reqTime r)"

definition getDigest :: "(bytes \<Rightarrow> bytes) \<Rightarrow> PbftRequest \<Rightarrow> bytes" where
  "getDigest keccak r = keccak (encodedRequest r)"

definition set2DMap :: "bytes \<Rightarrow> nat \<Rightarrow> (bytes \<rightharpoonup> nat set) \<Rightarrow> (bytes \<rightharpoonup> nat set)" where
  "set2DMap key val m = m(key \<mapsto> insert val (case m key of None \<Rightarrow> {} | Some S \<Rightarrow> S))"

definition votes :: "(bytes \<rightharpoonup> nat set) \<Rightarrow> bytes \<Rightarrow> nat" where
  "votes m d = (case m d of None \<Rightarrow> 0 | Some S \<Rightarrow> card S)"

definition isLeader :: "PbftConsensusNode \<Rightarrow> bool" where
  "isLeader p \<longleftrightarrow> niNodeID (pNodeInfo p) = view p"

definition SetSequenceID :: "u64 \<Rightarrow> PbftConsensusNode \<Rightarrow> PbftConsensusNode go" where
  "SetSequenceID i p =
    (if sequenceLock p then Inl (Blocked ''sequenceLock'') else Inr (p\<lparr>sequenceID := i\<rparr>))"

definition blockRequest :: "(Block \<Rightarrow> bytes option) \<Rightarrow> Block \<Rightarrow> int \<Rightarrow> PbftRequest" where
  "blockRequest rlpBlock block now =
    \<lparr>reqMsgType = ''*block'', reqMsg = (case rlpBlock block of None \<Rightarrow> [] | Some b \<Rightarrow> b), reqTime = now\<rparr>"

definition Propose ::
  "(bytes \<Rightarrow> bytes) \<Rightarrow> (Block \<Rightarrow> bytes option) \<Rightarrow> Block \<Rightarrow> int \<Rightarrow> PbftConsensusNode \<Rightarrow>
   (pbftOut list \<times> PbftConsensusNode) go" where
  "Propose keccak rlpBlock block now p =
    (if view p \<noteq> niNodeID (pNodeInfo p) then Inr ([], p)
     else if sequenceLock p then Inl (Blocked ''sequenceLock'')
     else let r = blockRequest rlpBlock block now;
              digest = getDigest keccak r;
              ppmsg = \<lparr>ppRequestMsg = r, ppDigest = digest, ppSeqID = sequenceID p\<rparr>
          in Inr ([SendPrePrepare (niComID (pNodeInfo p)) ppmsg],
                  p\<lparr>sequenceLock := True, requestPool := (requestPool p)(digest \<mapsto> r),
                    height2Digest := (height2Digest p)(sequenceID p \<mapsto> digest)\<rparr>))"

definition HandlePrePrepare ::
  "(bytes \<Rightarrow> bytes) \<Rightarrow> PrePrepare \<Rightarrow> PbftConsensusNode \<Rightarrow> pbftOut list \<times> PbftConsensusNode" where
  "HandlePrePrepare keccak ppmsg p0 =
    (let p = p0\<lparr>sequenceID := ppSeqID ppmsg\<rparr>;
         d = getDigest keccak (ppRequestMsg ppmsg);
         stored = p\<lparr>requestPool := (requestPool p)(d \<mapsto> ppRequestMsg ppmsg),
                    height2Digest := (height2Digest p)(ppSeqID ppmsg \<mapsto> d)\<rparr>
     in if d \<noteq> ppDigest ppmsg then ([], p)
        else if sequenceID p < ppSeqID ppmsg then ([], stored)
        else ([SendPrepare (niComID (pNodeInfo p)) (ppDigest ppmsg) (ppSeqID ppmsg) (pNodeInfo p)], stored))"

definition prepareQuorum :: "PbftConsensusNode \<Rightarrow> int" where
  "prepareQuorum p =
    (let specifiedcnt = int (unat (2 * malicious_nums p))
     in if niNodeID (pNodeInfo p) \<noteq> view p then specifiedcnt - 1 else specifiedcnt)"

definition HandlePrepare :: "Prepare \<Rightarrow> PbftConsensusNode \<Rightarrow> pbftOut list \<times> PbftConsensusNode" where
  "HandlePrepare pmsg p0 =
    (if requestPool p0 (pDigest pmsg) = None then ([], p0)
     else if sequenceID p0 < pSeqID pmsg then ([], p0)
     else let p = p0\<lparr>cntPrepareConfirm :=
                       set2DMap (pDigest pmsg) (fst (pSenderInfo pmsg)) (cntPrepareConfirm p0)\<rparr>;
              cnt = votes (cntPrepareConfirm p) (pDigest pmsg)
          in if int cnt \<ge> prepareQuorum p \<and> pDigest pmsg \<notin> isCommitBordcast p
             then ([SendCommit (niComID (pNodeInfo p)) (pDigest pmsg) (pSeqID pmsg) (pNodeInfo p)],
                   p\<lparr>isCommitBordcast := insert (pDigest pmsg) (isCommitBordcast p)\<rparr>)
             else ([], p))"

definition reply :: "u64 \<Rightarrow> bytes \<Rightarrow> PbftConsensusNode \<Rightarrow> pbftOut list \<times> PbftConsensusNode" where
  "reply seqID digest p =
    ((if niNodeID (pNodeInfo p) \<noteq> view p
      then [SendReply (niComID (pNodeInfo p)) seqID (pNodeInfo p) True] else []),
     p\<lparr>isReply := insert digest (isReply p)\<rparr>)"

definition HandleCommit :: "Commit \<Rightarrow> PbftConsensusNode \<Rightarrow> pbftOut list \<times> PbftConsensusNode" where
  "HandleCommit cmsg p0 =
    (let p = p0\<lparr>cntCommitConfirm :=
                  set2DMap (cDigest cmsg) (fst (cSenderInfo cmsg)) (cntCommitConfirm p0)\<rparr>;
         cnt = votes (cntCommitConfirm p) (cDigest cmsg)
     in if cnt \<ge> unat (2 * malicious_nums p) \<and> cDigest cmsg \<notin> isReply p
        then let (out, p') = reply (cSeqID cmsg) (cDigest cmsg) p
             in (out, if niNodeID (pNodeInfo p') \<noteq> view p' then p'\<lparr>sequenceID := sequenceID p' + 1\<rparr> else p')
        else ([], p))"

definition HandleReply :: "Reply \<Rightarrow> PbftConsensusNode \<Rightarrow> PbftConsensusNode go" where
  "HandleReply rmsg p =
    (if niNodeID (pNodeInfo p) \<noteq> view p then Inr p
     else if rMessageID rmsg \<in> gotEnoughReply p then Inr p
     else let n = replyCnt p + 1
          in if n \<ge> unat (2 * malicious_nums p)
             then if OneConsensusDone p \<ge> 1 then Inl (Blocked ''OneConsensusDone'')
                  else if \<not> sequenceLock p then Inl (Panic ''sync: unlock of unlocked mutex'')
                  else Inr (p\<lparr>replyCnt := 0, gotEnoughReply := insert (rMessageID rmsg) (gotEnoughReply p),
                              sequenceID := sequenceID p + 1, OneConsensusDone := OneConsensusDone p + 1,
                              sequenceLock := False\<rparr>)
             else Inr (p\<lparr>replyCnt := n\<rparr>))"

text \<open>
  The loop over the requested heights. The counter is a 64-bit integer, so with the largest end height
  the condition always holds: the counter wraps around and only a missing height ends the loop.
\<close>

partial_function (option) collectOld ::
  "PbftConsensusNode \<Rightarrow> u64 \<Rightarrow> u64 \<Rightarrow> PbftRequest list option" where
  "collectOld p height endHeight =
    (if \<not> height \<le> endHeight then Some []
     else case height2Digest p height of None \<Rightarrow> Some []
     | Some d \<Rightarrow> (case requestPool p d of None \<Rightarrow> Some []
       | Some r \<Rightarrow> Option.bind (collectOld p (height + 1) endHeight) (\<lambda>rs. Some (r # rs))))"

definition HandleRequestOldSeq ::
  "RequestOldMessage \<Rightarrow> PbftConsensusNode \<Rightarrow> (pbftOut list \<times> PbftConsensusNode) go" where
  "HandleRequestOldSeq rom p =
    (if view p \<noteq> niNodeID (pNodeInfo p) then Inr ([], p)
     else case collectOld p (romSeqStartHeight rom) (romSeqEndHeight rom) of
       None \<Rightarrow> Inl (Blocked ''HandleRequestOldSeq'')
     | Some oldR \<Rightarrow>
         Inr ([SendOld 0 \<lparr>somSeqStartHeight = romSeqStartHeight rom, somSeqEndHeight = romSeqEndHeight rom,
                 somOldRequest = oldR, somReceiverInfo = romSenderInfo rom\<rparr>], p))"

definition oldRequestStep ::
  "(bytes \<Rightarrow> bytes) \<Rightarrow> u64 \<times> PbftRequest \<Rightarrow> pbftOut list \<times> PbftConsensusNode \<Rightarrow>
   pbftOut list \<times> PbftConsensusNode" where
  "oldRequestStep keccak hr st =
    (case (hr, st) of ((h, r), (outs, p)) \<Rightarrow>
     let d = getDigest keccak r;
         (out, p') = reply h d (p\<lparr>requestPool := (requestPool p)(d \<mapsto> r),
                                  height2Digest := (height2Digest p)(h \<mapsto> d)\<rparr>)
     in (outs @ out, p'))"

definition HandleSendOldSeq ::
  "(bytes \<Rightarrow> bytes) \<Rightarrow> SendOldMessage \<Rightarrow> PbftConsensusNode \<Rightarrow> (pbftOut list \<times> PbftConsensusNode) go" where
  "HandleSendOldSeq keccak som p0 =
    (let hrs = zip (map (\<lambda>i. word_of_nat i + somSeqStartHeight som) [0..<length (somOldRequest som)])
                 (somOldRequest som);
         (outs, p1) = fold (oldRequestStep keccak) hrs ([], p0);
         p = p1\<lparr>sequenceID := somSeqEndHeight som + 1\<rparr>;
         more = (case height2Digest p (sequenceID p) of None \<Rightarrow> []
                 | Some rDigest \<Rightarrow> (case requestPool p rDigest of None \<Rightarrow> []
                   | Some r \<Rightarrow> [SendPrepare 0 (getDigest keccak r) (sequenceID p) (pNodeInfo p)]))
     in if \<not> askForLock p then Inl (Panic ''sync: unlock of unlocked mutex'')
        else Inr (outs @ more, p\<lparr>askForLock := False\<rparr>))"

section \<open>Runs\<close>

text \<open>
  The events of a node. \<^verbatim>\<open>EvDone\<close> is the worker taking the signal of a finished round, after which
  \<^verbatim>\<open>RunPbft\<close> may start the next one.
\<close>

datatype pbftEvent = EvSetSequenceID u64 | EvPropose Block int | EvPrePrepare PrePrepare
  | EvPrepare Prepare | EvCommit Commit | EvReply Reply | EvRequestOld RequestOldMessage
  | EvSendOld SendOldMessage | EvDone | EvReset

definition pbftStep ::
  "(bytes \<Rightarrow> bytes) \<Rightarrow> (Block \<Rightarrow> bytes option) \<Rightarrow> pbftEvent \<Rightarrow> PbftConsensusNode \<Rightarrow>
   (pbftOut list \<times> PbftConsensusNode) go" where
  "pbftStep keccak rlpBlock e p =
    (case e of
       EvSetSequenceID i \<Rightarrow> go_bind (SetSequenceID i p) (\<lambda>p'. Inr ([], p'))
     | EvPropose block now \<Rightarrow> Propose keccak rlpBlock block now p
     | EvPrePrepare m \<Rightarrow> Inr (HandlePrePrepare keccak m p)
     | EvPrepare m \<Rightarrow> Inr (HandlePrepare m p)
     | EvCommit m \<Rightarrow> Inr (HandleCommit m p)
     | EvReply m \<Rightarrow> go_bind (HandleReply m p) (\<lambda>p'. Inr ([], p'))
     | EvRequestOld m \<Rightarrow> HandleRequestOldSeq m p
     | EvSendOld m \<Rightarrow> HandleSendOldSeq keccak m p
     | EvDone \<Rightarrow> if OneConsensusDone p = 0 then Inl (Blocked ''OneConsensusDone'')
                 else Inr ([], p\<lparr>OneConsensusDone := OneConsensusDone p - 1\<rparr>)
     | EvReset \<Rightarrow> Inr ([], pbftReset p))"

text \<open>The distinct vote objects a history contains for a digest, and what a node sent.\<close>

definition preparePtrs :: "bytes \<Rightarrow> pbftEvent list \<Rightarrow> nat set" where
  "preparePtrs d es = set (concat (map (\<lambda>e. case e of EvPrepare m \<Rightarrow>
     (if pDigest m = d then [fst (pSenderInfo m)] else []) | _ \<Rightarrow> []) es))"

definition commitPtrs :: "bytes \<Rightarrow> pbftEvent list \<Rightarrow> nat set" where
  "commitPtrs d es = set (concat (map (\<lambda>e. case e of EvCommit m \<Rightarrow>
     (if cDigest m = d then [fst (cSenderInfo m)] else []) | _ \<Rightarrow> []) es))"

definition proposed ::
  "(bytes \<Rightarrow> bytes) \<Rightarrow> (Block \<Rightarrow> bytes option) \<Rightarrow> bytes \<Rightarrow> pbftEvent list \<Rightarrow> bool" where
  "proposed keccak rlpBlock d es \<longleftrightarrow> (\<exists>e\<in>set es. case e of
       EvPropose block now \<Rightarrow> getDigest keccak (blockRequest rlpBlock block now) = d
     | EvPrePrepare m \<Rightarrow> getDigest keccak (ppRequestMsg m) = d \<and> ppDigest m = d | _ \<Rightarrow> False)"

fun isCommitFor :: "bytes \<Rightarrow> pbftOut \<Rightarrow> bool" where
  "isCommitFor d (SendCommit _ d' _ _) \<longleftrightarrow> d = d'"
| "isCommitFor d _ \<longleftrightarrow> False"

fun isReplyOut :: "pbftOut \<Rightarrow> bool" where
  "isReplyOut (SendReply _ _ _ _) \<longleftrightarrow> True"
| "isReplyOut _ \<longleftrightarrow> False"

definition freshNode :: "PbftConsensusNode \<Rightarrow> bool" where
  "freshNode p \<longleftrightarrow> pbftReset p = p \<and> \<not> askForLock p"

definition poolInv :: "(bytes \<Rightarrow> bytes) \<Rightarrow> PbftConsensusNode \<Rightarrow> bool" where
  "poolInv keccak p \<longleftrightarrow> \<not> askForLock p \<and>
    (\<forall>d r. requestPool p d = Some r \<longrightarrow> getDigest keccak r = d) \<and>
    (\<forall>h d. height2Digest p h = Some d \<longrightarrow> requestPool p d \<noteq> None)"

definition voteInv :: "pbftEvent list \<Rightarrow> pbftOut list \<Rightarrow> PbftConsensusNode \<Rightarrow> bool" where
  "voteInv es outs p \<longleftrightarrow>
    (\<forall>d S. cntPrepareConfirm p d = Some S \<longrightarrow> S \<subseteq> preparePtrs d es) \<and>
    (\<forall>d S. cntCommitConfirm p d = Some S \<longrightarrow> S \<subseteq> commitPtrs d es) \<and>
    (\<forall>d. length (filter (isCommitFor d) outs) = (if d \<in> isCommitBordcast p then 1 else 0)) \<and>
    (\<forall>d. d \<in> isCommitBordcast p \<longrightarrow>
      int (card (preparePtrs d es)) \<ge> prepareQuorum p \<and> d \<in> dom (requestPool p)) \<and>
    (\<forall>d. d \<in> isReply p \<longrightarrow> card (commitPtrs d es) \<ge> unat (2 * malicious_nums p)) \<and>
    finite (isReply p) \<and>
    length (filter isReplyOut outs) = (if isLeader p then 0 else card (isReply p))"

fun isPrePrepareOut :: "pbftOut \<Rightarrow> bool" where
  "isPrePrepareOut (SendPrePrepare _ _) \<longleftrightarrow> True"
| "isPrePrepareOut _ \<longleftrightarrow> False"

fun isReplyEvent :: "pbftEvent \<Rightarrow> bool" where
  "isReplyEvent (EvReply _) \<longleftrightarrow> True"
| "isReplyEvent _ \<longleftrightarrow> False"

text \<open>How the rounds a leader finished relate to its proposals and to the replies it received.\<close>

definition roundInv :: "pbftEvent list \<Rightarrow> pbftOut list \<Rightarrow> PbftConsensusNode \<Rightarrow> bool" where
  "roundInv es outs p \<longleftrightarrow> EvReset \<notin> set es \<longrightarrow> \<not> askForLock p \<and> finite (gotEnoughReply p) \<and>
    unat (2 * malicious_nums p) * card (gotEnoughReply p) + replyCnt p \<le> length (filter isReplyEvent es) \<and>
    length (filter isPrePrepareOut outs) = card (gotEnoughReply p) + (if sequenceLock p then 1 else 0)"

definition pbftInv ::
  "(bytes \<Rightarrow> bytes) \<Rightarrow> (Block \<Rightarrow> bytes option) \<Rightarrow> pbftEvent list \<Rightarrow> pbftOut list \<Rightarrow>
   PbftConsensusNode \<Rightarrow> bool" where
  "pbftInv keccak rlpBlock es outs p \<longleftrightarrow> poolInv keccak p \<and>
    (EvReset \<notin> set es \<longrightarrow> (\<forall>d\<in>dom (requestPool p). proposed keccak rlpBlock d es) \<and> voteInv es outs p)"

section \<open>The invariant\<close>

lemma preparePtrs_snoc [simp]: "preparePtrs d (es @ [e]) = preparePtrs d es \<union>
    (case e of EvPrepare m \<Rightarrow> (if pDigest m = d then {fst (pSenderInfo m)} else {}) | _ \<Rightarrow> {})"
  by (auto simp: preparePtrs_def split: pbftEvent.splits)

lemma commitPtrs_snoc [simp]: "commitPtrs d (es @ [e]) = commitPtrs d es \<union>
    (case e of EvCommit m \<Rightarrow> (if cDigest m = d then {fst (cSenderInfo m)} else {}) | _ \<Rightarrow> {})"
  by (auto simp: commitPtrs_def split: pbftEvent.splits)

lemma finite_ptrs [simp]: "finite (preparePtrs d es)" "finite (commitPtrs d es)"
  unfolding preparePtrs_def commitPtrs_def by (rule finite_set)+

lemma proposed_snoc: "proposed keccak rlpBlock d es \<Longrightarrow> proposed keccak rlpBlock d (es @ [e])"
  by (auto simp: proposed_def)

lemma prepareQuorum_cong [simp]:
  "prepareQuorum (p\<lparr>cntPrepareConfirm := x\<rparr>) = prepareQuorum p"
  "prepareQuorum (p\<lparr>isCommitBordcast := y\<rparr>) = prepareQuorum p"
  by (simp_all add: prepareQuorum_def)

lemma votes_le:
  assumes "\<forall>d S. m d = Some S \<longrightarrow> S \<subseteq> P d" "finite (P d)"
  shows "votes (set2DMap d x m) d \<le> card (P d \<union> {x})"
proof -
  have "insert x (case m d of None \<Rightarrow> {} | Some S \<Rightarrow> S) \<subseteq> P d \<union> {x}"
    using assms(1) by (auto split: option.splits)
  then show ?thesis using assms(2) by (simp add: votes_def set2DMap_def card_mono)
qed

text \<open>Steps that touch neither votes nor flags and add nothing to the relevant history.\<close>

lemma voteInv_frame:
  assumes "voteInv es outs p" "filter isReplyOut out = []" "\<And>d. filter (isCommitFor d) out = []"
    "\<And>d. preparePtrs d es' = preparePtrs d es" "\<And>d. commitPtrs d es' = commitPtrs d es"
    "dom (requestPool p) \<subseteq> dom (requestPool p')" "cntPrepareConfirm p' = cntPrepareConfirm p"
    "cntCommitConfirm p' = cntCommitConfirm p" "isCommitBordcast p' = isCommitBordcast p"
    "isReply p' = isReply p" "pNodeInfo p' = pNodeInfo p" "view p' = view p"
    "malicious_nums p' = malicious_nums p"
  shows "voteInv es' (outs @ out) p'"
proof -
  have "prepareQuorum p' = prepareQuorum p" "isLeader p' = isLeader p"
    using assms(11-13) by (simp_all add: prepareQuorum_def isLeader_def)
  with assms show ?thesis
    unfolding voteInv_def by (simp add: subset_iff)
qed

lemma card_ptrs_mono:
  "card (preparePtrs d es) \<le> card (preparePtrs d (es @ [e]))"
  "card (commitPtrs d es) \<le> card (commitPtrs d (es @ [e]))"
  by (rule card_mono[OF finite_ptrs(1)], simp) (rule card_mono[OF finite_ptrs(2)], simp)

lemma voteInv_Prepare:
  assumes "voteInv es outs p" "HandlePrepare m p = (out, p')"
  shows "voteInv (es @ [EvPrepare m]) (outs @ out) p'"
proof -
  let ?es = "es @ [EvPrepare m]" and ?d = "pDigest m"
  let ?cnt = "set2DMap ?d (fst (pSenderInfo m)) (cntPrepareConfirm p)"
  have I: "\<forall>d S. cntPrepareConfirm p d = Some S \<longrightarrow> S \<subseteq> preparePtrs d es"
    using assms(1) by (simp add: voteInv_def)
  have v: "votes ?cnt ?d \<le> card (preparePtrs ?d ?es)"
    using votes_le[OF I, of ?d "fst (pSenderInfo m)"] by simp
  have sub: "\<forall>d S. ?cnt d = Some S \<longrightarrow> S \<subseteq> preparePtrs d ?es"
    using I by (auto simp: set2DMap_def split: if_splits option.splits)
  have base: "voteInv ?es outs (p\<lparr>cntPrepareConfirm := x\<rparr>)"
    if "\<forall>d S. x d = Some S \<longrightarrow> S \<subseteq> preparePtrs d ?es" for x
  proof -
    have "int (card (preparePtrs d ?es)) \<ge> prepareQuorum p" if "d \<in> isCommitBordcast p" for d
      using assms(1) that card_ptrs_mono(1)[of d es "EvPrepare m"] unfolding voteInv_def by force
    then show ?thesis using assms(1) that unfolding voteInv_def isLeader_def by (simp add: subset_iff)
  qed
  have keep: "voteInv ?es outs p"
  proof -
    have "\<forall>d S. cntPrepareConfirm p d = Some S \<longrightarrow> S \<subseteq> preparePtrs d ?es" using I by auto
    from base[OF this] show ?thesis by simp
  qed
  show ?thesis
  proof (cases "out = []")
    case True
    then show ?thesis using assms(2) keep base[OF sub]
      by (auto simp: HandlePrepare_def Let_def split: if_splits)
  next
    case False
    with assms(2) have c: "requestPool p ?d \<noteq> None" "prepareQuorum p \<le> int (votes ?cnt ?d)"
      "?d \<notin> isCommitBordcast p"
      "out = [SendCommit (niComID (pNodeInfo p)) ?d (pSeqID m) (pNodeInfo p)]"
      "p' = p\<lparr>cntPrepareConfirm := ?cnt, isCommitBordcast := insert ?d (isCommitBordcast p)\<rparr>"
      by (auto simp: HandlePrepare_def Let_def split: if_splits)
    show ?thesis using base[OF sub] c v unfolding voteInv_def isLeader_def by auto
  qed
qed

lemma voteInv_Commit:
  assumes "voteInv es outs p" "HandleCommit m p = (out, p')"
  shows "voteInv (es @ [EvCommit m]) (outs @ out) p'"
proof -
  let ?es = "es @ [EvCommit m]" and ?d = "cDigest m"
  let ?cnt = "set2DMap ?d (fst (cSenderInfo m)) (cntCommitConfirm p)"
  let ?p = "p\<lparr>cntCommitConfirm := ?cnt\<rparr>"
  have I: "\<forall>d S. cntCommitConfirm p d = Some S \<longrightarrow> S \<subseteq> commitPtrs d es"
    using assms(1) by (simp add: voteInv_def)
  have v: "votes ?cnt ?d \<le> card (commitPtrs ?d ?es)"
    using votes_le[OF I, of ?d "fst (cSenderInfo m)"] by simp
  have sub: "\<forall>d S. ?cnt d = Some S \<longrightarrow> S \<subseteq> commitPtrs d ?es"
    using I by (auto simp: set2DMap_def split: if_splits option.splits)
  have q: "unat (2 * malicious_nums p) \<le> card (commitPtrs d ?es)" if "d \<in> isReply p" for d
    using assms(1) that card_ptrs_mono(2)[of d es "EvCommit m"] unfolding voteInv_def by force
  have base: "voteInv ?es outs ?p"
    using assms(1) sub q unfolding voteInv_def isLeader_def prepareQuorum_def by (simp add: subset_iff)
  show ?thesis
  proof (cases "votes ?cnt ?d \<ge> unat (2 * malicious_nums p) \<and> ?d \<notin> isReply p")
    case False
    then show ?thesis using assms(2) base by (auto simp: HandleCommit_def Let_def)
  next
    case True
    have p': "p' = ?p\<lparr>isReply := insert ?d (isReply p),
        sequenceID := (if isLeader p then sequenceID p else sequenceID p + 1)\<rparr>"
      "out = (if isLeader p then [] else [SendReply (niComID (pNodeInfo p)) (cSeqID m) (pNodeInfo p) True])"
      using assms(2) True by (auto simp: HandleCommit_def Let_def reply_def isLeader_def)
    have fields: "isLeader p' = isLeader p" "prepareQuorum p' = prepareQuorum p"
      by (simp_all add: p'(1) isLeader_def prepareQuorum_def)
    have "card (isReply p') = Suc (card (isReply p))" "finite (isReply p')"
      using True base unfolding voteInv_def by (auto simp: p'(1))
    moreover have "d \<in> isReply p' \<Longrightarrow> unat (2 * malicious_nums p) \<le> card (commitPtrs d ?es)" for d
      using q[of d] v True by (cases "d = ?d") (auto simp: p'(1))
    ultimately show ?thesis
      using base fields unfolding voteInv_def by (simp add: p' isLeader_def prepareQuorum_def)
  qed
qed

lemma fold_oldRequest_askForLock:
  "fold (oldRequestStep keccak) hrs st = st' \<Longrightarrow> askForLock (snd st') = askForLock (snd st)"
  by (induction hrs arbitrary: st)
    (auto simp: oldRequestStep_def reply_def Let_def split: prod.splits)

lemma HandleSendOldSeq_unlocked:
  assumes "\<not> askForLock p"
  shows "HandleSendOldSeq keccak som p = Inl (Panic ''sync: unlock of unlocked mutex'')"
  using assms fold_oldRequest_askForLock[OF refl, of keccak _ "([], p)"]
  by (auto simp: HandleSendOldSeq_def Let_def split: prod.splits) (metis snd_conv)

lemma HandleRequestOldSeq_frame:
  assumes "HandleRequestOldSeq rom p = Inr (out, p')"
  shows "p' = p \<and> filter isReplyOut out = [] \<and> filter (isCommitFor d) out = [] \<and>
    filter isPrePrepareOut out = []"
  using assms by (auto simp: HandleRequestOldSeq_def split: if_splits option.splits)

lemma pbftInv_step:
  assumes "pbftInv keccak rlpBlock es outs p" "pbftStep keccak rlpBlock e p = Inr (out, p')"
  shows "pbftInv keccak rlpBlock (es @ [e]) (outs @ out) p'"
proof -
  have pool: "poolInv keccak p"
    and hist: "EvReset \<notin> set es \<Longrightarrow> (\<forall>d\<in>dom (requestPool p). proposed keccak rlpBlock d es) \<and> voteInv es outs p"
    using assms(1) by (auto simp: pbftInv_def)
  have "poolInv keccak p'"
    using assms(2) pool
    by (cases e) (auto dest!: HandleRequestOldSeq_frame simp: pbftStep_def poolInv_def SetSequenceID_def Propose_def HandlePrePrepare_def
        HandlePrepare_def HandleCommit_def reply_def HandleReply_def
        HandleSendOldSeq_unlocked pbftReset_def Let_def split: if_splits prod.splits)
  moreover have "\<forall>d\<in>dom (requestPool p'). proposed keccak rlpBlock d (es @ [e])" if "EvReset \<notin> set (es @ [e])"
    using assms(2) hist that proposed_snoc[of keccak rlpBlock _ es e] pool
    by (cases e) (auto dest!: HandleRequestOldSeq_frame simp: pbftStep_def proposed_def poolInv_def HandleSendOldSeq_unlocked SetSequenceID_def Propose_def HandlePrePrepare_def
        HandlePrepare_def HandleCommit_def reply_def HandleReply_def
        Let_def split: if_splits prod.splits)
  moreover have "voteInv (es @ [e]) (outs @ out) p'" if "EvReset \<notin> set (es @ [e])"
  proof -
    have v: "voteInv es outs p" using hist that by simp
    have "voteInv (es @ [e]) (outs @ out) p'"
      if "\<nexists>m. e = EvPrepare m" "\<nexists>m. e = EvCommit m" "\<nexists>m. e = EvSendOld m" "e \<noteq> EvReset"
      using assms(2) that
      by (intro voteInv_frame[OF v]; cases e)
        (auto dest!: HandleRequestOldSeq_frame simp: pbftStep_def SetSequenceID_def Propose_def HandlePrePrepare_def HandleReply_def
        Let_def split: if_splits)
    moreover have "\<nexists>m. e = EvSendOld m"
      using assms(2) pool by (auto simp: pbftStep_def HandleSendOldSeq_unlocked poolInv_def)
    ultimately show ?thesis
      using voteInv_Prepare[OF v] voteInv_Commit[OF v] assms(2) \<open>EvReset \<notin> set (es @ [e])\<close>
      by (cases e) (simp_all add: pbftStep_def)
  qed
  ultimately show ?thesis by (simp add: pbftInv_def)
qed

lemma pbftInv_fresh: "freshNode p \<Longrightarrow> pbftInv keccak rlpBlock [] [] p"
  by (cases p) (auto simp: freshNode_def pbftReset_def pbftInv_def poolInv_def voteInv_def)

interpretation votes: event_machine "pbftStep keccak rlpBlock" freshNode "pbftInv keccak rlpBlock"
  for keccak rlpBlock
  by unfold_locales (rule pbftInv_fresh, assumption, rule pbftInv_step)

lemma roundInv_step:
  assumes "roundInv es outs p" "pbftStep keccak rlpBlock e p = Inr (out, p')"
  shows "roundInv (es @ [e]) (outs @ out) p'"
proof (cases "EvReset \<in> set (es @ [e])")
  case False
  with assms(1) have r: "\<not> askForLock p" "finite (gotEnoughReply p)"
    "unat (2 * malicious_nums p) * card (gotEnoughReply p) + replyCnt p \<le> length (filter isReplyEvent es)"
    "length (filter isPrePrepareOut outs) = card (gotEnoughReply p) + (if sequenceLock p then 1 else 0)"
    by (auto simp: roundInv_def)
  show ?thesis
    unfolding roundInv_def using assms(2) r False
    by (cases e)
      (auto dest!: HandleRequestOldSeq_frame simp: pbftStep_def SetSequenceID_def Propose_def HandlePrePrepare_def HandlePrepare_def
        HandleCommit_def reply_def HandleReply_def HandleSendOldSeq_unlocked
        Let_def split: if_splits)
qed (simp add: roundInv_def)

definition idleNode :: "PbftConsensusNode \<Rightarrow> bool" where
  "idleNode p \<longleftrightarrow> freshNode p \<and> \<not> sequenceLock p"

lemma roundInv_fresh: "idleNode p \<Longrightarrow> roundInv [] [] p"
  by (cases p) (auto simp: idleNode_def freshNode_def pbftReset_def roundInv_def)

interpretation rounds: event_machine "pbftStep keccak rlpBlock" idleNode roundInv
  for keccak rlpBlock
  by unfold_locales (rule roundInv_fresh, assumption, rule roundInv_step)

text \<open>The static fields never change.\<close>

definition sameNode :: "PbftConsensusNode \<Rightarrow> PbftConsensusNode \<Rightarrow> bool" where
  "sameNode p p' \<longleftrightarrow> pNodeInfo p' = pNodeInfo p \<and> view p' = view p \<and> malicious_nums p' = malicious_nums p"

lemma fold_oldRequest_same:
  "fold (oldRequestStep keccak) hrs st = st' \<Longrightarrow> sameNode (snd st) (snd st')"
  by (induction hrs arbitrary: st)
    (auto simp: oldRequestStep_def reply_def sameNode_def Let_def split: prod.splits)

lemma pbftStep_same:
  assumes "pbftStep keccak rlpBlock e p = Inr (out, p')"
  shows "sameNode p p'"
  using assms
  by (cases e)
    (auto dest!: fold_oldRequest_same[unfolded sameNode_def] HandleRequestOldSeq_frame simp: pbftStep_def sameNode_def SetSequenceID_def Propose_def HandlePrePrepare_def
      HandlePrepare_def HandleCommit_def reply_def HandleReply_def
      HandleSendOldSeq_def pbftReset_def Let_def split: if_splits prod.splits)

lemma pbftRun_same:
  "runEvents (pbftStep keccak rlpBlock) es p = Inr (outs, p') \<Longrightarrow> sameNode p p'"
  by (induction es arbitrary: p outs)
    (auto simp: go_bind_eq_Inr_iff sameNode_def dest!: pbftStep_same)

lemma sameNode_simps:
  assumes "sameNode p p'"
  shows "prepareQuorum p' = prepareQuorum p" "isLeader p' = isLeader p"
    "malicious_nums p' = malicious_nums p"
  using assms by (auto simp: sameNode_def prepareQuorum_def isLeader_def)

section \<open>Sample data\<close>

definition sampleNode :: "u32 \<Rightarrow> NodeInfo" where
  "sampleNode i = \<lparr>niShardID = 0, niComID = 0, niNodeID = i, niNodeAddr = []\<rparr>"

definition sampleRequest :: PbftRequest where
  "sampleRequest = \<lparr>reqMsgType = ''*block'', reqMsg = [1, 2], reqTime = 3\<rparr>"

definition sampleCommit :: "nat \<Rightarrow> u32 \<Rightarrow> Commit" where
  "sampleCommit ptr i = \<lparr>cDigest = [7], cSeqID = 5, cSenderInfo = (ptr, sampleNode i)\<rparr>"

definition samplePrepare :: "nat \<Rightarrow> u32 \<Rightarrow> Prepare" where
  "samplePrepare ptr i = \<lparr>pDigest = [7], pSeqID = 5, pSenderInfo = (ptr, sampleNode i)\<rparr>"

definition sampleReply :: "nat \<Rightarrow> u32 \<Rightarrow> Reply" where
  "sampleReply ptr i = \<lparr>rMessageID = 5, rSenderInfo = (ptr, sampleNode i), rResult = True\<rparr>"

definition sampleEvents :: "pbftEvent list" where
  "sampleEvents =
    [EvPrePrepare \<lparr>ppRequestMsg = sampleRequest, ppDigest = [7], ppSeqID = 5\<rparr>,
     EvPrepare (samplePrepare 1 2), EvPrepare (samplePrepare 2 3),
     EvCommit (sampleCommit 3 0), EvCommit (sampleCommit 4 2), EvCommit (sampleCommit 5 3)]"

definition sevenNodesEvents :: "pbftEvent list" where
  "sevenNodesEvents =
    [EvPrePrepare \<lparr>ppRequestMsg = sampleRequest, ppDigest = [7], ppSeqID = 5\<rparr>,
     EvPrepare (samplePrepare 1 2), EvPrepare (samplePrepare 2 3), EvPrepare (samplePrepare 3 4)]"

lemma sampleNode_fresh: "freshNode (NewPbftNode (sampleNode i) n)" "idleNode (NewPbftNode (sampleNode i) n)"
  by (simp_all add: idleNode_def freshNode_def NewPbftNode_def pbftReset_def)

lemmas pbft_eval = pbftStep_def HandlePrePrepare_def HandlePrepare_def HandleCommit_def reply_def
  NewPbftNode_def sampleNode_def samplePrepare_def sampleCommit_def getDigest_def votes_def
  set2DMap_def prepareQuorum_def Let_def

lemma sampleRun:
  "\<exists>p'. runEvents (pbftStep (\<lambda>_. [7]) rlpBlock) sampleEvents (NewPbftNode (sampleNode 1) 4) =
    Inr ([SendPrepare 0 [7] 5 (sampleNode 1), SendCommit 0 [7] 5 (sampleNode 1),
          SendReply 0 5 (sampleNode 1) True], p')"
  by (simp add: sampleEvents_def pbft_eval)

section \<open>Properties\<close>

text \<open>
  C9. A node commits only on a quorum of prepares, and once. In any run from a freshly reset node
  until the next reset, at most one commit is broadcast per digest, and one is broadcast
  only if a request with that digest was proposed or pre-prepared and prepare votes were received
  from at least \<^verbatim>\<open>2f\<close> (one less on a backup) distinct vote objects.
\<close>

theorem pbft_commit_quorum:
  assumes "freshNode p" "EvReset \<notin> set es"
    "runEvents (pbftStep keccak rlpBlock) es p = Inr (outs, p')"
  shows "length (filter (isCommitFor d) outs) \<le> 1 \<and>
    (filter (isCommitFor d) outs \<noteq> [] \<longrightarrow>
      proposed keccak rlpBlock d es \<and>
      int (unat (2 * malicious_nums p)) - (if niNodeID (pNodeInfo p) = view p then 0 else 1)
        \<le> int (card (preparePtrs d es)))"
proof -
  have quorum: "prepareQuorum p =
      int (unat (2 * malicious_nums p)) - (if niNodeID (pNodeInfo p) = view p then 0 else 1)"
    by (simp add: prepareQuorum_def)
  have inv: "(\<forall>d\<in>dom (requestPool p'). proposed keccak rlpBlock d es) \<and> voteInv es outs p'"
    using votes.hinv_run[OF assms(3,1)] assms(2) by (simp add: pbftInv_def)
  then have len: "length (filter (isCommitFor d) outs) = (if d \<in> isCommitBordcast p' then 1 else 0)"
    and q: "d \<in> isCommitBordcast p' \<Longrightarrow>
      int (card (preparePtrs d es)) \<ge> prepareQuorum p' \<and> d \<in> dom (requestPool p')"
    by (simp_all add: voteInv_def)
  show ?thesis
  proof (cases "d \<in> isCommitBordcast p'")
    case True
    with q inv sameNode_simps(1)[OF pbftRun_same[OF assms(3)]] len show ?thesis
      unfolding quorum[symmetric] by simp
  next
    case False
    with len show ?thesis by simp
  qed
qed

theorem pbft_commit_quorum_witness:
  "\<exists>outs p'. runEvents (pbftStep (\<lambda>_. [7]) (\<lambda>_. None)) sevenNodesEvents (NewPbftNode (sampleNode 1) 7) =
      Inr (outs, p') \<and> filter (isCommitFor [7]) outs = [SendCommit 0 [7] 5 (sampleNode 1)] \<and>
    proposed (\<lambda>_. [7]) (\<lambda>_. None) [7] sevenNodesEvents \<and> 3 \<le> int (card (preparePtrs [7] sevenNodesEvents))"
proof -
  obtain outs p' where r: "runEvents (pbftStep (\<lambda>_. [7]) (\<lambda>_. None)) sevenNodesEvents
      (NewPbftNode (sampleNode 1) 7) = Inr (outs, p')"
    "filter (isCommitFor [7]) outs = [SendCommit 0 [7] 5 (sampleNode 1)]"
    by (simp add: sevenNodesEvents_def pbft_eval)
  from pbft_commit_quorum[OF sampleNode_fresh(1) _ r(1), of "[7]"] r show ?thesis
    by (simp add: sevenNodesEvents_def NewPbftNode_def sampleNode_def)
qed

text \<open>
  C10. A node replies only on a quorum of commits, and once. Until the next reset, the number of
  replies it sends is at most the number of digests for which commit votes were
  received from at least \<^verbatim>\<open>2f\<close> distinct vote objects.
\<close>

theorem pbft_reply_quorum:
  assumes "freshNode p" "EvReset \<notin> set es"
    "runEvents (pbftStep keccak rlpBlock) es p = Inr (outs, p')"
  shows "\<exists>D. finite D \<and> length (filter isReplyOut outs) \<le> card D \<and>
    (\<forall>d\<in>D. unat (2 * malicious_nums p) \<le> card (commitPtrs d es))"
proof -
  have "voteInv es outs p'"
    using votes.hinv_run[OF assms(3,1)] assms(2) by (simp add: pbftInv_def)
  then have "finite (isReply p')" "length (filter isReplyOut outs) \<le> card (isReply p')"
    "\<forall>d\<in>isReply p'. unat (2 * malicious_nums p') \<le> card (commitPtrs d es)"
    by (auto simp: voteInv_def)
  with sameNode_simps(3)[OF pbftRun_same[OF assms(3)]] show ?thesis
    by (intro exI[of _ "isReply p'"]) simp
qed

theorem pbft_reply_quorum_witness:
  "\<exists>D. finite D \<and> 1 \<le> card D \<and> (\<forall>d\<in>D. 2 \<le> card (commitPtrs d sampleEvents))"
proof -
  obtain p' where "runEvents (pbftStep (\<lambda>_. [7]) (\<lambda>_. None)) sampleEvents (NewPbftNode (sampleNode 1) 4) =
    Inr ([SendPrepare 0 [7] 5 (sampleNode 1), SendCommit 0 [7] 5 (sampleNode 1),
          SendReply 0 5 (sampleNode 1) True], p')" using sampleRun by blast
  from pbft_reply_quorum[OF sampleNode_fresh(1) _ this] show ?thesis
    by (simp add: sampleEvents_def NewPbftNode_def)
qed

text \<open>
  C23. The leader runs one round at a time. When a leader that started idle and was not reset sends a
  pre-prepare message after \<^verbatim>\<open>n\<close> earlier ones, each earlier round has been ended under a message
  id of its own, and by then it has handled at least \<^verbatim>\<open>n * 2f\<close> replies in total. The replies are not
  attributed to rounds: the counter takes a reply naming any message id that has not ended a round.
\<close>

theorem pbft_rounds_need_replies:
  assumes "idleNode p" "EvReset \<notin> set es"
    "runEvents (pbftStep keccak rlpBlock) es p = Inr (outs, p')"
    "Propose keccak rlpBlock block now p' = Inr (SendPrePrepare c m # out, p'')"
  shows "length (filter isPrePrepareOut outs) = card (gotEnoughReply p') \<and>
    length (filter isPrePrepareOut outs) * unat (2 * malicious_nums p) \<le> length (filter isReplyEvent es)"
proof -
  have "\<not> sequenceLock p'" using assms(4) by (auto simp: Propose_def split: if_splits)
  with rounds.hinv_run[OF assms(3,1)] assms(2)
  have "unat (2 * malicious_nums p') * card (gotEnoughReply p') + replyCnt p' \<le> length (filter isReplyEvent es)"
    "length (filter isPrePrepareOut outs) = card (gotEnoughReply p')"
    by (auto simp: roundInv_def)
  then show ?thesis unfolding sameNode_simps(3)[OF pbftRun_same[OF assms(3)]]
    by (metis add_leD1 mult.commute)
qed

theorem pbft_rounds_need_replies_witness:
  "\<exists>outs p' c m p''. runEvents (pbftStep (\<lambda>_. [7]) (\<lambda>_. None))
      [EvSetSequenceID 5, EvPropose sampleBlock 1, EvReply (sampleReply 1 1), EvReply (sampleReply 2 2), EvDone,
       EvSetSequenceID 6] (NewPbftNode (sampleNode 0) 4) = Inr (outs, p') \<and>
    Propose (\<lambda>_. [7]) (\<lambda>_. None) sampleBlock 2 p' = Inr ([SendPrePrepare c m], p'') \<and>
    length (filter isPrePrepareOut outs) = 1 \<and> 1 = card (gotEnoughReply p') \<and> 1 * unat (2 * 1 :: u32) \<le> 2"
proof -
  let ?es = "[EvSetSequenceID 5, EvPropose sampleBlock 1, EvReply (sampleReply 1 1), EvReply (sampleReply 2 2), EvDone,
       EvSetSequenceID 6]"
  obtain outs p' c m p'' where r: "runEvents (pbftStep (\<lambda>_. [7]) (\<lambda>_. None)) ?es (NewPbftNode (sampleNode 0) 4)
      = Inr (outs, p')" "length (filter isPrePrepareOut outs) = 1"
      "Propose (\<lambda>_. [7]) (\<lambda>_. None) sampleBlock 2 p' = Inr ([SendPrePrepare c m], p'')"
    by (simp add: pbftStep_def SetSequenceID_def Propose_def HandleReply_def sampleReply_def
        NewPbftNode_def sampleNode_def Let_def)
  from pbft_rounds_need_replies[OF sampleNode_fresh(2) _ r(1,3)] r show ?thesis
    by (intro exI[of _ outs] exI[of _ p'] exI[of _ c] exI[of _ m] exI[of _ p'']) simp
qed

text \<open>
  The list the loop collects, for a loop that meets an exit condition after some number of steps: it is
  the list of the stored requests up to the first exit.
\<close>

lemma collectOld_exact:
  assumes "poolInv keccak p" "endHeight < a + word_of_nat n \<or> height2Digest p (a + word_of_nat n) = None"
  shows "\<exists>rs. collectOld p a endHeight = Some rs \<and>
    (\<forall>i<length rs. a + word_of_nat i \<le> endHeight \<and>
      height2Digest p (a + word_of_nat i) = Some (getDigest keccak (rs ! i)) \<and>
      requestPool p (getDigest keccak (rs ! i)) = Some (rs ! i)) \<and>
    (endHeight < a + word_of_nat (length rs) \<or> height2Digest p (a + word_of_nat (length rs)) = None)"
  using assms(2)
proof (induction n arbitrary: a)
  case 0
  then show ?case by (subst collectOld.simps) (auto simp: not_le intro!: exI[of _ "[]"])
next
  case (Suc n)
  show ?case
  proof (cases "endHeight < a \<or> height2Digest p a = None")
    case True
    then show ?thesis by (subst collectOld.simps) (auto simp: not_le intro!: exI[of _ "[]"])
  next
    case False
    then obtain d r where d: "height2Digest p a = Some d" "requestPool p d = Some r" "getDigest keccak r = d"
      using assms(1) unfolding poolInv_def by fastforce
    have s: "a + word_of_nat (Suc i) = (a + 1) + word_of_nat i" for i by (simp add: algebra_simps)
    from Suc.IH[of "a + 1"] Suc.prems obtain rs where rs: "collectOld p (a + 1) endHeight = Some rs"
      "\<forall>i<length rs. a + word_of_nat (Suc i) \<le> endHeight \<and>
        height2Digest p (a + word_of_nat (Suc i)) = Some (getDigest keccak (rs ! i)) \<and>
        requestPool p (getDigest keccak (rs ! i)) = Some (rs ! i)"
      "endHeight < a + word_of_nat (Suc (length rs)) \<or> height2Digest p (a + word_of_nat (Suc (length rs))) = None"
      unfolding s by blast
    have "collectOld p a endHeight = Some (r # rs)"
      using False d rs(1) by (subst collectOld.simps) (simp add: not_less)
    moreover have "\<forall>i<length (r # rs). a + word_of_nat i \<le> endHeight \<and>
        height2Digest p (a + word_of_nat i) = Some (getDigest keccak ((r # rs) ! i)) \<and>
        requestPool p (getDigest keccak ((r # rs) ! i)) = Some ((r # rs) ! i)"
      using False d rs(2) by (simp add: All_less_Suc2 not_less del: of_nat_Suc)
    ultimately show ?thesis using rs(3) by (intro exI[of _ "r # rs"]) (simp del: of_nat_Suc)
  qed
qed

lemma collectOld_exit:
  fixes a endHeight :: u64
  assumes "unat endHeight < 2 ^ 64 - 1 \<or> height2Digest p h = None"
  shows "\<exists>n. endHeight < a + word_of_nat n \<or> height2Digest p (a + word_of_nat n) = None"
proof (cases "height2Digest p h = None")
  case True
  then show ?thesis by (intro exI[of _ "unat (h - a)"]) simp
next
  case False
  with assms have "endHeight < endHeight + 1"
    by (simp add: word_less_nat_alt unat_word_ariths)
  then show ?thesis by (intro exI[of _ "unat (endHeight + 1 - a)"]) simp
qed

text \<open>
  C24. What a node stores and hands out. In any run from a fresh node, with resets, every node keeps
  each request under its own digest and has a request for every height it recorded. The list
  a leader sends to a node that is behind is exactly the stored requests of the consecutive
  heights from the requested start, up to the end height or the first height without a
  record; the counter is 64 bits wide. The handler answers whenever the end height is not the
  largest 64-bit number or some height has no record.
\<close>

theorem pbft_stored_requests:
  assumes "freshNode p" "runEvents (pbftStep keccak rlpBlock) es p = Inr (outs, p')"
  shows "(\<forall>d r. requestPool p' d = Some r \<longrightarrow> getDigest keccak r = d) \<and>
    (\<forall>h d. height2Digest p' h = Some d \<longrightarrow> requestPool p' d \<noteq> None) \<and>
    (isLeader p' \<and> (unat (romSeqEndHeight rom) < 2 ^ 64 - 1 \<or> (\<exists>h. height2Digest p' h = None)) \<longrightarrow>
     (\<exists>rs. HandleRequestOldSeq rom p' =
         Inr ([SendOld 0 \<lparr>somSeqStartHeight = romSeqStartHeight rom, somSeqEndHeight = romSeqEndHeight rom,
                 somOldRequest = rs, somReceiverInfo = romSenderInfo rom\<rparr>], p') \<and>
       (\<forall>i<length rs. romSeqStartHeight rom + word_of_nat i \<le> romSeqEndHeight rom \<and>
         height2Digest p' (romSeqStartHeight rom + word_of_nat i) = Some (getDigest keccak (rs ! i)) \<and>
         requestPool p' (getDigest keccak (rs ! i)) = Some (rs ! i)) \<and>
       (romSeqEndHeight rom < romSeqStartHeight rom + word_of_nat (length rs) \<or>
         height2Digest p' (romSeqStartHeight rom + word_of_nat (length rs)) = None)))"
proof -
  have inv: "poolInv keccak p'" using votes.hinv_run[OF assms(2,1)] by (simp add: pbftInv_def)
  show ?thesis (is "?pool \<and> ?heights \<and> (?L \<longrightarrow> ?answer)")
  proof (intro conjI impI)
    assume L: ?L
    then obtain n where "romSeqEndHeight rom < romSeqStartHeight rom + word_of_nat n \<or>
        height2Digest p' (romSeqStartHeight rom + word_of_nat n) = None"
      using collectOld_exit by blast
    from collectOld_exact[OF inv this] L show ?answer
      by (fastforce simp: HandleRequestOldSeq_def isLeader_def)
  qed (use inv in \<open>auto simp: poolInv_def\<close>)
qed

theorem pbft_stored_requests_witness:
  "\<exists>p' r. runEvents (pbftStep id (\<lambda>_. None)) [EvSetSequenceID 5, EvPropose sampleBlock 1]
      (NewPbftNode (sampleNode 0) 4) = Inr ([SendPrePrepare 0 \<lparr>ppRequestMsg = r,
        ppDigest = encodedRequest r, ppSeqID = 5\<rparr>], p') \<and>
    HandleRequestOldSeq \<lparr>romSeqStartHeight = 5, romSeqEndHeight = 8, romServerNode = sampleNode 0,
      romSenderInfo = sampleNode 1\<rparr> p' =
    Inr ([SendOld 0 \<lparr>somSeqStartHeight = 5, somSeqEndHeight = 8, somOldRequest = [r],
       somReceiverInfo = sampleNode 1\<rparr>], p')"
proof -
  let ?r = "blockRequest (\<lambda>_. None) sampleBlock 1"
  let ?rom = "\<lparr>romSeqStartHeight = 5, romSeqEndHeight = 8, romServerNode = sampleNode 0, romSenderInfo = sampleNode 1\<rparr>"
  obtain p' where r: "runEvents (pbftStep id (\<lambda>_. None)) [EvSetSequenceID 5, EvPropose sampleBlock 1]
      (NewPbftNode (sampleNode 0) 4) = Inr ([SendPrePrepare 0 \<lparr>ppRequestMsg = ?r,
        ppDigest = encodedRequest ?r, ppSeqID = 5\<rparr>], p')" "isLeader p'"
    "height2Digest p' = [5 \<mapsto> encodedRequest ?r]" "requestPool p' = [encodedRequest ?r \<mapsto> ?r]"
    by (simp add: pbftStep_def SetSequenceID_def Propose_def NewPbftNode_def sampleNode_def Let_def
        getDigest_def isLeader_def)
  from pbft_stored_requests[OF sampleNode_fresh(1) r(1), of ?rom] r(2)
  obtain rs where h: "HandleRequestOldSeq ?rom p' = Inr ([SendOld 0 \<lparr>somSeqStartHeight = 5,
      somSeqEndHeight = 8, somOldRequest = rs, somReceiverInfo = sampleNode 1\<rparr>], p')"
    and rs: "\<forall>i<length rs. 5 + word_of_nat i \<le> (8 :: u64) \<and> height2Digest p' (5 + word_of_nat i) =
        Some (getDigest id (rs ! i)) \<and> requestPool p' (getDigest id (rs ! i)) = Some (rs ! i)"
    and e: "(8 :: u64) < 5 + word_of_nat (length rs) \<or> height2Digest p' (5 + word_of_nat (length rs)) = None"
    by auto
  have "\<not> 1 < length rs"
  proof
    assume "1 < length rs"
    with rs have "height2Digest p' (5 + word_of_nat 1) \<noteq> None" by blast
    then show False by (simp add: r(3))
  qed
  moreover have "rs \<noteq> []" using e by (auto simp: r(3))
  ultimately obtain x where x: "rs = [x]" by (cases rs) auto
  with rs have "x = ?r" by (auto simp: r(3,4))
  with x h r(1) show ?thesis by blast
qed

text \<open>
  C31. Receiving old requests crashes the node. No handler ever takes \<^verbatim>\<open>askForLock\<close>, so in every state a
  fresh node can reach, handling a \<^verbatim>\<open>SendOldMessage\<close> ends by unlocking an unlocked mutex.
\<close>

theorem pbft_send_old_crashes:
  assumes "freshNode p" "runEvents (pbftStep keccak rlpBlock) es p = Inr (outs, p')"
  shows "HandleSendOldSeq keccak som p' = Inl (Panic ''sync: unlock of unlocked mutex'')"
  using votes.hinv_run[OF assms(2,1)]
  by (auto simp: pbftInv_def poolInv_def intro: HandleSendOldSeq_unlocked)

theorem pbft_send_old_crashes_witness:
  "\<exists>e. HandleSendOldSeq (\<lambda>_. [7]) \<lparr>somSeqStartHeight = 1, somSeqEndHeight = 1,
     somOldRequest = [sampleRequest], somReceiverInfo = sampleNode 1\<rparr> (NewPbftNode (sampleNode 1) 4) = Inl (Panic e)"
  using pbft_send_old_crashes[OF sampleNode_fresh(1), of "\<lambda>_. [7]" "\<lambda>_. None" "[]"] by auto

lemma pbftStep_EvCommit: "pbftStep keccak rlpBlock (EvCommit m) p = Inr (HandleCommit m p)"
  by (simp add: pbftStep_def)

lemma HandleCommit_votes:
  assumes "HandleCommit m p = (out, p')"
  shows "cntCommitConfirm p' (cDigest m) = Some (insert (fst (cSenderInfo m))
      (case cntCommitConfirm p (cDigest m) of None \<Rightarrow> {} | Some S \<Rightarrow> S))"
    "cDigest m \<in> isReply p' \<longleftrightarrow> cDigest m \<in> isReply p \<or>
      unat (2 * malicious_nums p) \<le> votes (cntCommitConfirm p') (cDigest m)"
    "malicious_nums p' = malicious_nums p"
  using assms by (auto simp: HandleCommit_def reply_def Let_def set2DMap_def split: if_splits)

lemma commits_run:
  assumes "freshNode p" "\<forall>m\<in>set ms. cDigest m = d" "ms \<noteq> []"
  shows "\<exists>outs p'. runEvents (pbftStep keccak rlpBlock) (map EvCommit ms) p = Inr (outs, p') \<and>
    cntCommitConfirm p' d = Some ((fst \<circ> cSenderInfo) ` set ms) \<and>
    (d \<in> isReply p' \<longleftrightarrow> unat (2 * malicious_nums p) \<le> card ((fst \<circ> cSenderInfo) ` set ms)) \<and>
    malicious_nums p' = malicious_nums p"
  using assms(3,2)
proof (induction ms rule: rev_nonempty_induct)
  case (single m)
  have "cntCommitConfirm p = Map.empty" "isReply p = {}"
    using assms(1) by (cases p; simp add: freshNode_def pbftReset_def)+
  moreover obtain out p' where "HandleCommit m p = (out, p')" by force
  ultimately show ?case using single HandleCommit_votes[of m p]
    by (simp add: pbftStep_EvCommit votes_def)
next
  case (snoc m ms)
  then obtain outs p1 where r: "runEvents (pbftStep keccak rlpBlock) (map EvCommit ms) p = Inr (outs, p1)"
    "cntCommitConfirm p1 d = Some ((fst \<circ> cSenderInfo) ` set ms)"
    "d \<in> isReply p1 \<longleftrightarrow> unat (2 * malicious_nums p) \<le> card ((fst \<circ> cSenderInfo) ` set ms)"
    "malicious_nums p1 = malicious_nums p" by auto
  obtain out p' where h: "HandleCommit m p1 = (out, p')" by force
  note v = HandleCommit_votes[OF h]
  let ?S = "(fst \<circ> cSenderInfo) ` set ms"
  have "card ?S \<le> card (insert (fst (cSenderInfo m)) ?S)" by (rule card_insert_le)
  moreover have "cDigest m = d" using snoc.prems by simp
  ultimately show ?case using r v h
    by (intro exI[of _ "outs @ out"] exI[of _ p'])
      (auto simp: runEvents_append pbftStep_EvCommit votes_def)
qed

text \<open>
  C30. Votes are counted per message, not per sender. On a fresh backup with \<^verbatim>\<open>f > 0\<close>, \<^verbatim>\<open>2f\<close> separately
  decoded commit messages for one digest make it reply, even when every one of them names
  the same sender.
\<close>

theorem pbft_votes_per_message:
  assumes "freshNode p" "0 < malicious_nums p" "length ms = unat (2 * malicious_nums p)"
    "distinct (map (fst \<circ> cSenderInfo) ms)" "\<forall>m\<in>set ms. cDigest m = d \<and> snd (cSenderInfo m) = sender"
    "ms \<noteq> []"
  shows "\<exists>outs p'. runEvents (pbftStep keccak rlpBlock) (map EvCommit ms) p = Inr (outs, p') \<and>
    d \<in> isReply p'"
proof -
  have "card ((fst \<circ> cSenderInfo) ` set ms) = length ms"
    using distinct_card[OF assms(4)] by simp
  with commits_run[OF assms(1) _ assms(6), of d keccak rlpBlock] assms(3,5) show ?thesis by auto
qed

theorem pbft_votes_per_message_witness:
  "\<exists>outs p'. runEvents (pbftStep (\<lambda>_. [7]) (\<lambda>_. None))
      (map EvCommit [sampleCommit 1 3, sampleCommit 2 3]) (NewPbftNode (sampleNode 1) 4) = Inr (outs, p') \<and>
    [7] \<in> isReply p'"
  by (rule pbft_votes_per_message[OF sampleNode_fresh(1)])
    (simp_all add: NewPbftNode_def sampleCommit_def)

lemma gobBytes_prefix_free:
  assumes "gobBytes t a @ r = gobBytes t b @ s" "t \<in> {2, 5, 6}" "length a < 2 ^ 60" "length b < 2 ^ 60"
  shows "a = b \<and> r = s"
proof -
  let ?c = "\<lambda>x. gobInt t @ gobUint 0 @ gobUint (length x) @ x"
  have g: "length (gobUint n) \<le> 9" if "n < 256 ^ 8" for n
    using length_minBytes[OF that] by (simp add: gobUint_def)
  have "length (gobInt t) = 1" using assms(2) by (auto simp: gobInt_def gobUint_def)
  then have len: "length (?c x) < 256 ^ 8" if "length x < 2 ^ 60" for x
    using g[of "length x"] g[of 0] that by simp
  from gobMessage_prefix_free[OF _ len[OF assms(3)] len[OF assms(4)]] assms(1)
  have "gobUint (length a) @ a = gobUint (length b) @ b" "r = s" by (auto simp: gobBytes_def)
  with gobUint_prefix_free[of "length a" a "length b" b] assms(3,4) show ?thesis by auto
qed

text \<open>
  C25. A digest identifies its request: two requests whose encodings Keccak does not confuse have the
  same digest exactly when they have the same type, message and time (the time is a 64-bit
  integer, type and message are shorter than 4 GB, which the encoder accepts).
\<close>

theorem getDigest_identifies:
  assumes "inj_on keccak {encodedRequest r1, encodedRequest r2}"
    "\<forall>r\<in>{r1, r2}. length (reqMsgType r) < 2 ^ 32 \<and> length (reqMsg r) < 2 ^ 32 \<and>
       - (2 ^ 63) \<le> reqTime r \<and> reqTime r < 2 ^ 63"
  shows "getDigest keccak r1 = getDigest keccak r2 \<longleftrightarrow> r1 = r2"
proof
  let ?s = "\<lambda>r. stringBytes (reqMsgType r)"
  have short: "length x < 2 ^ 60" if "length x < 2 ^ 32" for x :: bytes using that by simp
  assume "getDigest keccak r1 = getDigest keccak r2"
  then have e: "encodedRequest r1 = encodedRequest r2"
    using assms(1) by (auto simp: getDigest_def dest: inj_onD)
  then have 1: "?s r1 = ?s r2 \<and> gobBytes 5 (reqMsg r1) @ gobInt64 (reqTime r1) =
      gobBytes 5 (reqMsg r2) @ gobInt64 (reqTime r2)"
    unfolding encodedRequest_def by (rule gobBytes_prefix_free) (use assms(2) in \<open>simp_all add: stringBytes_def\<close>)
  then have 2: "reqMsg r1 = reqMsg r2 \<and> gobInt64 (reqTime r1) = gobInt64 (reqTime r2)"
    by (intro gobBytes_prefix_free[of 5]) (use assms(2) short in simp_all)
  then have "reqTime r1 = reqTime r2" using gobInt64_inj assms(2) by simp
  with 1 2 show "r1 = r2" by simp
qed simp

theorem getDigest_identifies_witness:
  "getDigest id sampleRequest \<noteq> getDigest id (sampleRequest\<lparr>reqTime := 4\<rparr>) \<and>
   getDigest id sampleRequest \<noteq> getDigest id (sampleRequest\<lparr>reqMsg := [1]\<rparr>)"
  using getDigest_identifies[of id sampleRequest "sampleRequest\<lparr>reqTime := 4\<rparr>"]
    getDigest_identifies[of id sampleRequest "sampleRequest\<lparr>reqMsg := [1]\<rparr>"]
  by (simp add: sampleRequest_def)

end
