(* ===== verification/Multi_Sign.thy ===== *)
theory Multi_Sign
  imports Prelude
begin

text \<open>
  Multi-signing a time beacon. A node's account signs and verifies (\<^verbatim>\<open>src/node/account.go\<close>), a committee
  leader collects signatures (\<^verbatim>\<open>src/committee/multisign.go\<close>), and the simulated contract of the
  beacon chain checks the result (\<^verbatim>\<open>src/beaconChain/shardContract.go\<close>, \<^verbatim>\<open>contract.go\<close>).

  Elliptic-curve operations, ABI packing and Keccak are not part of the repository: they are the
  parameters \<^verbatim>\<open>C\<close>, \<^verbatim>\<open>abi\<close> and \<^verbatim>\<open>keccak\<close>. An \<^verbatim>\<open>error\<close> they return is \<^verbatim>\<open>None\<close>.
\<close>

section \<open>Time beacons and signatures\<close>

record TimeBeacon =
  tbShardID :: u32
  tbHeight :: u64
  tbBlockHash :: string
  tbTxHash :: string
  tbStatusHash :: string

record SignedTB =
  stbTimeBeacon :: TimeBeacon
  stbSeedHeight :: u64
  stbSigners :: "address list"
  stbSigs :: "bytes list"
  stbVrfs :: "bytes list"

definition TimeBeacon_Hash :: "(TimeBeacon \<Rightarrow> bytes option) \<Rightarrow> (bytes \<Rightarrow> bytes) \<Rightarrow> TimeBeacon \<Rightarrow> bytes go" where
  "TimeBeacon_Hash abi keccak tb =
    (case abi tb of None \<Rightarrow> Inl (Exit ''arguments.pack'') | Some encoded \<Rightarrow> Inr (keccak encoded))"

record ('pk, 'sk) crypto =
  crypto_Sign :: "bytes \<Rightarrow> 'sk \<Rightarrow> bytes option"
  Ecrecover :: "bytes \<Rightarrow> bytes \<Rightarrow> bytes option"
  UnmarshalPubkey :: "bytes \<Rightarrow> 'pk option"
  PubkeyToAddress :: "'pk \<Rightarrow> address"

record 'sk W3Account =
  privateKey :: 'sk
  accountAddr :: address

definition SignHash :: "('pk, 'sk) crypto \<Rightarrow> 'sk W3Account \<Rightarrow> bytes \<Rightarrow> bytes go" where
  "SignHash C acc h =
    (case crypto_Sign C h (privateKey acc) of None \<Rightarrow> Inl (Exit ''signHashFail'') | Some sig \<Rightarrow> Inr sig)"

definition recoverAddr :: "('pk, 'sk) crypto \<Rightarrow> bytes \<Rightarrow> bytes \<Rightarrow> address go" where
  "recoverAddr C msgHash sig =
    (case Ecrecover C msgHash sig of None \<Rightarrow> Inl (Exit ''ecrecover fail'')
     | Some pubKeyBytes \<Rightarrow>
        (case UnmarshalPubkey C pubKeyBytes of None \<Rightarrow> Inl (Exit ''UnmarshalPubkey fail'')
         | Some pubkey \<Rightarrow> Inr (PubkeyToAddress C pubkey)))"

definition VerifySignature :: "('pk, 'sk) crypto \<Rightarrow> bytes \<Rightarrow> bytes \<Rightarrow> address \<Rightarrow> bool go" where
  "VerifySignature C msgHash sig expected_addr =
    go_bind (recoverAddr C msgHash sig) (\<lambda>recovered_addr. Inr (recovered_addr = expected_addr))"

record VRFResult =
  RandomValue :: bytes
  Proof :: bytes

definition GenerateVRFOutput :: "('pk, 'sk) crypto \<Rightarrow> 'sk W3Account \<Rightarrow> bytes \<Rightarrow> VRFResult go" where
  "GenerateVRFOutput C acc randSeed =
    go_bind (SignHash C acc randSeed) (\<lambda>sig. Inr \<lparr>RandomValue = sig, Proof = accountAddr acc\<rparr>)"

text \<open>\<^verbatim>\<open>common.BytesToAddress\<close> keeps the last 20 bytes and pads on the left.\<close>

definition BytesToAddress :: "bytes \<Rightarrow> address" where
  "BytesToAddress b = (if length b > 20 then drop (length b - 20) b else replicate (20 - length b) 0 @ b)"

definition VerifyVRFOutput :: "('pk, 'sk) crypto \<Rightarrow> VRFResult \<Rightarrow> bytes \<Rightarrow> bool go" where
  "VerifyVRFOutput C vrfResult randSeed =
    VerifySignature C randSeed (RandomValue vrfResult) (BytesToAddress (Proof vrfResult))"

section \<open>Collecting signatures in a committee\<close>

record ComLeaderInitMultiSign =
  reqSeed :: bytes
  reqSeedHeight :: u64
  reqTb :: TimeBeacon

record MultiSignReply =
  msrRequest :: ComLeaderInitMultiSign
  msrPubAddress :: address
  msrSig :: bytes
  msrVrfValue :: bytes

record MultiSignData =
  MultiSignDone :: nat
  Vrfs :: "bytes list"
  Sigs :: "bytes list"
  Signers :: "address list"

definition vrfResultIsGood :: "bytes \<Rightarrow> bool go" where
  "vrfResultIsGood val = (if val = [] then Inl (Panic ''index out of range'') else Inr (val ! 0 \<ge> 0))"

text \<open>
  \<^verbatim>\<open>initMultiSign\<close> clears the collected data and broadcasts a request; when enough
  signatures have arrived, or the worker is told to exit, it returns what was collected. It takes
  \<^verbatim>\<open>multiSignLock\<close> neither for clearing nor for reading, so a reply handled in the middle of either
  would meet a partly cleared record; a round of the model starts after the last assignment, which
  is also before the request is sent, and ends when the data is read.
\<close>

definition initMultiSign_start :: "TimeBeacon \<Rightarrow> bytes \<Rightarrow> u64 \<Rightarrow> ComLeaderInitMultiSign \<times> MultiSignData" where
  "initMultiSign_start tb seed height =
    (\<lparr>reqSeed = seed, reqSeedHeight = height, reqTb = tb\<rparr>,
     \<lparr>MultiSignDone = 0, Vrfs = [], Sigs = [], Signers = []\<rparr>)"

definition initMultiSign_result :: "TimeBeacon \<Rightarrow> u64 \<Rightarrow> MultiSignData \<Rightarrow> SignedTB" where
  "initMultiSign_result tb height d =
    \<lparr>stbTimeBeacon = tb, stbSeedHeight = height, stbSigners = Signers d, stbSigs = Sigs d, stbVrfs = Vrfs d\<rparr>"

definition HandleMultiSignRequest ::
  "('pk, 'sk) crypto \<Rightarrow> (TimeBeacon \<Rightarrow> bytes option) \<Rightarrow> (bytes \<Rightarrow> bytes) \<Rightarrow> 'sk W3Account \<Rightarrow>
   ComLeaderInitMultiSign \<Rightarrow> MultiSignReply option go" where
  "HandleMultiSignRequest C abi keccak acc request =
    go_bind (GenerateVRFOutput C acc (reqSeed request)) (\<lambda>vrf.
    go_bind (vrfResultIsGood (RandomValue vrf)) (\<lambda>good.
    if \<not> good then Inr None else
    go_bind (TimeBeacon_Hash abi keccak (reqTb request)) (\<lambda>h.
    go_bind (SignHash C acc h) (\<lambda>sig.
    Inr (Some \<lparr>msrRequest = request, msrPubAddress = accountAddr acc, msrSig = sig,
               msrVrfValue = RandomValue vrf\<rparr>)))))"

definition HandleMultiSignReply ::
  "('pk, 'sk) crypto \<Rightarrow> (TimeBeacon \<Rightarrow> bytes option) \<Rightarrow> (bytes \<Rightarrow> bytes) \<Rightarrow> int \<Rightarrow>
   MultiSignReply \<Rightarrow> MultiSignData \<Rightarrow> MultiSignData go" where
  "HandleMultiSignReply C abi keccak MultiSignRequiredNum r d =
    (if int (length (Signers d)) \<ge> MultiSignRequiredNum then Inr d else
     go_bind (VerifySignature C (reqSeed (msrRequest r)) (msrVrfValue r) (msrPubAddress r)) (\<lambda>ok1.
     if \<not> ok1 then Inr d else
     go_bind (vrfResultIsGood (msrVrfValue r)) (\<lambda>good.
     if \<not> good then Inr d else
     go_bind (TimeBeacon_Hash abi keccak (reqTb (msrRequest r))) (\<lambda>tbHash.
     go_bind (VerifySignature C tbHash (msrSig r) (msrPubAddress r)) (\<lambda>ok2.
     if \<not> ok2 then Inr d else
     let d' = d\<lparr>Signers := Signers d @ [msrPubAddress r], Sigs := Sigs d @ [msrSig r],
                Vrfs := Vrfs d @ [msrVrfValue r]\<rparr>
     in if int (length (Sigs d')) = MultiSignRequiredNum
        then if MultiSignDone d' \<ge> 1 then Inl (Blocked ''MultiSignDone'')
             else Inr (d'\<lparr>MultiSignDone := MultiSignDone d' + 1\<rparr>)
        else Inr d')))))"

section \<open>The contract\<close>

record ShardContract =
  shardID :: int
  required_validators_num_for_sign :: int

definition NewShardContract :: "int \<Rightarrow> int \<Rightarrow> ShardContract" where
  "NewShardContract sid required = \<lparr>shardID = sid, required_validators_num_for_sign = required\<rparr>"

definition NewContract :: "nat \<Rightarrow> int \<Rightarrow> ShardContract list" where
  "NewContract shardNum required = map (\<lambda>i. NewShardContract (int i) required) [0..<shardNum]"

definition checkAddressValidity :: "address \<Rightarrow> bool" where
  "checkAddressValidity a = True"

text \<open>The loop over the signers: the pairs left to check and the valid signatures so far.\<close>

fun verifyLoop ::
  "('pk, 'sk) crypto \<Rightarrow> int \<Rightarrow> bytes \<Rightarrow> address list \<Rightarrow> bytes list \<Rightarrow> int \<Rightarrow> bool go" where
  "verifyLoop C required msgHash [] sigs sig_num = Inr False"
| "verifyLoop C required msgHash (signer # signers) [] sig_num = Inl (Panic ''index out of range'')"
| "verifyLoop C required msgHash (signer # signers) (sig # sigs) sig_num =
    go_bind (recoverAddr C msgHash sig) (\<lambda>recovered_addr.
    if \<not> checkAddressValidity recovered_addr then Inl (Exit ''shardContract check address validity fail.'')
    else if recovered_addr = signer
    then if sig_num + 1 \<ge> required then Inr True
         else verifyLoop C required msgHash signers sigs (sig_num + 1)
    else verifyLoop C required msgHash signers sigs sig_num)"

definition VerifyTimeBeacon ::
  "('pk, 'sk) crypto \<Rightarrow> (TimeBeacon \<Rightarrow> bytes option) \<Rightarrow> (bytes \<Rightarrow> bytes) \<Rightarrow> ShardContract \<Rightarrow>
   SignedTB \<Rightarrow> bool go" where
  "VerifyTimeBeacon C abi keccak contract tb =
    go_bind (TimeBeacon_Hash abi keccak (stbTimeBeacon tb)) (\<lambda>msgHash.
    verifyLoop C (required_validators_num_for_sign contract) msgHash (stbSigners tb) (stbSigs tb) 0)"

section \<open>Rounds\<close>

definition multiSignStep ::
  "('pk, 'sk) crypto \<Rightarrow> (TimeBeacon \<Rightarrow> bytes option) \<Rightarrow> (bytes \<Rightarrow> bytes) \<Rightarrow> int \<Rightarrow>
   MultiSignReply \<Rightarrow> MultiSignData \<Rightarrow> (unit list \<times> MultiSignData) go" where
  "multiSignStep C abi keccak required r d =
    go_bind (HandleMultiSignReply C abi keccak required r d) (\<lambda>d'. Inr ([], d'))"

definition validReply ::
  "('pk, 'sk) crypto \<Rightarrow> (TimeBeacon \<Rightarrow> bytes option) \<Rightarrow> (bytes \<Rightarrow> bytes) \<Rightarrow> MultiSignReply \<Rightarrow> bool" where
  "validReply C abi keccak r \<longleftrightarrow>
    VerifySignature C (reqSeed (msrRequest r)) (msrVrfValue r) (msrPubAddress r) = Inr True \<and>
    (case TimeBeacon_Hash abi keccak (reqTb (msrRequest r)) of Inl e \<Rightarrow> False
     | Inr h \<Rightarrow> VerifySignature C h (msrSig r) (msrPubAddress r) = Inr True)"

definition emptyRound :: MultiSignData where
  "emptyRound = \<lparr>MultiSignDone = 0, Vrfs = [], Sigs = [], Signers = []\<rparr>"

definition collected ::
  "('pk, 'sk) crypto \<Rightarrow> (TimeBeacon \<Rightarrow> bytes option) \<Rightarrow> (bytes \<Rightarrow> bytes) \<Rightarrow> int \<Rightarrow>
   MultiSignReply list \<Rightarrow> unit list \<Rightarrow> MultiSignData \<Rightarrow> bool" where
  "collected C abi keccak required rs outs d \<longleftrightarrow>
    (let acc = take (nat required) (filter (validReply C abi keccak) rs)
     in 0 < required \<and> outs = [] \<and> Signers d = map msrPubAddress acc \<and> Sigs d = map msrSig acc \<and>
        Vrfs d = map msrVrfValue acc \<and>
        MultiSignDone d = (if int (length acc) = required then 1 else 0))"

section \<open>What the contract accepts\<close>

definition sigOk :: "('pk, 'sk) crypto \<Rightarrow> bytes \<Rightarrow> address \<times> bytes \<Rightarrow> bool" where
  "sigOk C h p \<longleftrightarrow> VerifySignature C h (snd p) (fst p) = Inr True"

lemma VerifySignature_iff:
  "VerifySignature C h sig a = Inr b \<longleftrightarrow> (\<exists>r. recoverAddr C h sig = Inr r \<and> b = (r = a))"
  by (auto simp: VerifySignature_def go_bind_eq_Inr_iff)

text \<open>The loop answers whether enough of the pairs are valid, whatever it recovers.\<close>

lemma verifyLoop_count:
  assumes "length sigs = length signers" "\<forall>sig\<in>set sigs. \<exists>a. recoverAddr C h sig = Inr a" "n < required"
  shows "verifyLoop C required h signers sigs n =
    Inr (n + int (length (filter (sigOk C h) (zip signers sigs))) \<ge> required)"
  using assms
proof (induction signers sigs arbitrary: n rule: list_induct2')
  case (4 signer signers sig sigs)
  then obtain a where a: "recoverAddr C h sig = Inr a" by auto
  show ?case
  proof (cases "a = signer \<and> required \<le> n + 1")
    case True
    with a show ?thesis by (simp add: checkAddressValidity_def sigOk_def VerifySignature_def)
  next
    case False
    with a "4.IH"[of "n + (if a = signer then 1 else 0)"] "4.prems" show ?thesis
      by (auto simp: checkAddressValidity_def sigOk_def VerifySignature_def)
  qed
qed auto

section \<open>What the leader collects\<close>

lemma HandleMultiSignReply_cases:
  assumes "HandleMultiSignReply C abi keccak required r d = Inr d'" "int (length (Signers d)) < required"
  shows "if validReply C abi keccak r
    then d' = d\<lparr>Signers := Signers d @ [msrPubAddress r], Sigs := Sigs d @ [msrSig r],
                Vrfs := Vrfs d @ [msrVrfValue r],
                MultiSignDone := (if int (length (Sigs d)) + 1 = required then MultiSignDone d + 1
                                  else MultiSignDone d)\<rparr>
    else d' = d"
  using assms
  by (auto simp: HandleMultiSignReply_def validReply_def Let_def go_bind_eq_Inr_iff vrfResultIsGood_def
      split: if_splits)

lemma take_snoc_filter:
  "take n (filter P (xs @ [x])) =
    (if length (filter P xs) < n \<and> P x then filter P xs @ [x] else take n (filter P xs))"
  by auto

lemma collected_step:
  assumes "collected C abi keccak required rs outs d" "multiSignStep C abi keccak required r d = Inr (out, d')"
  shows "collected C abi keccak required (rs @ [r]) (outs @ out) d'"
proof -
  let ?V = "validReply C abi keccak"
  from assms(2) have h: "HandleMultiSignReply C abi keccak required r d = Inr d'" "out = []"
    by (auto simp: multiSignStep_def go_bind_eq_Inr_iff)
  show ?thesis
  proof (cases "int (length (filter ?V rs)) < required")
    case True
    then have t: "take (nat required) (filter ?V rs) = filter ?V rs" "length (filter ?V rs) < nat required"
      by simp_all
    with assms(1) have "int (length (Signers d)) < required" by (simp add: collected_def Let_def)
    from HandleMultiSignReply_cases[OF h(1) this] show ?thesis
      using assms(1) t h(2) True unfolding collected_def Let_def take_snoc_filter
      by (auto split: if_splits)
  next
    case False
    with assms(1) have "int (length (Signers d)) \<ge> required" by (simp add: collected_def Let_def)
    then have "d' = d" using h(1) by (simp add: HandleMultiSignReply_def)
    moreover have "\<not> length (filter ?V rs) < nat required" using False by linarith
    ultimately show ?thesis
      using assms(1) h(2) unfolding collected_def Let_def take_snoc_filter by simp
  qed
qed

lemma collected_empty: "d = emptyRound \<and> 0 < required \<Longrightarrow> collected C abi keccak required [] [] d"
  by (auto simp: collected_def emptyRound_def)

interpretation round: event_machine "multiSignStep C abi keccak required"
  "\<lambda>d. d = emptyRound \<and> 0 < required" "collected C abi keccak required"
  for C :: "('pk, 'sk) crypto" and abi keccak required
  by unfold_locales (rule collected_empty, assumption, rule collected_step)

section \<open>Honest members\<close>

text \<open>
  The documented behaviour of signing: recovering the key from a signature and the message
  gives the signer's public key, hence the signer's address; a signature is not empty.
\<close>

locale signature_scheme =
  fixes C :: "('pk, 'sk) crypto" and addrOf :: "'sk \<Rightarrow> address"
  assumes sign_recovers: "crypto_Sign C h sk = Some sig \<Longrightarrow>
      \<exists>b pk. Ecrecover C h sig = Some b \<and> UnmarshalPubkey C b = Some pk \<and> PubkeyToAddress C pk = addrOf sk"
    and sign_nonempty: "crypto_Sign C h sk = Some sig \<Longrightarrow> sig \<noteq> []"
begin

lemma sign_verifies: "crypto_Sign C h sk = Some sig \<Longrightarrow> VerifySignature C h sig (addrOf sk) = Inr True"
  using sign_recovers[of h sk sig] by (auto simp: VerifySignature_def recoverAddr_def)

lemma honest_reply_valid:
  assumes "HandleMultiSignRequest C abi keccak acc request = Inr (Some r)"
    "accountAddr acc = addrOf (privateKey acc)"
  shows "validReply C abi keccak r" "msrVrfValue r \<noteq> []" "msrRequest r = request"
    "msrPubAddress r = accountAddr acc"
  using assms
  by (auto simp: HandleMultiSignRequest_def GenerateVRFOutput_def SignHash_def go_bind_eq_Inr_iff
      validReply_def vrfResultIsGood_def sign_verifies split: option.splits if_splits)

end

definition sampleCrypto :: "(bytes, bytes) crypto" where
  "sampleCrypto = \<lparr>crypto_Sign = (\<lambda>h sk. Some (1 # sk @ h)),
     Ecrecover = (\<lambda>h sig. Some (let t = tl sig; n = length t - length h in
        if drop n t = h then take n t else 0 # t)),
     UnmarshalPubkey = Some, PubkeyToAddress = id\<rparr>"

interpretation sample: signature_scheme sampleCrypto id
  by unfold_locales (auto simp: sampleCrypto_def)

section \<open>Sample data\<close>

definition sampleTB :: "u64 \<Rightarrow> TimeBeacon" where
  "sampleTB h = \<lparr>tbShardID = 0, tbHeight = h, tbBlockHash = [], tbTxHash = [], tbStatusHash = []\<rparr>"

definition sampleAbi :: "TimeBeacon \<Rightarrow> bytes option" where
  "sampleAbi tb = Some (putUint64 (tbHeight tb))"

definition sampleAccount :: "byte \<Rightarrow> bytes W3Account" where
  "sampleAccount b = \<lparr>privateKey = [b], accountAddr = [b]\<rparr>"

definition sampleSignReply :: "u64 \<Rightarrow> byte \<Rightarrow> MultiSignReply" where
  "sampleSignReply h b = \<lparr>msrRequest = \<lparr>reqSeed = [9], reqSeedHeight = 1, reqTb = sampleTB h\<rparr>,
     msrPubAddress = [b], msrSig = 1 # b # putUint64 h, msrVrfValue = [1, b, 9]\<rparr>"

lemma sampleSignReply_made:
  "HandleMultiSignRequest sampleCrypto sampleAbi id (sampleAccount b)
     \<lparr>reqSeed = [9], reqSeedHeight = 1, reqTb = sampleTB h\<rparr> = Inr (Some (sampleSignReply h b))"
  by (simp add: HandleMultiSignRequest_def GenerateVRFOutput_def SignHash_def sampleCrypto_def
      sampleAccount_def vrfResultIsGood_def TimeBeacon_Hash_def sampleAbi_def sampleTB_def
      sampleSignReply_def)

lemma sampleSignReply_valid: "validReply sampleCrypto sampleAbi id (sampleSignReply h b)"
  using sample.honest_reply_valid(1)[OF sampleSignReply_made] by (simp add: sampleAccount_def)

lemma validReply_not_full:
  assumes "validReply C abi keccak r" "msrVrfValue r \<noteq> []" "int (length (Signers d)) < required"
    "MultiSignDone d = 0"
  shows "\<exists>d'. HandleMultiSignReply C abi keccak required r d = Inr d'"
  using assms by (auto simp: HandleMultiSignReply_def validReply_def vrfResultIsGood_def Let_def
      split: sum.splits)

text \<open>A run over valid replies never fails.\<close>

lemma valid_run:
  assumes "\<forall>r\<in>set rs. validReply C abi keccak r \<and> msrVrfValue r \<noteq> []" "0 < required"
  shows "\<exists>d. runEvents (multiSignStep C abi keccak required) rs emptyRound = Inr ([], d)"
  using assms(1)
proof (induction rs rule: rev_induct)
  case (snoc r rs)
  then obtain d where d: "runEvents (multiSignStep C abi keccak required) rs emptyRound = Inr ([], d)" by auto
  then have c: "collected C abi keccak required rs [] d"
    using round.hinv_run assms(2) by blast
  have "\<exists>d'. HandleMultiSignReply C abi keccak required r d = Inr d'"
  proof (cases "int (length (Signers d)) < required")
    case True
    then show ?thesis using c snoc.prems by (intro validReply_not_full) (auto simp: collected_def Let_def)
  qed (simp add: HandleMultiSignReply_def)
  then obtain d' where "multiSignStep C abi keccak required r d = Inr ([], d')"
    by (auto simp: multiSignStep_def)
  with d show ?case by (simp add: runEvents_append)
qed (simp add: emptyRound_def)

lemma replies_of_honest:
  assumes "signature_scheme C addrOf"
    "list_all2 (\<lambda>acc r. accountAddr acc = addrOf (privateKey acc) \<and>
       HandleMultiSignRequest C abi keccak acc request = Inr (Some r)) accs rs"
  shows "\<forall>r\<in>set rs. validReply C abi keccak r \<and> msrVrfValue r \<noteq> [] \<and> reqTb (msrRequest r) = reqTb request"
    "map msrPubAddress rs = map accountAddr accs"
proof -
  show "\<forall>r\<in>set rs. validReply C abi keccak r \<and> msrVrfValue r \<noteq> [] \<and> reqTb (msrRequest r) = reqTb request"
    using assms(2) by (induction rule: list_all2_induct)
      (auto dest: signature_scheme.honest_reply_valid[OF assms(1)])
  show "map msrPubAddress rs = map accountAddr accs"
    using assms(2) by (induction rule: list_all2_induct)
      (auto dest: signature_scheme.honest_reply_valid[OF assms(1)])
qed

lemma multisign_contract_helper:
  assumes "0 < required"
    "runEvents (multiSignStep C abi keccak required) rs emptyRound = Inr (outs, d)"
    "MultiSignDone d = 1" "\<forall>r\<in>set rs. reqTb (msrRequest r) = tb"
  shows "VerifyTimeBeacon C abi keccak (NewShardContract sid required) (initMultiSign_result tb height d)
    = Inr True"
proof -
  define acc where "acc = take (nat required) (filter (validReply C abi keccak) rs)"
  have "collected C abi keccak required rs outs d" using round.hinv_run[OF assms(2)] assms(1) by simp
  then have c: "Signers d = map msrPubAddress acc" "Sigs d = map msrSig acc" "int (length acc) = required"
    using assms(3) unfolding collected_def Let_def acc_def[symmetric] by (blast, blast, metis zero_neq_one)
  have v: "\<forall>r\<in>set acc. validReply C abi keccak r \<and> reqTb (msrRequest r) = tb"
    using assms(4) by (auto simp: acc_def dest: in_set_takeD)
  then obtain h where h: "TimeBeacon_Hash abi keccak tb = Inr h"
    using c(3) assms(1) by (cases acc) (auto simp: validReply_def split: sum.splits)
  have ok: "VerifySignature C h (msrSig r) (msrPubAddress r) = Inr True" if "r \<in> set acc" for r
    using bspec[OF v that] h by (auto simp: validReply_def)
  then have rec: "\<forall>sig\<in>set (Sigs d). \<exists>a. recoverAddr C h sig = Inr a"
    unfolding c(2) by (auto simp: VerifySignature_iff)
  have "sigOk C h p" if "p \<in> set (zip (Signers d) (Sigs d))" for p
    using that ok unfolding c(1,2) sigOk_def by (auto simp: set_zip)
  then have "filter (sigOk C h) (zip (Signers d) (Sigs d)) = zip (Signers d) (Sigs d)" by simp
  then show ?thesis
    using verifyLoop_count[OF _ rec assms(1), of "Signers d"] c h
    by (simp add: VerifyTimeBeacon_def initMultiSign_result_def NewShardContract_def)
qed

lemma length_filter_all: "length xs \<le> length (filter P xs) \<longleftrightarrow> (\<forall>x\<in>set xs. P x)"
  by (metis filter_True length_filter_less not_less order_refl)

section \<open>Properties\<close>

text \<open>
  C26. What a leader collects. Whatever replies reach the leader in a round that needs a positive
  number of signatures, it ends up with exactly the signers, signatures and VRF values of the
  first \<^verbatim>\<open>MultiSignRequiredNum\<close> valid ones, in order of arrival, and signals the end of the round
  once, exactly when that many have arrived.
\<close>

theorem multisign_collects_valid:
  assumes "0 < required"
    "runEvents (multiSignStep C abi keccak required) rs emptyRound = Inr (outs, d)"
  shows "let acc = take (nat required) (filter (validReply C abi keccak) rs) in
    Signers d = map msrPubAddress acc \<and> Sigs d = map msrSig acc \<and> Vrfs d = map msrVrfValue acc \<and>
    MultiSignDone d = (if int (length acc) = required then 1 else 0)"
  using round.hinv_run[OF assms(2)] assms(1) by (simp add: collected_def Let_def)

theorem multisign_collects_valid_witness:
  "\<exists>d. runEvents (multiSignStep sampleCrypto sampleAbi id 2) [sampleSignReply 3 5, sampleSignReply 3 6,
      sampleSignReply 3 7] emptyRound = Inr ([], d) \<and> Signers d = [[5], [6]] \<and> MultiSignDone d = 1"
proof -
  obtain d where d: "runEvents (multiSignStep sampleCrypto sampleAbi id 2) [sampleSignReply 3 5,
      sampleSignReply 3 6, sampleSignReply 3 7] emptyRound = Inr ([], d)"
    using valid_run[of "[sampleSignReply 3 5, sampleSignReply 3 6, sampleSignReply 3 7]" sampleCrypto
        sampleAbi id 2] sampleSignReply_valid by (auto simp: sampleSignReply_def)
  from multisign_collects_valid[OF _ d] d show ?thesis
    by (simp add: sampleSignReply_valid Let_def) (simp add: sampleSignReply_def)
qed

text \<open>
  C11. A finished round convinces the contract. If every reply of the round is to the request
  for this time beacon and the round has finished, the signed beacon the leader builds
  is accepted by the beacon chain's contract with the same threshold.
\<close>

theorem multisign_accepted_by_contract:
  assumes "0 < required"
    "runEvents (multiSignStep C abi keccak required) rs emptyRound = Inr (outs, d)"
    "MultiSignDone d = 1" "\<forall>r\<in>set rs. reqTb (msrRequest r) = tb"
  shows "VerifyTimeBeacon C abi keccak (NewShardContract sid required) (initMultiSign_result tb height d)
    = Inr True"
  by (rule multisign_contract_helper[OF assms])

theorem multisign_accepted_by_contract_witness:
  "\<exists>d. runEvents (multiSignStep sampleCrypto sampleAbi id 2) [sampleSignReply 3 5, sampleSignReply 3 6]
      emptyRound = Inr ([], d) \<and>
    VerifyTimeBeacon sampleCrypto sampleAbi id (NewShardContract 0 2)
      (initMultiSign_result (sampleTB 3) 1 d) = Inr True"
proof -
  obtain d where d: "runEvents (multiSignStep sampleCrypto sampleAbi id 2) [sampleSignReply 3 5,
      sampleSignReply 3 6] emptyRound = Inr ([], d)"
    using valid_run[of "[sampleSignReply 3 5, sampleSignReply 3 6]" sampleCrypto sampleAbi id 2]
      sampleSignReply_valid by (auto simp: sampleSignReply_def)
  have "MultiSignDone d = 1"
    using round.hinv_run[OF d] by (simp add: collected_def Let_def sampleSignReply_valid)
  from multisign_accepted_by_contract[OF _ d this, of "sampleTB 3" 0 1] d show ?thesis
    by (simp add: sampleSignReply_def)
qed

text \<open>
  C27. Honest members finish a round. When as many members as needed run the request handler on the
  leader's request, with a signature scheme from which signers can be recovered, and their
  replies reach the leader, the round finishes with exactly these members as signers.
\<close>

theorem multisign_honest_round_finishes:
  assumes "signature_scheme C addrOf" "accs \<noteq> []"
    "list_all2 (\<lambda>acc r. accountAddr acc = addrOf (privateKey acc) \<and>
       HandleMultiSignRequest C abi keccak acc request = Inr (Some r)) accs rs"
  shows "\<exists>d. runEvents (multiSignStep C abi keccak (int (length accs))) rs emptyRound = Inr ([], d) \<and>
    MultiSignDone d = 1 \<and> Signers d = map accountAddr accs"
proof -
  note h = replies_of_honest[OF assms(1,3)]
  have len: "length rs = length accs" using list_all2_lengthD[OF assms(3)] by simp
  obtain d where d: "runEvents (multiSignStep C abi keccak (int (length accs))) rs emptyRound = Inr ([], d)"
    using valid_run[of rs C abi keccak "int (length accs)"] h(1) assms(2) by auto
  moreover have "filter (validReply C abi keccak) rs = rs" using h(1) by simp
  ultimately show ?thesis
    using round.hinv_run[OF d] assms(2) h(2) len by (auto simp: collected_def Let_def)
qed

theorem multisign_honest_round_finishes_witness:
  "\<exists>d. runEvents (multiSignStep sampleCrypto sampleAbi id (int (length [sampleAccount 5, sampleAccount 6])))
      [sampleSignReply 3 5, sampleSignReply 3 6] emptyRound = Inr ([], d) \<and>
    MultiSignDone d = 1 \<and> Signers d = map accountAddr [sampleAccount 5, sampleAccount 6]"
  by (rule multisign_honest_round_finishes[OF sample.signature_scheme_axioms,
        where request = "\<lparr>reqSeed = [9], reqSeedHeight = 1, reqTb = sampleTB 3\<rparr>"])
    (simp_all add: sampleSignReply_made, simp_all add: sampleAccount_def)

text \<open>
  C28. Signers are not told apart. One member whose valid reply is delivered as often as signatures are
  needed finishes a round alone, and the contract accepts the result.
\<close>

theorem multisign_one_signer_suffices:
  assumes "0 < required" "validReply C abi keccak r" "msrVrfValue r \<noteq> []"
  shows "\<exists>d. runEvents (multiSignStep C abi keccak required) (replicate (nat required) r) emptyRound
      = Inr ([], d) \<and> MultiSignDone d = 1 \<and> set (Signers d) = {msrPubAddress r} \<and>
    VerifyTimeBeacon C abi keccak (NewShardContract sid required)
      (initMultiSign_result (reqTb (msrRequest r)) height d) = Inr True"
proof -
  obtain d where d: "runEvents (multiSignStep C abi keccak required) (replicate (nat required) r) emptyRound
      = Inr ([], d)" using valid_run[of "replicate (nat required) r" C abi keccak required] assms by auto
  have "take (nat required) (filter (validReply C abi keccak) (replicate (nat required) r)) =
      replicate (nat required) r" using assms(2) by simp
  then have "MultiSignDone d = 1" "Signers d = replicate (nat required) (msrPubAddress r)"
    using round.hinv_run[OF d] assms(1) by (auto simp: collected_def Let_def)
  with d multisign_contract_helper[OF assms(1) d] assms(1) show ?thesis by auto
qed

theorem multisign_one_signer_suffices_witness:
  "\<exists>d. runEvents (multiSignStep sampleCrypto sampleAbi id 2) (replicate (nat 2) (sampleSignReply 3 5))
      emptyRound = Inr ([], d) \<and> MultiSignDone d = 1 \<and> set (Signers d) = {[5]}"
  using multisign_one_signer_suffices[OF _ sampleSignReply_valid, of 2 3 5 0 1]
  by (simp add: sampleSignReply_def) metis

text \<open>
  C29. The leader does not compare the request a reply answers with its own. Once enough valid replies
  have arrived, to whatever requests, the round has finished, and the contract accepts the
  signed beacon of the round exactly when every signature that was counted is one on this
  beacon: a single counted reply to another beacon's request makes the contract reject it
  (where the signer of each signature can be recovered).
\<close>

theorem multisign_stale_reply_counts:
  assumes "0 < required"
    "runEvents (multiSignStep C abi keccak required) rs emptyRound = Inr (outs, d)"
    "required \<le> int (length (filter (validReply C abi keccak) rs))"
    "TimeBeacon_Hash abi keccak tb = Inr h" "\<forall>r\<in>set rs. \<exists>a. recoverAddr C h (msrSig r) = Inr a"
  shows "MultiSignDone d = 1 \<and>
    VerifyTimeBeacon C abi keccak (NewShardContract sid required) (initMultiSign_result tb height d) =
      Inr (\<forall>r\<in>set (take (nat required) (filter (validReply C abi keccak) rs)).
        VerifySignature C h (msrSig r) (msrPubAddress r) = Inr True)"
proof -
  define acc where "acc = take (nat required) (filter (validReply C abi keccak) rs)"
  have len: "int (length acc) = required" using assms(1,3) by (simp add: acc_def)
  have "collected C abi keccak required rs outs d" using round.hinv_run[OF assms(2)] assms(1) by simp
  with len have c: "Signers d = map msrPubAddress acc" "Sigs d = map msrSig acc" "MultiSignDone d = 1"
    unfolding collected_def Let_def acc_def[symmetric] by simp_all
  have rec: "\<forall>sig\<in>set (Sigs d). \<exists>a. recoverAddr C h sig = Inr a"
    using assms(5) unfolding c(2) by (auto simp: acc_def dest: in_set_takeD)
  have z: "zip (Signers d) (Sigs d) = map (\<lambda>r. (msrPubAddress r, msrSig r)) acc"
    unfolding c(1,2) by (rule zip_map_map[THEN trans]) (simp add: zip_same_conv_map)
  have "required \<le> int (length (filter (sigOk C h) (zip (Signers d) (Sigs d)))) \<longleftrightarrow>
      (\<forall>r\<in>set acc. VerifySignature C h (msrSig r) (msrPubAddress r) = Inr True)"
    using length_filter_all[of "zip (Signers d) (Sigs d)" "sigOk C h"]
    unfolding z len[symmetric] by (simp add: sigOk_def)
  then show ?thesis
    using verifyLoop_count[OF _ rec assms(1), of "Signers d"] c assms(4)
    by (simp add: VerifyTimeBeacon_def initMultiSign_result_def NewShardContract_def acc_def)
qed

theorem multisign_stale_reply_counts_witness:
  "\<exists>d. runEvents (multiSignStep sampleCrypto sampleAbi id 2) [sampleSignReply 3 5, sampleSignReply 2 6] emptyRound
      = Inr ([], d) \<and> MultiSignDone d = 1 \<and>
    VerifyTimeBeacon sampleCrypto sampleAbi id (NewShardContract 0 2)
      (initMultiSign_result (sampleTB 3) 1 d) = Inr False"
proof -
  let ?rs = "[sampleSignReply 3 5, sampleSignReply 2 6]"
  obtain d where d: "runEvents (multiSignStep sampleCrypto sampleAbi id 2) ?rs emptyRound = Inr ([], d)"
    using valid_run[of ?rs sampleCrypto sampleAbi id 2] sampleSignReply_valid by (auto simp: sampleSignReply_def)
  have "TimeBeacon_Hash sampleAbi id (sampleTB 3) = Inr (putUint64 3)"
    by (simp add: TimeBeacon_Hash_def sampleAbi_def sampleTB_def)
  moreover have "\<forall>r\<in>set ?rs. \<exists>a. recoverAddr sampleCrypto (putUint64 3) (msrSig r) = Inr a"
    by (simp add: recoverAddr_def sampleCrypto_def)
  moreover have "VerifySignature sampleCrypto (putUint64 3) (msrSig (sampleSignReply 2 6))
      (msrPubAddress (sampleSignReply 2 6)) \<noteq> Inr True"
    by (simp add: VerifySignature_def recoverAddr_def sampleCrypto_def sampleSignReply_def Let_def)
  ultimately show ?thesis
    using multisign_stale_reply_counts[OF _ d _, of "sampleTB 3" "putUint64 3" 0 1] d
    by (simp add: sampleSignReply_valid)
qed

end
