(* ===== verification/Beacon_Chain.thy ===== *)
theory Beacon_Chain
  imports Multi_Sign
begin

text \<open>
  \<^verbatim>\<open>src/beaconChain/\<close>: the beacon chain that confirms the time beacons of the shards. In mode 0 it is
  simulated: submitted beacons wait in \<^verbatim>\<open>tbs_new\<close>, are checked by the contract when the next block
  is generated, and a block is pushed to its subscribers once it is \<^verbatim>\<open>Height2Confirm\<close> blocks deep.
  In modes 1 and 2 a block is assembled from the events of an external chain.

  A Go map that is iterated is an association list: the order of the list is the order of one
  iteration, which Go leaves open. The channel of events is the list of events waiting in it.
\<close>

section \<open>State\<close>

record ConfirmedTB =
  ctbTimeBeacon :: TimeBeacon
  ctbConfirmTime :: u64
  ctbConfirmHeight :: u64

record TBBlock =
  tbbTime :: u64
  tbbHeight :: u64
  tbbTbs :: "ConfirmedTB list list"

record BeaconChain =
  bcMode :: int
  bcShardNum :: nat
  tbs :: "nat \<Rightarrow> ConfirmedTB list"
  tbs_new :: "(nat \<times> SignedTB list) list"
  bcHeight :: u64
  geth_tbs_new :: "(u64 \<times> (nat \<times> TimeBeacon list) list) list"
  contracts :: "ShardContract list"
  bcAddrs :: "address list list"
  tbBlocks :: "u64 \<rightharpoonup> TBBlock"
  Height2Confirm :: u64
  genesisTBs :: "(nat \<times> TimeBeacon) list"

definition NewTBChain :: "int \<Rightarrow> int \<Rightarrow> u64 \<Rightarrow> nat \<Rightarrow> BeaconChain" where
  "NewTBChain mode required height2Confirm shardNum =
    \<lparr>bcMode = mode, bcShardNum = shardNum, tbs = (\<lambda>_. []), tbs_new = [], bcHeight = 0, geth_tbs_new = [],
     contracts = NewContract shardNum required, bcAddrs = replicate shardNum [], tbBlocks = Map.empty,
     Height2Confirm = height2Confirm, genesisTBs = []\<rparr>"

text \<open>\<^verbatim>\<open>m[k] = append(m[k], v)\<close> on an association list.\<close>

fun appendAt :: "'k \<Rightarrow> 'v \<Rightarrow> ('k \<times> 'v list) list \<Rightarrow> ('k \<times> 'v list) list" where
  "appendAt k v [] = [(k, [v])]"
| "appendAt k v ((k', vs) # m) = (if k = k' then (k', vs @ [v]) # m else (k', vs) # appendAt k v m)"

definition lookupList :: "'k \<Rightarrow> ('k \<times> 'v list) list \<Rightarrow> 'v list" where
  "lookupList k m = (case map_of m k of None \<Rightarrow> [] | Some vs \<Rightarrow> vs)"

section \<open>The simulated chain\<close>

definition AddGenesisTB :: "u64 \<Rightarrow> SignedTB \<Rightarrow> BeaconChain \<Rightarrow> BeaconChain" where
  "AddGenesisTB now signedTb bc =
    (let tb = stbTimeBeacon signedTb; sid = unat (tbShardID tb);
         c = \<lparr>ctbTimeBeacon = tb, ctbConfirmTime = now, ctbConfirmHeight = 0\<rparr>
     in bc\<lparr>tbs := (tbs bc)(sid := tbs bc sid @ [c])\<rparr>)"

definition expectedHeight :: "nat \<Rightarrow> BeaconChain \<Rightarrow> nat" where
  "expectedHeight sid bc = length (tbs bc sid) + length (lookupList sid (tbs_new bc))"

text \<open>A height other than the expected one is only logged; the result says whether it was.\<close>

definition AddTimeBeacon2SimulationChain :: "u64 \<Rightarrow> SignedTB \<Rightarrow> BeaconChain \<Rightarrow> bool \<times> BeaconChain" where
  "AddTimeBeacon2SimulationChain now signedTb bc =
    (let tb = stbTimeBeacon signedTb; sid = unat (tbShardID tb)
     in if tbHeight tb = 0
        then (tbHeight tb \<noteq> word_of_nat (length (tbs bc sid)), AddGenesisTB now signedTb bc)
        else (tbHeight tb \<noteq> word_of_nat (expectedHeight sid bc),
              bc\<lparr>tbs_new := appendAt sid signedTb (tbs_new bc)\<rparr>))"

definition GetTimeBeacon :: "nat \<Rightarrow> u64 \<Rightarrow> BeaconChain \<Rightarrow> ConfirmedTB option" where
  "GetTimeBeacon sid height bc =
    (let tbs_shard = tbs bc sid
     in if height \<ge> word_of_nat (length tbs_shard) then None else Some (tbs_shard ! unat height))"

definition confirmOne ::
  "('pk, 'sk) crypto \<Rightarrow> (TimeBeacon \<Rightarrow> bytes option) \<Rightarrow> (bytes \<Rightarrow> bytes) \<Rightarrow> u64 \<Rightarrow> u64 \<Rightarrow> ShardContract \<Rightarrow>
   SignedTB \<Rightarrow> ConfirmedTB list \<Rightarrow> ConfirmedTB list go" where
  "confirmOne C abi keccak now height contract signedTb cs =
    go_bind (VerifyTimeBeacon C abi keccak contract signedTb) (\<lambda>ok.
    if \<not> ok then Inl (Exit ''TBchain verify time beacon fail.'')
    else Inr (cs @ [\<lparr>ctbTimeBeacon = stbTimeBeacon signedTb, ctbConfirmTime = now,
                     ctbConfirmHeight = height\<rparr>]))"

definition confirmShard ::
  "('pk, 'sk) crypto \<Rightarrow> (TimeBeacon \<Rightarrow> bytes option) \<Rightarrow> (bytes \<Rightarrow> bytes) \<Rightarrow> u64 \<Rightarrow>
   nat \<times> SignedTB list \<Rightarrow> ConfirmedTB list list \<times> BeaconChain \<Rightarrow> (ConfirmedTB list list \<times> BeaconChain) go" where
  "confirmShard C abi keccak now entry st =
    (case (entry, st) of ((sid, stbs), (confirmTBs, bc)) \<Rightarrow>
     if length (contracts bc) \<le> sid \<or> length confirmTBs \<le> sid then Inl (Panic ''index out of range'')
     else go_bind (go_fold (confirmOne C abi keccak now (bcHeight bc) (contracts bc ! sid)) stbs
                     (confirmTBs ! sid)) (\<lambda>cs.
       Inr (confirmTBs[sid := cs], bc\<lparr>tbs := (tbs bc)(sid := tbs bc sid @ cs)\<rparr>)))"

definition generateSimulationChainBlock ::
  "('pk, 'sk) crypto \<Rightarrow> (TimeBeacon \<Rightarrow> bytes option) \<Rightarrow> (bytes \<Rightarrow> bytes) \<Rightarrow> u64 \<Rightarrow> BeaconChain \<Rightarrow>
   (TBBlock \<times> BeaconChain) go" where
  "generateSimulationChainBlock C abi keccak now bc0 =
    (let bc = bc0\<lparr>bcHeight := bcHeight bc0 + 1\<rparr>
     in go_bind (go_fold (confirmShard C abi keccak now) (tbs_new bc) (replicate (bcShardNum bc) [], bc))
          (\<lambda>(confirmTBs, bc').
       Inr (\<lparr>tbbTime = now, tbbHeight = bcHeight bc', tbbTbs = confirmTBs\<rparr>, bc'\<lparr>tbs_new := []\<rparr>)))"

section \<open>The external chain\<close>

record Event =
  evShardID :: u32
  evHeight :: u64
  evEth_height :: u64

definition minHeight :: "u64 list \<Rightarrow> u64" where
  "minHeight hs = fold (\<lambda>h start. if start = 0 then h else if h < start then h else start) hs 0"

definition eventTB :: "Event \<Rightarrow> TimeBeacon" where
  "eventTB ev = \<lparr>tbShardID = evShardID ev, tbHeight = evHeight ev, tbBlockHash = [], tbTxHash = [],
                 tbStatusHash = []\<rparr>"

fun appendAt2 :: "'h \<Rightarrow> 'k \<Rightarrow> 'v \<Rightarrow> ('h \<times> ('k \<times> 'v list) list) list \<Rightarrow> ('h \<times> ('k \<times> 'v list) list) list" where
  "appendAt2 h k v [] = [(h, [(k, [v])])]"
| "appendAt2 h k v ((h', m) # ms) =
    (if h = h' then (h', appendAt k v m) # ms else (h', m) # appendAt2 h k v ms)"

definition takeEvent ::
  "Event \<Rightarrow> bool \<times> u64 \<times> (u64 \<times> (nat \<times> TimeBeacon list) list) list \<Rightarrow>
   bool \<times> u64 \<times> (u64 \<times> (nat \<times> TimeBeacon list) list) list" where
  "takeEvent ev st =
    (case st of (to_pack, start, geth) \<Rightarrow>
     let start' = (if start = 0 then evEth_height ev else start)
     in (to_pack \<or> evEth_height ev > start', start',
         appendAt2 (evEth_height ev) (unat (evShardID ev)) (eventTB ev) geth))"

definition packShard ::
  "u64 \<Rightarrow> nat \<times> TimeBeacon list \<Rightarrow> ConfirmedTB list list \<times> BeaconChain \<Rightarrow>
   (ConfirmedTB list list \<times> BeaconChain) go" where
  "packShard now entry st =
    (case (entry, st) of ((sid, ts), (confirmTBs, bc)) \<Rightarrow>
     if length confirmTBs \<le> sid then Inl (Panic ''index out of range'')
     else let cs = confirmTBs ! sid @ map (\<lambda>tb. \<lparr>ctbTimeBeacon = tb, ctbConfirmTime = now,
                     ctbConfirmHeight = bcHeight bc\<rparr>) ts
          in Inr (confirmTBs[sid := cs], bc\<lparr>tbs := (tbs bc)(sid := tbs bc sid @ cs)\<rparr>))"

definition generateEthChainBlock ::
  "u64 \<Rightarrow> Event list \<Rightarrow> BeaconChain \<Rightarrow> (TBBlock option \<times> BeaconChain) go" where
  "generateEthChainBlock now events bc0 =
    (let (to_pack, start, geth) =
           fold takeEvent events (False, minHeight (map fst (geth_tbs_new bc0)), geth_tbs_new bc0);
         bc = bc0\<lparr>geth_tbs_new := geth\<rparr>
     in if \<not> to_pack then Inr (None, bc)
        else go_bind (go_fold (packShard now) (lookupList start geth) (replicate (bcShardNum bc) [], bc))
               (\<lambda>(confirmTBs, bc').
          Inr (Some \<lparr>tbbTime = now, tbbHeight = start, tbbTbs = confirmTBs\<rparr>,
               bc'\<lparr>geth_tbs_new := filter (\<lambda>e. fst e \<noteq> start) geth\<rparr>)))"

section \<open>The work loop\<close>

text \<open>
  Transactions to the external chain are messages of the model; \<^verbatim>\<open>ethOk\<close> says whether sending
  one succeeds, since an error ends the process.
\<close>

datatype bcOut = PushBlock2Client TBBlock | PushBlock2Coms TBBlock
  | DeployContract "TimeBeacon list" | EthAddTB SignedTB u32
  | EthAdjustAddrs u32 "address list" "bytes list" u64 u32

definition AddEthChainGenesisTB :: "TimeBeacon \<Rightarrow> BeaconChain \<Rightarrow> (bcOut list \<times> BeaconChain) go" where
  "AddEthChainGenesisTB tb bc =
    (let sid = unat (tbShardID tb); g = (sid, tb) # filter (\<lambda>e. fst e \<noteq> sid) (genesisTBs bc);
         bc' = bc\<lparr>genesisTBs := g\<rparr>
     in if length g = bcShardNum bc
        then if \<exists>e\<in>set g. bcShardNum bc \<le> fst e then Inl (Panic ''index out of range'')
             else Inr ([DeployContract (map (\<lambda>i. the (map_of g i)) [0..<bcShardNum bc])], bc')
        else Inr ([], bc'))"

definition AddTimeBeacon2EthChain ::
  "(bcOut \<Rightarrow> bool) \<Rightarrow> SignedTB \<Rightarrow> u32 \<Rightarrow> BeaconChain \<Rightarrow> (bcOut list \<times> BeaconChain) go" where
  "AddTimeBeacon2EthChain ethOk signedtb nodeID bc =
    (if tbHeight (stbTimeBeacon signedtb) = 0 then AddEthChainGenesisTB (stbTimeBeacon signedtb) bc
     else if ethOk (EthAddTB signedtb nodeID) then Inr ([EthAddTB signedtb nodeID], bc)
     else Inl (Exit ''eth_chain.AddTB err''))"

definition AddTimeBeacon ::
  "(bcOut \<Rightarrow> bool) \<Rightarrow> u64 \<Rightarrow> SignedTB \<Rightarrow> u32 \<Rightarrow> BeaconChain \<Rightarrow> (bcOut list \<times> BeaconChain) go" where
  "AddTimeBeacon ethOk now tb nodeID bc =
    (if bcMode bc = 0 then Inr ([], snd (AddTimeBeacon2SimulationChain now tb bc))
     else if bcMode bc = 1 \<or> bcMode bc = 2 then AddTimeBeacon2EthChain ethOk tb nodeID bc
     else Inl (Exit ''unknown beaconChain mode!''))"

definition SetAddrs ::
  "(bcOut \<Rightarrow> bool) \<Rightarrow> address list \<Rightarrow> bytes list \<Rightarrow> u64 \<Rightarrow> u32 \<Rightarrow> u32 \<Rightarrow> BeaconChain \<Rightarrow>
   (bcOut list \<times> BeaconChain) go" where
  "SetAddrs ethOk as vrfs seedHeight comID nodeID bc =
    (if bcMode bc = 1 \<or> bcMode bc = 2 then
       if length (bcAddrs bc) \<le> unat comID then Inl (Panic ''index out of range'')
       else let bc' = bc\<lparr>bcAddrs := (bcAddrs bc)[unat comID := as]\<rparr>;
                out = EthAdjustAddrs comID as vrfs seedHeight nodeID
            in if seedHeight > 0
               then if ethOk out then Inr ([out], bc') else Inl (Exit ''eth_chain.AdjustRecordedAddrs err'')
               else Inr ([], bc')
     else Inr ([], bc))"

definition toPushBlock :: "TBBlock \<Rightarrow> BeaconChain \<Rightarrow> (bcOut list \<times> BeaconChain) go" where
  "toPushBlock block bc0 =
    (if tbBlocks bc0 (tbbHeight block) \<noteq> None
     then Inl (Exit ''contradictory tbchain block have same height.'')
     else let bc = bc0\<lparr>tbBlocks := (tbBlocks bc0)(tbbHeight block \<mapsto> block)\<rparr>;
              confirmHeight = tbbHeight block - Height2Confirm bc
          in case tbBlocks bc confirmHeight of None \<Rightarrow> Inr ([], bc)
             | Some confirmBlock \<Rightarrow> Inr ([PushBlock2Client confirmBlock, PushBlock2Coms confirmBlock], bc))"

definition GenerateBlock ::
  "('pk, 'sk) crypto \<Rightarrow> (TimeBeacon \<Rightarrow> bytes option) \<Rightarrow> (bytes \<Rightarrow> bytes) \<Rightarrow> u64 \<Rightarrow> Event list \<Rightarrow>
   BeaconChain \<Rightarrow> (TBBlock option \<times> BeaconChain) go" where
  "GenerateBlock C abi keccak now events bc =
    (if bcMode bc = 0
     then go_bind (generateSimulationChainBlock C abi keccak now bc) (\<lambda>(block, bc'). Inr (Some block, bc'))
     else if bcMode bc = 1 \<or> bcMode bc = 2 then generateEthChainBlock now events bc
     else Inl (Exit ''unknown mode''))"

text \<open>One tick of the timer in \<^verbatim>\<open>loop\<close>.\<close>

definition loopTick ::
  "('pk, 'sk) crypto \<Rightarrow> (TimeBeacon \<Rightarrow> bytes option) \<Rightarrow> (bytes \<Rightarrow> bytes) \<Rightarrow> u64 \<Rightarrow> Event list \<Rightarrow>
   BeaconChain \<Rightarrow> (bcOut list \<times> BeaconChain) go" where
  "loopTick C abi keccak now events bc =
    go_bind (GenerateBlock C abi keccak now events bc) (\<lambda>(block, bc').
    case block of None \<Rightarrow> Inr ([], bc') | Some b \<Rightarrow> toPushBlock b bc')"

datatype bcEvent = Submit u64 SignedTB u32 | Tick u64 "Event list"

definition bcStep ::
  "('pk, 'sk) crypto \<Rightarrow> (TimeBeacon \<Rightarrow> bytes option) \<Rightarrow> (bytes \<Rightarrow> bytes) \<Rightarrow> (bcOut \<Rightarrow> bool) \<Rightarrow> bcEvent \<Rightarrow>
   BeaconChain \<Rightarrow> (bcOut list \<times> BeaconChain) go" where
  "bcStep C abi keccak ethOk e bc =
    (case e of Submit now stb nodeID \<Rightarrow> AddTimeBeacon ethOk now stb nodeID bc
     | Tick now events \<Rightarrow> loopTick C abi keccak now events bc)"

section \<open>Confirmed beacons are verified\<close>

definition simInv ::
  "('pk, 'sk) crypto \<Rightarrow> (TimeBeacon \<Rightarrow> bytes option) \<Rightarrow> (bytes \<Rightarrow> bytes) \<Rightarrow> int \<Rightarrow> BeaconChain \<Rightarrow> bool" where
  "simInv C abi keccak required bc \<longleftrightarrow>
    bcMode bc = 0 \<and> contracts bc = NewContract (bcShardNum bc) required \<and> distinct (map fst (tbs_new bc)) \<and>
    (\<forall>sid stbs. (sid, stbs) \<in> set (tbs_new bc) \<longrightarrow>
      (\<forall>stb\<in>set stbs. unat (tbShardID (stbTimeBeacon stb)) = sid)) \<and>
    (\<forall>sid c. c \<in> set (tbs bc sid) \<longrightarrow> unat (tbShardID (ctbTimeBeacon c)) = sid)"

text \<open>What has been pushed after a number of ticks.\<close>

fun isTick :: "bcEvent \<Rightarrow> bool" where
  "isTick (Tick now events) \<longleftrightarrow> True"
| "isTick (Submit now stb nodeID) \<longleftrightarrow> False"

definition pushOf :: "BeaconChain \<Rightarrow> nat \<Rightarrow> bcOut list" where
  "pushOf bc k = (let b = the (tbBlocks bc (word_of_nat k)) in [PushBlock2Client b, PushBlock2Coms b])"

definition pushInv :: "bcEvent list \<Rightarrow> bcOut list \<Rightarrow> BeaconChain \<Rightarrow> bool" where
  "pushInv es outs bc \<longleftrightarrow> (let n = length (filter isTick es) in n < 2 ^ 64 \<longrightarrow>
    bcHeight bc = word_of_nat n \<and>
    (\<forall>h. tbBlocks bc h \<noteq> None \<longleftrightarrow> 1 \<le> unat h \<and> unat h \<le> n) \<and>
    (\<forall>h b. tbBlocks bc h = Some b \<longrightarrow> tbbHeight b = h) \<and>
    outs = concat (map (pushOf bc) [1..<n + 1 - unat (Height2Confirm bc)]))"

lemma set_appendAt:
  "(k', vs) \<in> set (appendAt k v m) \<Longrightarrow> (k', vs) \<in> set m \<or>
    k' = k \<and> (vs = [v] \<or> (\<exists>us. vs = us @ [v] \<and> (k, us) \<in> set m))"
  by (induction k v m rule: appendAt.induct) (auto split: if_splits)

lemma keys_appendAt:
  "map fst (appendAt k v m) = (if k \<in> fst ` set m then map fst m else map fst m @ [k])"
  by (induction k v m rule: appendAt.induct) auto

lemma lookupList_appendAt [simp]:
  "lookupList k' (appendAt k v m) = (if k' = k then lookupList k' m @ [v] else lookupList k' m)"
  by (induction k v m rule: appendAt.induct) (auto simp: lookupList_def)

lemma NewContract_nth [simp]:
  "sid < n \<Longrightarrow> NewContract n required ! sid = NewShardContract (int sid) required"
  "length (NewContract n required) = n"
  by (simp_all add: NewContract_def)

lemma confirmOne_fold:
  assumes "go_fold (confirmOne C abi keccak now height contract) stbs cs = Inr cs'"
  shows "cs' = cs @ map (\<lambda>stb. \<lparr>ctbTimeBeacon = stbTimeBeacon stb, ctbConfirmTime = now,
      ctbConfirmHeight = height\<rparr>) stbs \<and> (\<forall>stb\<in>set stbs. VerifyTimeBeacon C abi keccak contract stb = Inr True)"
  using assms
proof (induction stbs arbitrary: cs)
  case (Cons stb stbs)
  then obtain cs1 where "confirmOne C abi keccak now height contract stb cs = Inr cs1"
    "go_fold (confirmOne C abi keccak now height contract) stbs cs1 = Inr cs'"
    by (auto simp: go_bind_eq_Inr_iff)
  moreover from this(1) have "cs1 = cs @ [\<lparr>ctbTimeBeacon = stbTimeBeacon stb, ctbConfirmTime = now,
      ctbConfirmHeight = height\<rparr>]" "VerifyTimeBeacon C abi keccak contract stb = Inr True"
    by (auto simp: confirmOne_def go_bind_eq_Inr_iff split: if_splits)
  ultimately show ?case using Cons.IH[of cs1] by simp
qed simp

text \<open>Confirming the waiting beacons, shard by shard.\<close>

lemma confirmShard_fold:
  assumes "go_fold (confirmShard C abi keccak now) entries (cs, bc) = Inr (cs', bc')"
    "distinct (map fst entries)" "\<forall>sid\<in>fst ` set entries. cs ! sid = []"
  shows "bc' = bc\<lparr>tbs := (\<lambda>sid. tbs bc sid @ map (\<lambda>stb. \<lparr>ctbTimeBeacon = stbTimeBeacon stb,
      ctbConfirmTime = now, ctbConfirmHeight = bcHeight bc\<rparr>) (lookupList sid entries))\<rparr> \<and>
    (\<forall>sid stbs. (sid, stbs) \<in> set entries \<longrightarrow> sid < length (contracts bc) \<and>
      (\<forall>stb\<in>set stbs. VerifyTimeBeacon C abi keccak (contracts bc ! sid) stb = Inr True))"
  using assms
proof (induction entries arbitrary: cs bc)
  case (Cons entry entries)
  obtain sid stbs where e: "entry = (sid, stbs)" by force
  with Cons.prems(1) obtain cs1 bc1 where s: "confirmShard C abi keccak now (sid, stbs) (cs, bc) = Inr (cs1, bc1)"
    "go_fold (confirmShard C abi keccak now) entries (cs1, bc1) = Inr (cs', bc')"
    by (auto simp: go_bind_eq_Inr_iff)
  then obtain c where c: "go_fold (confirmOne C abi keccak now (bcHeight bc) (contracts bc ! sid)) stbs (cs ! sid) = Inr c"
    "cs1 = cs[sid := c]" "bc1 = bc\<lparr>tbs := (tbs bc)(sid := tbs bc sid @ c)\<rparr>" "sid < length (contracts bc)"
    by (auto simp: confirmShard_def go_bind_eq_Inr_iff not_le split: if_splits)
  have "cs ! sid = []" using Cons.prems(3) e by simp
  with confirmOne_fold[OF c(1)] have v: "c = map (\<lambda>stb. \<lparr>ctbTimeBeacon = stbTimeBeacon stb,
      ctbConfirmTime = now, ctbConfirmHeight = bcHeight bc\<rparr>) stbs"
    "\<forall>stb\<in>set stbs. VerifyTimeBeacon C abi keccak (contracts bc ! sid) stb = Inr True" by simp_all
  have "sid \<notin> fst ` set entries" "distinct (map fst entries)" using Cons.prems(2) e by auto
  moreover from this have "\<forall>s\<in>fst ` set entries. cs1 ! s = []" using Cons.prems(3) e c(2)
    by (metis image_insert insertCI list.set(2) nth_list_update_neq)
  moreover have "lookupList sid entries = []"
    using \<open>sid \<notin> fst ` set entries\<close> unfolding lookupList_def map_of_eq_None_iff[symmetric] by simp
  moreover have "lookupList k (entry # entries) = (if k = sid then stbs else lookupList k entries)" for k
    by (simp add: lookupList_def e)
  ultimately show ?case using Cons.IH[OF s(2)] v c e by (auto simp: fun_eq_iff)
qed (simp add: lookupList_def)

lemma confirmShard_bound:
  "go_fold (confirmShard C abi keccak now) entries (cs, bc) = Inr (cs', bc') \<Longrightarrow>
   \<forall>sid\<in>fst ` set entries. sid < length cs"
proof (induction entries arbitrary: cs bc)
  case (Cons e es)
  then obtain c1 b1 where "confirmShard C abi keccak now e (cs, bc) = Inr (c1, b1)"
    "go_fold (confirmShard C abi keccak now) es (c1, b1) = Inr (cs', bc')" by (auto simp: go_bind_eq_Inr_iff)
  moreover from this(1) have "fst e < length cs" "length c1 = length cs"
    by (auto simp: confirmShard_def go_bind_eq_Inr_iff split: if_splits prod.splits)
  ultimately show ?case using Cons.IH[of c1 b1] by auto
qed simp

lemma generateSim_spec:
  assumes "simInv C abi keccak required bc"
    "generateSimulationChainBlock C abi keccak now bc = Inr (block, bc')"
  shows "simInv C abi keccak required bc'" "tbbHeight block = bcHeight bc + 1"
    "bcHeight bc' = bcHeight bc + 1" "tbBlocks bc' = tbBlocks bc" "Height2Confirm bc' = Height2Confirm bc"
    "bcMode bc' = bcMode bc" "tbs_new bc' = []"
    "\<And>sid. map ctbTimeBeacon (tbs bc' sid) =
      map ctbTimeBeacon (tbs bc sid) @ map stbTimeBeacon (lookupList sid (tbs_new bc))"
    "\<And>sid stb. stb \<in> set (lookupList sid (tbs_new bc)) \<Longrightarrow>
      VerifyTimeBeacon C abi keccak (NewShardContract (int sid) required) stb = Inr True"
proof -
  define bc1 where "bc1 = bc\<lparr>bcHeight := bcHeight bc + 1\<rparr>"
  have fields: "bcHeight bc1 = bcHeight bc + 1" "tbBlocks bc1 = tbBlocks bc" "bcMode bc1 = bcMode bc"
    "Height2Confirm bc1 = Height2Confirm bc" "tbs bc1 = tbs bc" "tbs_new bc1 = tbs_new bc"
    "contracts bc1 = contracts bc" "bcShardNum bc1 = bcShardNum bc" by (simp_all add: bc1_def)
  from assms(2) obtain cs bc2 where g:
    "go_fold (confirmShard C abi keccak now) (tbs_new bc1) (replicate (bcShardNum bc1) [], bc1) = Inr (cs, bc2)"
    "bc' = bc2\<lparr>tbs_new := []\<rparr>" "tbbHeight block = bcHeight bc2"
    unfolding generateSimulationChainBlock_def Let_def bc1_def[symmetric] by (auto simp: go_bind_eq_Inr_iff)
  let ?conf = "\<lambda>stb. \<lparr>ctbTimeBeacon = stbTimeBeacon stb, ctbConfirmTime = now, ctbConfirmHeight = bcHeight bc1\<rparr>"
  have inv: "contracts bc = NewContract (bcShardNum bc) required" "distinct (map fst (tbs_new bc))"
    "\<And>sid stbs stb. (sid, stbs) \<in> set (tbs_new bc) \<Longrightarrow> stb \<in> set stbs \<Longrightarrow>
       unat (tbShardID (stbTimeBeacon stb)) = sid"
    "\<And>sid c. c \<in> set (tbs bc sid) \<Longrightarrow> unat (tbShardID (ctbTimeBeacon c)) = sid"
    and mode: "bcMode bc = 0" using assms(1) unfolding simInv_def by auto
  have idx: "\<forall>sid\<in>fst ` set (tbs_new bc1). replicate (bcShardNum bc1) ([] :: ConfirmedTB list) ! sid = []"
    using confirmShard_bound[OF g(1)] by simp
  from confirmShard_fold[OF g(1) _ idx] inv(2) fields(6)
  have f: "bc2 = bc1\<lparr>tbs := (\<lambda>sid. tbs bc1 sid @ map ?conf (lookupList sid (tbs_new bc1)))\<rparr>"
    "\<And>sid stbs stb. (sid, stbs) \<in> set (tbs_new bc) \<Longrightarrow> stb \<in> set stbs \<Longrightarrow>
      sid < bcShardNum bc \<and> VerifyTimeBeacon C abi keccak (contracts bc ! sid) stb = Inr True"
    using fields inv(1) by (simp, fastforce)
  show "tbbHeight block = bcHeight bc + 1" "bcHeight bc' = bcHeight bc + 1" "tbBlocks bc' = tbBlocks bc"
    "Height2Confirm bc' = Height2Confirm bc" "bcMode bc' = bcMode bc" "tbs_new bc' = []"
    using g f(1) fields by simp_all
  show "\<And>sid. map ctbTimeBeacon (tbs bc' sid) =
      map ctbTimeBeacon (tbs bc sid) @ map stbTimeBeacon (lookupList sid (tbs_new bc))"
    using g(2) f(1) fields by (simp add: comp_def)
  have lk: "(sid, lookupList sid (tbs_new bc)) \<in> set (tbs_new bc)" if "lookupList sid (tbs_new bc) \<noteq> []" for sid
    using that by (auto simp: lookupList_def map_of_SomeD split: option.splits)
  have v: "unat (tbShardID (stbTimeBeacon stb)) = sid \<and>
      VerifyTimeBeacon C abi keccak (NewShardContract (int sid) required) stb = Inr True"
    if "stb \<in> set (lookupList sid (tbs_new bc))" for sid stb
  proof -
    from lk[of sid] that have m: "(sid, lookupList sid (tbs_new bc)) \<in> set (tbs_new bc)" by force
    from f(2)[OF m that] inv(1) inv(3)[OF m that] show ?thesis by auto
  qed
  then show "\<And>sid stb. stb \<in> set (lookupList sid (tbs_new bc)) \<Longrightarrow>
      VerifyTimeBeacon C abi keccak (NewShardContract (int sid) required) stb = Inr True" by blast
  show "simInv C abi keccak required bc'"
    using g(2) f(1) fields inv mode v by (auto simp: simInv_def)
qed

lemma unat_confirmHeight:
  assumes "n < 2 ^ 64"
  shows "unat (word_of_nat n - H :: u64) = (if unat H \<le> n then n - unat H else n + 2 ^ 64 - unat H)"
proof -
  have u: "unat (word_of_nat n :: u64) = n" using assms by (subst unat_of_nat) simp
  show ?thesis unfolding unat_sub_if_size u by (simp add: word_size)
qed

text \<open>Which block, if any, becomes deep enough when the block of height \<^verbatim>\<open>Suc n\<close> is added.\<close>

lemma pushed_at:
  fixes bs :: "u64 \<rightharpoonup> TBBlock"
  assumes "Suc n < 2 ^ 64" "\<And>h. bs h \<noteq> None \<longleftrightarrow> 1 \<le> unat h \<and> unat h \<le> Suc n"
  shows "(case bs (word_of_nat (Suc n) - H) of None \<Rightarrow> [] | Some b \<Rightarrow> [PushBlock2Client b, PushBlock2Coms b]) =
    concat (map (\<lambda>k. let b = the (bs (word_of_nat k)) in [PushBlock2Client b, PushBlock2Coms b])
      [max 1 (n + 1 - unat H)..<Suc n + 1 - unat H])"
proof (cases "unat H \<le> n")
  case True
  let ?c = "word_of_nat (Suc n) - H :: u64"
  have u: "unat ?c = Suc n - unat H" using unat_confirmHeight[OF assms(1)] True by simp
  then obtain b where b: "bs ?c = Some b" using assms(2)[of ?c] True by auto
  have c: "?c = word_of_nat (Suc n - unat H)" unfolding u[symmetric] by simp
  have l: "[max 1 (n + 1 - unat H)..<Suc n + 1 - unat H] = [Suc n - unat H]"
    using True by (simp add: Suc_diff_le)
  show ?thesis using b unfolding l c by simp
next
  case False
  have "unat H < 2 ^ 64" using unsigned_less[of H] by simp
  with False assms(1) have "unat (word_of_nat (Suc n) - H) = 0 \<or> Suc n < unat (word_of_nat (Suc n) - H)"
    unfolding unat_confirmHeight[OF assms(1)] by auto
  then have "bs (word_of_nat (Suc n) - H) = None"
    using assms(2)[of "word_of_nat (Suc n) - H"] by auto
  with False show ?thesis by simp
qed

lemma pushOf_eta: "pushOf bc = (\<lambda>k. let b = the (tbBlocks bc (word_of_nat k)) in [PushBlock2Client b, PushBlock2Coms b])"
  by (simp add: fun_eq_iff pushOf_def)

lemma pushInv_tick:
  assumes "pushInv es outs bc" "tbbHeight block = bcHeight bc + 1" "bcHeight bc' = bcHeight bc + 1"
    "tbBlocks bc' = tbBlocks bc" "Height2Confirm bc' = Height2Confirm bc" "toPushBlock block bc' = Inr (out, bc'')"
  shows "pushInv (es @ [Tick now events]) (outs @ out) bc''"
proof -
  define n where "n = length (filter isTick es)"
  define H where "H = Height2Confirm bc"
  have H': "Height2Confirm bc'' = H"
    using assms(5,6) by (auto simp: toPushBlock_def Let_def H_def split: if_splits option.splits)
  have "bcHeight bc'' = word_of_nat (Suc n) \<and>
    (\<forall>h. tbBlocks bc'' h \<noteq> None \<longleftrightarrow> 1 \<le> unat h \<and> unat h \<le> Suc n) \<and>
    (\<forall>h b. tbBlocks bc'' h = Some b \<longrightarrow> tbbHeight b = h) \<and>
    outs @ out = concat (map (pushOf bc'') [1..<Suc n + 1 - unat H])" if lt: "Suc n < 2 ^ 64"
  proof -
    let ?h = "word_of_nat (Suc n) :: u64"
    have inv: "bcHeight bc = word_of_nat n" "\<And>h. tbBlocks bc h \<noteq> None \<longleftrightarrow> 1 \<le> unat h \<and> unat h \<le> n"
      "\<And>h b. tbBlocks bc h = Some b \<Longrightarrow> tbbHeight b = h"
      "outs = concat (map (pushOf bc) [1..<n + 1 - unat H])"
      using assms(1) lt unfolding pushInv_def Let_def n_def[symmetric] H_def by auto
    have uh: "unat (word_of_nat k :: u64) = k" if "k \<le> Suc n" for k
      using lt that by (subst unat_of_nat) simp
    have h: "tbbHeight block = ?h" using assms(2) inv(1) by simp
    have bb: "tbBlocks bc'' = (tbBlocks bc)(?h \<mapsto> block)" "bcHeight bc'' = ?h"
      and out: "out = (case tbBlocks bc'' (?h - H) of None \<Rightarrow> []
        | Some b \<Rightarrow> [PushBlock2Client b, PushBlock2Coms b])"
      using assms(3-6) h inv(1) by (auto simp: toPushBlock_def Let_def H_def split: if_splits option.splits)
    have dom: "tbBlocks bc'' h \<noteq> None \<longleftrightarrow> 1 \<le> unat h \<and> unat h \<le> Suc n" for h
      using inv(2)[of h] uh[of "Suc n"] by (cases "h = ?h") (auto simp: bb le_Suc_eq word_unat_eq_iff)
    have old: "pushOf bc'' k = pushOf bc k" if "k < Suc n" for k
      using uh[of k] uh[of "Suc n"] that by (auto simp: pushOf_def bb word_unat_eq_iff)
    have "outs = concat (map (pushOf bc'') [1..<n + 1 - unat H])"
      unfolding inv(4) using old by (intro arg_cong[where f = concat] map_cong) auto
    moreover have "out = concat (map (pushOf bc'') [max 1 (n + 1 - unat H)..<Suc n + 1 - unat H])"
      using pushed_at[OF lt dom, of H] by (simp only: out pushOf_eta)
    moreover have "[1..<Suc n + 1 - unat H] =
        [1..<n + 1 - unat H] @ [max 1 (n + 1 - unat H)..<Suc n + 1 - unat H]"
      by (cases "unat H \<le> n") (simp_all add: Suc_diff_le)
    ultimately show ?thesis using bb(2) dom inv(3) h by (auto simp: bb(1))
  qed
  then show ?thesis unfolding pushInv_def Let_def H' by (simp add: n_def)
qed

text \<open>The two invariants together hold in every run of the simulated chain.\<close>

definition beaconInv ::
  "('pk, 'sk) crypto \<Rightarrow> (TimeBeacon \<Rightarrow> bytes option) \<Rightarrow> (bytes \<Rightarrow> bytes) \<Rightarrow> int \<Rightarrow>
   bcEvent list \<Rightarrow> bcOut list \<Rightarrow> BeaconChain \<Rightarrow> bool" where
  "beaconInv C abi keccak required es outs bc \<longleftrightarrow> simInv C abi keccak required bc \<and> pushInv es outs bc"

lemma simInv_Submit:
  assumes "simInv C abi keccak required bc"
  shows "simInv C abi keccak required (snd (AddTimeBeacon2SimulationChain now stb bc))"
  using assms
  by (fastforce simp: simInv_def AddTimeBeacon2SimulationChain_def AddGenesisTB_def Let_def keys_appendAt
      dest!: set_appendAt split: if_splits)

lemma toPushBlock_simInv:
  "toPushBlock block bc = Inr (out, bc') \<Longrightarrow> simInv C abi keccak required bc \<Longrightarrow> simInv C abi keccak required bc'"
proof -
  assume p: "toPushBlock block bc = Inr (out, bc')" and inv: "simInv C abi keccak required bc"
  have "tbs bc' = tbs bc" "tbs_new bc' = tbs_new bc" "bcMode bc' = bcMode bc" "contracts bc' = contracts bc"
    "bcShardNum bc' = bcShardNum bc"
    using p by (auto simp: toPushBlock_def Let_def split: if_splits option.splits)
  with inv show ?thesis by (simp add: simInv_def)
qed

lemma pushInv_Submit:
  "pushInv es outs bc \<Longrightarrow>
   pushInv (es @ [Submit now stb nodeID]) outs (snd (AddTimeBeacon2SimulationChain now stb bc))"
proof -
  let ?bc = "snd (AddTimeBeacon2SimulationChain now stb bc)"
  assume inv: "pushInv es outs bc"
  have same: "bcHeight ?bc = bcHeight bc" "tbBlocks ?bc = tbBlocks bc" "Height2Confirm ?bc = Height2Confirm bc"
    by (simp_all add: AddTimeBeacon2SimulationChain_def AddGenesisTB_def Let_def)
  then have "pushOf ?bc = pushOf bc" by (simp add: fun_eq_iff pushOf_def)
  with inv same show ?thesis by (simp add: pushInv_def)
qed

lemma beaconInv_step:
  assumes "beaconInv C abi keccak required es outs bc" "bcStep C abi keccak ethOk e bc = Inr (out, bc')"
  shows "beaconInv C abi keccak required (es @ [e]) (outs @ out) bc'"
proof -
  have inv: "simInv C abi keccak required bc" "pushInv es outs bc" "bcMode bc = 0"
    using assms(1) by (auto simp: beaconInv_def simInv_def)
  show ?thesis
  proof (cases e)
    case (Submit now stb nodeID)
    with assms(2) inv(3) have "out = []" "bc' = snd (AddTimeBeacon2SimulationChain now stb bc)"
      by (auto simp: bcStep_def AddTimeBeacon_def)
    with inv Submit simInv_Submit pushInv_Submit show ?thesis by (simp add: beaconInv_def)
  next
    case (Tick now events)
    with assms(2) inv(3) obtain block bc1 where
      "generateSimulationChainBlock C abi keccak now bc = Inr (block, bc1)" "toPushBlock block bc1 = Inr (out, bc')"
      by (auto simp: bcStep_def loopTick_def GenerateBlock_def go_bind_eq_Inr_iff)
    with generateSim_spec[OF inv(1) this(1)] inv(2) pushInv_tick[OF inv(2)] toPushBlock_simInv Tick
    show ?thesis unfolding beaconInv_def by blast
  qed
qed

lemma beaconInv_new:
  "bc = NewTBChain 0 required height2Confirm shardNum \<Longrightarrow> beaconInv C abi keccak required [] [] bc"
  by (auto simp: beaconInv_def simInv_def pushInv_def NewTBChain_def)

interpretation sim: event_machine "bcStep C abi keccak ethOk"
  "\<lambda>bc. bc = NewTBChain 0 required height2Confirm shardNum" "beaconInv C abi keccak required"
  for C :: "('pk, 'sk) crypto" and abi keccak ethOk required height2Confirm shardNum
  by unfold_locales (rule beaconInv_new, assumption, rule beaconInv_step)

lemma bcStep_Height2Confirm:
  "bcStep C abi keccak ethOk e bc = Inr (out, bc') \<Longrightarrow> bcMode bc = 0 \<and> Height2Confirm bc = h \<Longrightarrow>
   beaconInv C abi keccak required es outs bc \<Longrightarrow> Height2Confirm bc' = h"
proof (cases e)
  case (Tick now events)
  assume a: "bcStep C abi keccak ethOk e bc = Inr (out, bc')" "bcMode bc = 0 \<and> Height2Confirm bc = h"
    "beaconInv C abi keccak required es outs bc"
  with Tick obtain block bc1 where
    "generateSimulationChainBlock C abi keccak now bc = Inr (block, bc1)" "toPushBlock block bc1 = Inr (out, bc')"
    by (auto simp: bcStep_def loopTick_def GenerateBlock_def go_bind_eq_Inr_iff)
  with generateSim_spec(5)[OF _ this(1)] a(2,3) show ?thesis
    by (auto simp: beaconInv_def toPushBlock_def Let_def split: if_splits option.splits)
qed (auto simp: bcStep_def AddTimeBeacon_def AddTimeBeacon2SimulationChain_def AddGenesisTB_def Let_def)

definition depthInv ::
  "('pk, 'sk) crypto \<Rightarrow> (TimeBeacon \<Rightarrow> bytes option) \<Rightarrow> (bytes \<Rightarrow> bytes) \<Rightarrow> int \<Rightarrow> u64 \<Rightarrow>
   bcEvent list \<Rightarrow> bcOut list \<Rightarrow> BeaconChain \<Rightarrow> bool" where
  "depthInv C abi keccak required h es outs bc \<longleftrightarrow>
    beaconInv C abi keccak required es outs bc \<and> Height2Confirm bc = h"

interpretation depth: event_machine "bcStep C abi keccak ethOk"
  "\<lambda>bc. bc = NewTBChain 0 required height2Confirm shardNum" "depthInv C abi keccak required height2Confirm"
  for C :: "('pk, 'sk) crypto" and abi keccak ethOk required height2Confirm shardNum
proof
  show "depthInv C abi keccak required height2Confirm [] [] bc" if "bc = NewTBChain 0 required height2Confirm shardNum" for bc
    using beaconInv_new[OF that] that by (simp add: depthInv_def NewTBChain_def)
  show "depthInv C abi keccak required height2Confirm (es @ [e]) (outs @ out) bc'"
    if "depthInv C abi keccak required height2Confirm es outs bc" "bcStep C abi keccak ethOk e bc = Inr (out, bc')"
    for es outs bc e out bc'
  proof -
    have inv: "beaconInv C abi keccak required es outs bc" "bcMode bc = 0 \<and> Height2Confirm bc = height2Confirm"
      using that(1) by (simp_all add: depthInv_def beaconInv_def simInv_def)
    with beaconInv_step[OF inv(1) that(2)] bcStep_Height2Confirm[OF that(2) inv(2,1)] show ?thesis
      by (simp add: depthInv_def)
  qed
qed

text \<open>Where the waiting and the confirmed beacons of a run come from.\<close>

definition submitted :: "bcEvent list \<Rightarrow> SignedTB \<Rightarrow> bool" where
  "submitted es stb \<longleftrightarrow> (\<exists>now nodeID. Submit now stb nodeID \<in> set es)"

definition hasOrigin ::
  "('pk, 'sk) crypto \<Rightarrow> (TimeBeacon \<Rightarrow> bytes option) \<Rightarrow> (bytes \<Rightarrow> bytes) \<Rightarrow> int \<Rightarrow>
   bcEvent list \<Rightarrow> nat \<Rightarrow> TimeBeacon \<Rightarrow> bool" where
  "hasOrigin C abi keccak required es sid tb \<longleftrightarrow> (\<exists>stb. submitted es stb \<and> stbTimeBeacon stb = tb \<and>
    (tbHeight tb \<noteq> 0 \<longrightarrow> VerifyTimeBeacon C abi keccak (NewShardContract (int sid) required) stb = Inr True))"

definition originInv ::
  "('pk, 'sk) crypto \<Rightarrow> (TimeBeacon \<Rightarrow> bytes option) \<Rightarrow> (bytes \<Rightarrow> bytes) \<Rightarrow> int \<Rightarrow>
   bcEvent list \<Rightarrow> bcOut list \<Rightarrow> BeaconChain \<Rightarrow> bool" where
  "originInv C abi keccak required es outs bc \<longleftrightarrow> simInv C abi keccak required bc \<and>
    (\<forall>sid. \<forall>stb\<in>set (lookupList sid (tbs_new bc)). submitted es stb) \<and>
    (\<forall>sid. \<forall>tb\<in>set (map ctbTimeBeacon (tbs bc sid)). hasOrigin C abi keccak required es sid tb)"

lemma submitted_snoc: "submitted es stb \<Longrightarrow> submitted (es @ [e]) stb"
  by (auto simp: submitted_def)

lemma hasOrigin_snoc:
  "hasOrigin C abi keccak required es sid tb \<Longrightarrow> hasOrigin C abi keccak required (es @ [e]) sid tb"
  unfolding hasOrigin_def submitted_def set_append by blast

lemma originInv_Submit:
  assumes "originInv C abi keccak required es outs bc"
  shows "originInv C abi keccak required (es @ [Submit now stb nodeID]) outs'
    (snd (AddTimeBeacon2SimulationChain now stb bc))"
proof -
  let ?bc = "snd (AddTimeBeacon2SimulationChain now stb bc)"
  let ?es = "es @ [Submit now stb nodeID]"
  have new: "submitted ?es stb" by (auto simp: submitted_def)
  have "\<forall>sid. \<forall>s\<in>set (lookupList sid (tbs_new ?bc)). submitted ?es s"
    using assms new unfolding originInv_def
    by (auto simp: AddTimeBeacon2SimulationChain_def AddGenesisTB_def Let_def intro: submitted_snoc split: if_splits)
  moreover have "hasOrigin C abi keccak required ?es sid tb"
    if "tb \<in> set (map ctbTimeBeacon (tbs ?bc sid))" for sid tb
  proof -
    have "tb \<in> set (map ctbTimeBeacon (tbs bc sid)) \<or> tb = stbTimeBeacon stb \<and> tbHeight tb = 0"
      using that by (auto simp: AddTimeBeacon2SimulationChain_def AddGenesisTB_def Let_def split: if_splits)
    then show ?thesis
      using assms new unfolding originInv_def by (blast intro: hasOrigin_snoc hasOrigin_def[THEN iffD2])
  qed
  ultimately show ?thesis
    using assms simInv_Submit unfolding originInv_def by blast
qed

lemma originInv_step:
  assumes "originInv C abi keccak required es outs bc" "bcStep C abi keccak ethOk e bc = Inr (out, bc')"
  shows "originInv C abi keccak required (es @ [e]) (outs @ out) bc'"
proof (cases e)
  case (Submit now stb nodeID)
  with assms have "bc' = snd (AddTimeBeacon2SimulationChain now stb bc)"
    by (auto simp: bcStep_def AddTimeBeacon_def originInv_def simInv_def)
  with assms(1) Submit originInv_Submit show ?thesis by blast
next
  case (Tick now events)
  have inv: "simInv C abi keccak required bc" "bcMode bc = 0"
    using assms(1) by (auto simp: originInv_def simInv_def)
  with Tick assms(2) obtain block bc1 where g:
    "generateSimulationChainBlock C abi keccak now bc = Inr (block, bc1)" "toPushBlock block bc1 = Inr (out, bc')"
    by (auto simp: bcStep_def loopTick_def GenerateBlock_def go_bind_eq_Inr_iff)
  note spec = generateSim_spec[OF inv(1) g(1)]
  have same: "tbs bc' = tbs bc1" "tbs_new bc' = tbs_new bc1"
    using g(2) by (auto simp: toPushBlock_def Let_def split: if_splits option.splits)
  have "hasOrigin C abi keccak required (es @ [e]) sid (stbTimeBeacon stb)"
    if "stb \<in> set (lookupList sid (tbs_new bc))" for sid stb
  proof -
    have "submitted es stb" using assms(1) that unfolding originInv_def by blast
    with spec(9)[OF that] show ?thesis unfolding hasOrigin_def submitted_def set_append by blast
  qed
  moreover have "hasOrigin C abi keccak required (es @ [e]) sid tb"
    if "tb \<in> set (map ctbTimeBeacon (tbs bc sid))" for sid tb
    using assms(1) that unfolding originInv_def by (blast intro: hasOrigin_snoc)
  ultimately have "\<forall>sid. \<forall>tb\<in>set (map ctbTimeBeacon (tbs bc' sid)). hasOrigin C abi keccak required (es @ [e]) sid tb"
    unfolding same spec(8) set_append by auto
  moreover have "\<forall>stb\<in>set (lookupList sid (tbs_new bc')). submitted (es @ [e]) stb" for sid
    unfolding same spec(7) by (simp add: lookupList_def)
  ultimately show ?thesis using toPushBlock_simInv[OF g(2) spec(1)] unfolding originInv_def by blast
qed

interpretation origin: event_machine "bcStep C abi keccak ethOk"
  "\<lambda>bc. bc = NewTBChain 0 required height2Confirm shardNum" "originInv C abi keccak required"
  for C :: "('pk, 'sk) crypto" and abi keccak ethOk required height2Confirm shardNum
proof
  show "originInv C abi keccak required [] [] bc" if "bc = NewTBChain 0 required height2Confirm shardNum" for bc
    using beaconInv_new[OF that, of C abi keccak] that
    by (simp add: originInv_def beaconInv_def NewTBChain_def lookupList_def)
qed (rule originInv_step)

section \<open>Contiguous heights\<close>

text \<open>The chain whose height warnings are errors: the runs of interest are those without a warning.\<close>

definition strictStep ::
  "('pk, 'sk) crypto \<Rightarrow> (TimeBeacon \<Rightarrow> bytes option) \<Rightarrow> (bytes \<Rightarrow> bytes) \<Rightarrow> (bcOut \<Rightarrow> bool) \<Rightarrow> bcEvent \<Rightarrow>
   BeaconChain \<Rightarrow> (bcOut list \<times> BeaconChain) go" where
  "strictStep C abi keccak ethOk e bc =
    (case e of Submit now stb nodeID \<Rightarrow>
       if fst (AddTimeBeacon2SimulationChain now stb bc) then Inl (Err ''height mismatch'')
       else bcStep C abi keccak ethOk e bc
     | Tick now events \<Rightarrow> bcStep C abi keccak ethOk e bc)"

definition heightsOf :: "nat \<Rightarrow> BeaconChain \<Rightarrow> u64 list" where
  "heightsOf sid bc = map (tbHeight \<circ> ctbTimeBeacon) (tbs bc sid) @
     map (tbHeight \<circ> stbTimeBeacon) (lookupList sid (tbs_new bc))"

definition heightInv ::
  "('pk, 'sk) crypto \<Rightarrow> (TimeBeacon \<Rightarrow> bytes option) \<Rightarrow> (bytes \<Rightarrow> bytes) \<Rightarrow> int \<Rightarrow>
   bcEvent list \<Rightarrow> bcOut list \<Rightarrow> BeaconChain \<Rightarrow> bool" where
  "heightInv C abi keccak required es outs bc \<longleftrightarrow> simInv C abi keccak required bc \<and>
    (\<forall>sid. heightsOf sid bc = map word_of_nat [0..<length (heightsOf sid bc)] \<and>
      (\<forall>stb\<in>set (lookupList sid (tbs_new bc)). tbHeight (stbTimeBeacon stb) \<noteq> 0))"

lemma heightsOf_index:
  "heightsOf sid bc = map word_of_nat [0..<length (heightsOf sid bc)] \<Longrightarrow> i < length (heightsOf sid bc) \<Longrightarrow>
   heightsOf sid bc ! i = word_of_nat i"
  by (metis add_0 length_map length_upt nth_map nth_upt diff_zero)

lemma heightInv_Submit:
  assumes "heightInv C abi keccak required es outs bc" "\<not> fst (AddTimeBeacon2SimulationChain now stb bc)"
  shows "heightInv C abi keccak required es' outs' (snd (AddTimeBeacon2SimulationChain now stb bc))"
proof -
  let ?sid = "unat (tbShardID (stbTimeBeacon stb))"
  let ?h = "tbHeight (stbTimeBeacon stb)"
  let ?bc = "snd (AddTimeBeacon2SimulationChain now stb bc)"
  have inv: "simInv C abi keccak required bc"
    "\<And>sid. heightsOf sid bc = map word_of_nat [0..<length (heightsOf sid bc)]"
    "\<And>sid stb. stb \<in> set (lookupList sid (tbs_new bc)) \<Longrightarrow> tbHeight (stbTimeBeacon stb) \<noteq> 0"
    using assms(1) unfolding heightInv_def by blast+
  have other: "heightsOf sid ?bc = heightsOf sid bc" if "sid \<noteq> ?sid" for sid
    using that by (simp add: heightsOf_def AddTimeBeacon2SimulationChain_def AddGenesisTB_def Let_def)
  have pend: "tbHeight (stbTimeBeacon s) \<noteq> 0" if "s \<in> set (lookupList sid (tbs_new ?bc))" for sid s
    using inv(3)[of s sid] that by (auto simp: AddTimeBeacon2SimulationChain_def AddGenesisTB_def Let_def split: if_splits)
  have "heightsOf ?sid ?bc = heightsOf ?sid bc @ [word_of_nat (length (heightsOf ?sid bc))]"
  proof (cases "?h = 0")
    case True
    then have z: "word_of_nat (length (tbs bc ?sid)) = (0 :: u64)"
      using assms(2) by (simp add: AddTimeBeacon2SimulationChain_def Let_def)
    have "lookupList ?sid (tbs_new bc) = []"
    proof (rule ccontr)
      assume n: "lookupList ?sid (tbs_new bc) \<noteq> []"
      have "heightsOf ?sid bc ! length (tbs bc ?sid) = 0"
        using n z by (subst heightsOf_index[OF inv(2)]) (simp_all add: heightsOf_def)
      moreover have "heightsOf ?sid bc ! length (tbs bc ?sid) = tbHeight (stbTimeBeacon (hd (lookupList ?sid (tbs_new bc))))"
        using n by (simp add: heightsOf_def nth_append hd_conv_nth)
      ultimately show False using inv(3)[of "hd (lookupList ?sid (tbs_new bc))" ?sid] n by simp
    qed
    with True z show ?thesis by (simp add: heightsOf_def AddTimeBeacon2SimulationChain_def AddGenesisTB_def Let_def)
  next
    case False
    with assms(2) show ?thesis
      by (simp add: heightsOf_def AddTimeBeacon2SimulationChain_def Let_def expectedHeight_def)
  qed
  with inv(2)[of ?sid] have "heightsOf ?sid ?bc = map word_of_nat [0..<length (heightsOf ?sid ?bc)]" by simp
  with other inv(2) pend simInv_Submit[OF inv(1)] show ?thesis unfolding heightInv_def by metis
qed

lemma heightInv_step:
  assumes "heightInv C abi keccak required es outs bc" "strictStep C abi keccak ethOk e bc = Inr (out, bc')"
  shows "heightInv C abi keccak required (es @ [e]) (outs @ out) bc'"
proof (cases e)
  case (Submit now stb nodeID)
  have "bcMode bc = 0" using assms(1) by (simp add: heightInv_def simInv_def)
  with Submit assms(2) have "\<not> fst (AddTimeBeacon2SimulationChain now stb bc)"
    "bc' = snd (AddTimeBeacon2SimulationChain now stb bc)"
    by (auto simp: strictStep_def bcStep_def AddTimeBeacon_def split: if_splits)
  with heightInv_Submit[OF assms(1)] show ?thesis by simp
next
  case (Tick now events)
  have inv: "simInv C abi keccak required bc" "bcMode bc = 0" using assms(1) by (simp_all add: heightInv_def simInv_def)
  with assms(2) Tick obtain block bc1 where g:
    "generateSimulationChainBlock C abi keccak now bc = Inr (block, bc1)" "toPushBlock block bc1 = Inr (out, bc')"
    by (auto simp: strictStep_def bcStep_def loopTick_def GenerateBlock_def go_bind_eq_Inr_iff)
  note spec = generateSim_spec[OF inv(1) g(1)]
  have same: "tbs bc' = tbs bc1" "tbs_new bc' = tbs_new bc1"
    using g(2) by (auto simp: toPushBlock_def Let_def split: if_splits option.splits)
  have "heightsOf sid bc' = heightsOf sid bc" for sid
    using spec(8)[of sid, THEN arg_cong[where f = "map tbHeight"]]
    by (simp add: heightsOf_def same spec(7) lookupList_def)
  with assms(1) toPushBlock_simInv[OF g(2) spec(1)] show ?thesis
    by (simp add: heightInv_def same spec(7) lookupList_def)
qed

interpretation strict: event_machine "strictStep C abi keccak ethOk"
  "\<lambda>bc. bc = NewTBChain 0 required height2Confirm shardNum" "heightInv C abi keccak required"
  for C :: "('pk, 'sk) crypto" and abi keccak ethOk required height2Confirm shardNum
proof
  show "heightInv C abi keccak required [] [] bc" if "bc = NewTBChain 0 required height2Confirm shardNum" for bc
    using that by (simp add: heightInv_def simInv_def NewTBChain_def heightsOf_def lookupList_def)
qed (rule heightInv_step)

section \<open>Blocks of the external chain\<close>

text \<open>The beacons of the events that no block has packed yet.\<close>

definition waitingTBs :: "(u64 \<times> (nat \<times> TimeBeacon list) list) list \<Rightarrow> TimeBeacon list" where
  "waitingTBs geth = concat (map (concat \<circ> map snd \<circ> snd) geth)"

definition gethOk :: "(u64 \<times> (nat \<times> TimeBeacon list) list) list \<Rightarrow> bool" where
  "gethOk geth \<longleftrightarrow> distinct (map fst geth) \<and> (\<forall>e\<in>set geth. distinct (map fst (snd e)))"

lemma mset_appendAt: "mset (concat (map snd (appendAt k v m))) = add_mset v (mset (concat (map snd m)))"
  by (induction k v m rule: appendAt.induct) auto

lemma distinct_appendAt: "distinct (map fst m) \<Longrightarrow> distinct (map fst (appendAt k v m))"
  by (simp add: keys_appendAt)

lemma keys_appendAt2: "set (map fst (appendAt2 h k v ms)) = insert h (set (map fst ms))"
  by (induction h k v ms rule: appendAt2.induct) auto

lemma appendAt2_ok: "gethOk ms \<Longrightarrow> gethOk (appendAt2 h k v ms)"
proof (induction h k v ms rule: appendAt2.induct)
  case (2 h k v h' m ms)
  then show ?case using keys_appendAt2[of h k v ms] distinct_appendAt[of m k v]
    by (auto simp: gethOk_def)
qed (simp add: gethOk_def)

lemma waiting_appendAt2: "mset (waitingTBs (appendAt2 h k v ms)) = add_mset v (mset (waitingTBs ms))"
  by (induction h k v ms rule: appendAt2.induct) (auto simp: waitingTBs_def mset_appendAt)

lemma takeEvents:
  assumes "fold takeEvent events (p, start, geth) = (p', start', geth')" "gethOk geth"
  shows "gethOk geth' \<and> mset (waitingTBs geth') = mset (waitingTBs geth) + mset (map eventTB events)"
  using assms
proof (induction events arbitrary: p start geth)
  case (Cons ev events)
  obtain p1 s1 g1 where t: "takeEvent ev (p, start, geth) = (p1, s1, g1)" by (metis prod_cases3)
  then have "g1 = appendAt2 (evEth_height ev) (unat (evShardID ev)) (eventTB ev) geth"
    by (auto simp: takeEvent_def Let_def)
  with Cons.IH[of p1 s1 g1] Cons.prems t appendAt2_ok waiting_appendAt2 show ?case by simp
qed simp

lemma packShard_pair:
  "packShard now (sid, ts) (cs, bc) =
    (if length cs \<le> sid then Inl (Panic ''index out of range'')
     else let c = cs ! sid @ map (\<lambda>tb. \<lparr>ctbTimeBeacon = tb, ctbConfirmTime = now,
                     ctbConfirmHeight = bcHeight bc\<rparr>) ts
          in Inr (cs[sid := c], bc\<lparr>tbs := (tbs bc)(sid := tbs bc sid @ c)\<rparr>))"
  by (simp add: packShard_def)

lemma lookupList_absent: "k \<notin> fst ` set m \<Longrightarrow> lookupList k m = []"
  unfolding lookupList_def map_of_eq_None_iff[symmetric] by simp

lemma mset_concat_update:
  "i < length cs \<Longrightarrow> cs ! i = [] \<Longrightarrow> mset (concat (cs[i := c])) = mset (concat cs) + mset c"
proof (induction cs arbitrary: i)
  case (Cons x cs)
  then show ?case by (cases i) auto
qed simp

lemma packShard_bound:
  "go_fold (packShard now) entries (cs, bc) = Inr (cs', bc') \<Longrightarrow> \<forall>sid\<in>fst ` set entries. sid < length cs"
proof (induction entries arbitrary: cs bc)
  case (Cons e es)
  obtain sid ts where e: "e = (sid, ts)" by force
  from Cons.prems obtain c1 b1 where "packShard now (sid, ts) (cs, bc) = Inr (c1, b1)"
    "go_fold (packShard now) es (c1, b1) = Inr (cs', bc')" using e by (auto simp: go_bind_eq_Inr_iff)
  moreover from this(1) have "sid < length cs" "length c1 = length cs"
    by (auto simp: packShard_pair Let_def split: if_splits)
  ultimately show ?case using Cons.IH[of c1 b1] e by auto
qed simp

lemma packShards:
  assumes "go_fold (packShard now) entries (cs, bc) = Inr (cs', bc')" "distinct (map fst entries)"
    "\<forall>sid\<in>fst ` set entries. cs ! sid = []"
  shows "mset (map ctbTimeBeacon (concat cs')) = mset (map ctbTimeBeacon (concat cs)) + mset (concat (map snd entries))
    \<and> geth_tbs_new bc' = geth_tbs_new bc
    \<and> (\<forall>sid. map ctbTimeBeacon (tbs bc' sid) = map ctbTimeBeacon (tbs bc sid) @ lookupList sid entries)"
  using assms
proof (induction entries arbitrary: cs bc)
  case (Cons entry entries)
  obtain sid ts where e: "entry = (sid, ts)" by force
  let ?c = "map (\<lambda>tb. \<lparr>ctbTimeBeacon = tb, ctbConfirmTime = now, ctbConfirmHeight = bcHeight bc\<rparr>) ts"
  have nil: "cs ! sid = []" "sid \<notin> fst ` set entries" "distinct (map fst entries)" using Cons.prems(2,3) e by auto
  with Cons.prems(1) e have len: "sid < length cs" and
    s: "go_fold (packShard now) entries (cs[sid := ?c], bc\<lparr>tbs := (tbs bc)(sid := tbs bc sid @ ?c)\<rparr>) = Inr (cs', bc')"
    by (auto simp: packShard_pair Let_def not_le split: if_splits)
  have none: "\<forall>s\<in>fst ` set entries. cs[sid := ?c] ! s = []" using Cons.prems(3) nil(2) e
    by (metis image_insert insertCI list.set(2) nth_list_update_neq)
  have "mset (concat (cs[sid := ?c])) = mset (concat cs) + mset ?c"
    using len nil(1) by (rule mset_concat_update)
  then have "mset (map ctbTimeBeacon (concat (cs[sid := ?c]))) = mset (map ctbTimeBeacon (concat cs)) + mset ts"
    by (simp add: multiset.map_comp comp_def)
  moreover have "lookupList sid entries = []"
    using nil(2) by (rule lookupList_absent)
  moreover have "lookupList k (entry # entries) = (if k = sid then ts else lookupList k entries)" for k
    by (simp add: lookupList_def e)
  ultimately show ?case using Cons.IH[OF s nil(3) none] e by (auto simp: comp_def)
qed (simp add: lookupList_def)

lemma waiting_delete:
  assumes "distinct (map fst geth)"
  shows "mset (waitingTBs geth) =
    mset (concat (map snd (lookupList h geth))) + mset (waitingTBs (filter (\<lambda>e. fst e \<noteq> h) geth))"
  using assms
proof (induction geth)
  case (Cons e geth)
  have "lookupList h geth = []" "filter (\<lambda>e. fst e \<noteq> h) geth = geth" if "fst e = h"
  proof -
    have "h \<notin> fst ` set geth" using Cons.prems that by auto
    then show "lookupList h geth = []" "filter (\<lambda>e. fst e \<noteq> h) geth = geth"
      by (auto simp: lookupList_absent filter_id_conv)
  qed
  with Cons show ?case
    by (cases "fst e = h") (simp_all add: waitingTBs_def lookupList_def prod.case_eq_if)
qed (simp add: waitingTBs_def lookupList_def)

text \<open>
  C12. Only submitted and verified beacons are confirmed. In every run of the simulated chain, a beacon
  confirmed for a shard carries the number of that shard and was submitted earlier in the run;
  unless it is a genesis beacon, of height 0, it was submitted with signatures that the
  contract of that shard accepts.
\<close>

theorem confirmed_beacons_verified:
  assumes "runEvents (bcStep C abi keccak ethOk) es (NewTBChain 0 required height2Confirm shardNum) = Inr (outs, bc)"
    "c \<in> set (tbs bc sid)"
  shows "unat (tbShardID (ctbTimeBeacon c)) = sid \<and>
    (\<exists>now stb nodeID. Submit now stb nodeID \<in> set es \<and> stbTimeBeacon stb = ctbTimeBeacon c \<and>
      (tbHeight (ctbTimeBeacon c) \<noteq> 0 \<longrightarrow>
        VerifyTimeBeacon C abi keccak (NewShardContract (int sid) required) stb = Inr True))"
  using origin.hinv_run[OF assms(1) refl] assms(2)
  by (fastforce simp: originInv_def simInv_def hasOrigin_def submitted_def)

text \<open>
  C32. Blocks are pushed in order, once, and only when deep enough. After \<open>n\<close> ticks the
  simulated chain has exactly the blocks of heights 1 to \<open>n\<close>, and it has pushed those that are
  \<^verbatim>\<open>height2Confirm\<close> deep, each to the client and to the committees, in the order of their heights.
\<close>

theorem beacon_blocks_pushed:
  assumes "runEvents (bcStep C abi keccak ethOk) es (NewTBChain 0 required height2Confirm shardNum) = Inr (outs, bc)"
    "n = length (filter isTick es)" "n < 2 ^ 64"
  shows "bcHeight bc = word_of_nat n \<and> (\<forall>h. tbBlocks bc h \<noteq> None \<longleftrightarrow> 1 \<le> unat h \<and> unat h \<le> n) \<and>
    outs = concat (map (\<lambda>k. let b = the (tbBlocks bc (word_of_nat k)) in [PushBlock2Client b, PushBlock2Coms b])
      [1..<n + 1 - unat height2Confirm])"
  using depth.hinv_run[OF assms(1) refl] assms(2,3)
  by (simp add: depthInv_def beaconInv_def pushInv_def Let_def pushOf_eta)

text \<open>
  C33. Heights are contiguous when no submission is warned about. In such a run the beacon that
  \<^verbatim>\<open>GetTimeBeacon\<close> returns for a height is the beacon of that height.
\<close>

theorem beacon_heights_contiguous:
  assumes "runEvents (strictStep C abi keccak ethOk) es (NewTBChain 0 required height2Confirm shardNum) = Inr (outs, bc)"
    "GetTimeBeacon sid height bc = Some c"
  shows "tbHeight (ctbTimeBeacon c) = height"
proof -
  have inv: "heightsOf sid bc = map word_of_nat [0..<length (heightsOf sid bc)]"
    using strict.hinv_run[OF assms(1) refl] unfolding heightInv_def by blast
  from assms(2) have "c = tbs bc sid ! unat height" "height < word_of_nat (length (tbs bc sid))"
    by (auto simp: GetTimeBeacon_def Let_def not_le split: if_splits)
  moreover from this(2) have len: "unat height < length (tbs bc sid)"
    using mod_less_eq_dividend[of "length (tbs bc sid)" "2 ^ 64"] by (simp add: word_less_nat_alt unat_of_nat)
  ultimately have "tbHeight (ctbTimeBeacon c) = heightsOf sid bc ! unat height"
    by (simp add: heightsOf_def nth_append)
  also have "\<dots> = word_of_nat (unat height)" using len by (intro heightsOf_index[OF inv]) (simp add: heightsOf_def)
  finally show ?thesis by simp
qed

text \<open>
  C34. A block of the external chain loses and duplicates nothing. The beacons of the events waiting in the
  channel and of those received before are afterwards either still waiting or in the block,
  with their multiplicities.
\<close>

theorem eth_block_takes_events:
  assumes "generateEthChainBlock now events bc = Inr (block, bc')" "gethOk (geth_tbs_new bc)"
  shows "gethOk (geth_tbs_new bc') \<and>
    mset (waitingTBs (geth_tbs_new bc)) + mset (map eventTB events) =
    mset (waitingTBs (geth_tbs_new bc')) +
    (case block of None \<Rightarrow> {#} | Some b \<Rightarrow> mset (map ctbTimeBeacon (concat (tbbTbs b))))"
proof -
  let ?init = "(False, minHeight (map fst (geth_tbs_new bc)), geth_tbs_new bc)"
  obtain pk start geth where f: "fold takeEvent events ?init = (pk, start, geth)" by (metis prod_cases3)
  note t = takeEvents[OF f assms(2)]
  show ?thesis
  proof (cases pk)
    case False
    with assms(1) f have "block = None" "bc' = bc\<lparr>geth_tbs_new := geth\<rparr>"
      by (simp_all add: generateEthChainBlock_def)
    with t show ?thesis by simp
  next
    case True
    let ?bc1 = "bc\<lparr>geth_tbs_new := geth\<rparr>"
    from True assms(1) f obtain cs bc2 where
      p: "go_fold (packShard now) (lookupList start geth) (replicate (bcShardNum bc) [], ?bc1) = Inr (cs, bc2)"
      and b: "block = Some \<lparr>tbbTime = now, tbbHeight = start, tbbTbs = cs\<rparr>"
        "bc' = bc2\<lparr>geth_tbs_new := filter (\<lambda>e. fst e \<noteq> start) geth\<rparr>"
      by (auto simp: generateEthChainBlock_def go_bind_eq_Inr_iff)
    have bound: "\<forall>sid\<in>fst ` set (lookupList start geth). sid < length (replicate (bcShardNum bc) ([] :: ConfirmedTB list))"
      using p by (rule packShard_bound)
    have "distinct (map fst (lookupList start geth))"
      using t by (auto simp: gethOk_def lookupList_def dest!: map_of_SomeD split: option.splits)
    with packShards[OF p] bound
    have "mset (map ctbTimeBeacon (concat cs)) = mset (concat (map snd (lookupList start geth)))" by simp
    with t b waiting_delete[of geth start] show ?thesis by (simp add: gethOk_def distinct_map_filter)
  qed
qed

section \<open>Confirmation heights of the external chain\<close>

definition ethInv :: "bcEvent list \<Rightarrow> bcOut list \<Rightarrow> BeaconChain \<Rightarrow> bool" where
  "ethInv es outs bc \<longleftrightarrow> (bcMode bc = 1 \<or> bcMode bc = 2) \<and> bcHeight bc = 0 \<and>
    (\<forall>sid. \<forall>c\<in>set (tbs bc sid). ctbConfirmHeight c = 0)"

lemma packShards_ethInv:
  assumes "go_fold (packShard now) entries (cs, bc) = Inr (cs', bc')" "ethInv es outs bc"
    "\<forall>xs\<in>set cs. \<forall>c\<in>set xs. ctbConfirmHeight c = 0"
  shows "ethInv es outs bc'"
  using assms
proof (induction entries arbitrary: cs bc)
  case (Cons e entries)
  obtain sid ts where e: "e = (sid, ts)" by force
  let ?c = "cs ! sid @ map (\<lambda>tb. \<lparr>ctbTimeBeacon = tb, ctbConfirmTime = now, ctbConfirmHeight = bcHeight bc\<rparr>) ts"
  from Cons.prems(1) e have len: "sid < length cs" and
    s: "go_fold (packShard now) entries (cs[sid := ?c], bc\<lparr>tbs := (tbs bc)(sid := tbs bc sid @ ?c)\<rparr>) = Inr (cs', bc')"
    by (auto simp: packShard_pair Let_def not_le split: if_splits)
  have "bcHeight bc = 0" "\<forall>c\<in>set (cs ! sid). ctbConfirmHeight c = 0"
    using Cons.prems(2) bspec[OF Cons.prems(3) nth_mem[OF len]] by (simp_all add: ethInv_def)
  then have z: "\<forall>c\<in>set ?c. ctbConfirmHeight c = 0" by auto
  then have "ethInv es outs (bc\<lparr>tbs := (tbs bc)(sid := tbs bc sid @ ?c)\<rparr>)"
    using Cons.prems(2) by (auto simp: ethInv_def)
  moreover have "\<forall>xs\<in>set (cs[sid := ?c]). \<forall>c\<in>set xs. ctbConfirmHeight c = 0"
    using z Cons.prems(3) set_update_subset_insert[of cs sid ?c] by blast
  ultimately show ?case by (rule Cons.IH[OF s])
qed simp

lemma generateEth_ethInv:
  assumes "generateEthChainBlock now events bc = Inr (block, bc')" "ethInv es outs bc"
  shows "ethInv es' outs' bc'"
proof -
  obtain pk start geth where f:
    "fold takeEvent events (False, minHeight (map fst (geth_tbs_new bc)), geth_tbs_new bc) = (pk, start, geth)"
    by (metis prod_cases3)
  have inv: "ethInv es outs (bc\<lparr>geth_tbs_new := geth\<rparr>)" using assms(2) by (simp add: ethInv_def)
  show ?thesis
  proof (cases pk)
    case False
    with assms(1) f inv show ?thesis by (auto simp: generateEthChainBlock_def ethInv_def)
  next
    case True
    with assms(1) f obtain cs bc2 where
      "go_fold (packShard now) (lookupList start geth) (replicate (bcShardNum bc) [], bc\<lparr>geth_tbs_new := geth\<rparr>) = Inr (cs, bc2)"
      "bc' = bc2\<lparr>geth_tbs_new := filter (\<lambda>e. fst e \<noteq> start) geth\<rparr>"
      by (auto simp: generateEthChainBlock_def go_bind_eq_Inr_iff)
    with packShards_ethInv[OF this(1) inv] show ?thesis by (simp add: ethInv_def)
  qed
qed

lemma ethInv_step:
  assumes "ethInv es outs bc" "bcStep C abi keccak ethOk e bc = Inr (out, bc')"
  shows "ethInv (es @ [e]) (outs @ out) bc'"
proof (cases e)
  case (Submit now stb nodeID)
  with assms show ?thesis
    by (auto simp: bcStep_def AddTimeBeacon_def AddTimeBeacon2EthChain_def AddEthChainGenesisTB_def Let_def
        ethInv_def split: if_splits)
next
  case (Tick now events)
  with assms obtain block bc1 where g: "generateEthChainBlock now events bc = Inr (block, bc1)"
    "(case block of None \<Rightarrow> Inr ([], bc1) | Some b \<Rightarrow> toPushBlock b bc1) = Inr (out, bc')"
    by (auto simp: bcStep_def loopTick_def GenerateBlock_def ethInv_def go_bind_eq_Inr_iff)
  have "ethInv (es @ [e]) (outs @ out) bc1" by (rule generateEth_ethInv[OF g(1) assms(1)])
  moreover have "bcMode bc' = bcMode bc1" "bcHeight bc' = bcHeight bc1" "tbs bc' = tbs bc1"
    using g(2) by (auto simp: toPushBlock_def Let_def split: if_splits option.splits)
  ultimately show ?thesis by (simp add: ethInv_def)
qed

interpretation eth: event_machine "bcStep C abi keccak ethOk"
  "\<lambda>bc. \<exists>mode. bc = NewTBChain mode required height2Confirm shardNum \<and> (mode = 1 \<or> mode = 2)" ethInv
  for C :: "('pk, 'sk) crypto" and abi keccak ethOk required height2Confirm shardNum
proof
  show "ethInv [] [] bc"
    if "\<exists>mode. bc = NewTBChain mode required height2Confirm shardNum \<and> (mode = 1 \<or> mode = 2)" for bc
    using that by (auto simp: ethInv_def NewTBChain_def)
qed (rule ethInv_step)

text \<open>
  C35. With an external chain the confirmation height is never recorded. The field is documented as the height of
  the beacon-chain block that contains the beacon; in modes 1 and 2 nothing ever
  advances the height it is taken from, and every confirmed beacon has height 0 there.
\<close>

theorem eth_confirm_height_zero:
  assumes "runEvents (bcStep C abi keccak ethOk) es (NewTBChain mode required height2Confirm shardNum) = Inr (outs, bc)"
    "mode = 1 \<or> mode = 2" "c \<in> set (tbs bc sid)"
  shows "ctbConfirmHeight c = 0"
proof -
  have "ethInv es outs bc" using eth.hinv_run[OF assms(1), of required height2Confirm shardNum] assms(2) by blast
  with assms(3) show ?thesis by (simp add: ethInv_def)
qed

section \<open>Sample runs\<close>

definition sampleSTB :: "u64 \<Rightarrow> SignedTB" where
  "sampleSTB h = \<lparr>stbTimeBeacon = sampleTB h, stbSeedHeight = 1, stbSigners = [[5]],
     stbSigs = [1 # 5 # putUint64 h], stbVrfs = [[1, 5, 9]]\<rparr>"

lemmas sampleRun_simps = bcStep_def strictStep_def AddTimeBeacon_def AddTimeBeacon2SimulationChain_def
  AddGenesisTB_def loopTick_def GenerateBlock_def generateSimulationChainBlock_def confirmShard_def confirmOne_def
  toPushBlock_def NewTBChain_def NewContract_def NewShardContract_def VerifyTimeBeacon_def recoverAddr_def
  checkAddressValidity_def sampleSTB_def sampleTB_def sampleAbi_def sampleCrypto_def TimeBeacon_Hash_def
  expectedHeight_def lookupList_def Let_def

lemma sampleSimRun:
  "\<exists>bc. runEvents (bcStep sampleCrypto sampleAbi id (\<lambda>_. True))
      [Submit 7 (sampleSTB 0) 0, Submit 8 (sampleSTB 1) 0, Tick 9 []] (NewTBChain 0 1 0 1) =
    Inr ([PushBlock2Client (the (tbBlocks bc 1)), PushBlock2Coms (the (tbBlocks bc 1))], bc) \<and>
    tbs bc 0 = [\<lparr>ctbTimeBeacon = sampleTB 0, ctbConfirmTime = 7, ctbConfirmHeight = 0\<rparr>,
                \<lparr>ctbTimeBeacon = sampleTB 1, ctbConfirmTime = 9, ctbConfirmHeight = 1\<rparr>]"
  by (simp add: sampleRun_simps)

theorem confirmed_beacons_verified_witness:
  "\<exists>outs bc c. runEvents (bcStep sampleCrypto sampleAbi id (\<lambda>_. True))
      [Submit 7 (sampleSTB 0) 0, Submit 8 (sampleSTB 1) 0, Tick 9 []] (NewTBChain 0 1 0 1) = Inr (outs, bc) \<and>
    c \<in> set (tbs bc 0) \<and> ctbTimeBeacon c = sampleTB 1 \<and>
    VerifyTimeBeacon sampleCrypto sampleAbi id (NewShardContract 0 1) (sampleSTB 1) = Inr True"
proof -
  let ?c = "\<lparr>ctbTimeBeacon = sampleTB 1, ctbConfirmTime = 9, ctbConfirmHeight = 1\<rparr>"
  obtain outs bc where r: "runEvents (bcStep sampleCrypto sampleAbi id (\<lambda>_. True))
      [Submit 7 (sampleSTB 0) 0, Submit 8 (sampleSTB 1) 0, Tick 9 []] (NewTBChain 0 1 0 1) = Inr (outs, bc)"
    "?c \<in> set (tbs bc 0)"
    using sampleSimRun by force
  from confirmed_beacons_verified[OF r]
  have "VerifyTimeBeacon sampleCrypto sampleAbi id (NewShardContract 0 1) (sampleSTB 1) = Inr True"
    by (auto simp: sampleSTB_def sampleTB_def)
  with r show ?thesis by (intro exI[of _ outs] exI[of _ bc] exI[of _ ?c]) simp
qed

theorem beacon_blocks_pushed_witness:
  "\<exists>outs bc. runEvents (bcStep sampleCrypto sampleAbi id (\<lambda>_. True))
      [Submit 7 (sampleSTB 0) 0, Submit 8 (sampleSTB 1) 0, Tick 9 []] (NewTBChain 0 1 0 1) = Inr (outs, bc) \<and>
    bcHeight bc = 1 \<and> tbBlocks bc 1 \<noteq> None \<and> length outs = 2"
proof -
  obtain outs bc where r: "runEvents (bcStep sampleCrypto sampleAbi id (\<lambda>_. True))
      [Submit 7 (sampleSTB 0) 0, Submit 8 (sampleSTB 1) 0, Tick 9 []] (NewTBChain 0 1 0 1) = Inr (outs, bc)"
    using sampleSimRun by force
  from beacon_blocks_pushed[OF r refl] r show ?thesis by (auto simp: Let_def)
qed

theorem beacon_heights_contiguous_witness:
  "\<exists>outs bc c. runEvents (strictStep sampleCrypto sampleAbi id (\<lambda>_. True))
      [Submit 7 (sampleSTB 0) 0, Submit 8 (sampleSTB 1) 0, Tick 9 []] (NewTBChain 0 1 0 1) = Inr (outs, bc) \<and>
    GetTimeBeacon 0 1 bc = Some c \<and> tbHeight (ctbTimeBeacon c) = 1"
proof -
  obtain outs bc c where r: "runEvents (strictStep sampleCrypto sampleAbi id (\<lambda>_. True))
      [Submit 7 (sampleSTB 0) 0, Submit 8 (sampleSTB 1) 0, Tick 9 []] (NewTBChain 0 1 0 1) = Inr (outs, bc)"
    "GetTimeBeacon 0 1 bc = Some c"
    by (simp add: sampleRun_simps GetTimeBeacon_def word_le_nat_alt)
  with beacon_heights_contiguous[OF r] show ?thesis by blast
qed

theorem eth_block_takes_events_witness:
  "\<exists>b bc'. generateEthChainBlock 7 [\<lparr>evShardID = 0, evHeight = 1, evEth_height = 4\<rparr>,
      \<lparr>evShardID = 0, evHeight = 2, evEth_height = 5\<rparr>] (NewTBChain 2 1 0 1) = Inr (Some b, bc') \<and>
    mset (map ctbTimeBeacon (concat (tbbTbs b))) + mset (waitingTBs (geth_tbs_new bc')) = {#sampleTB 1, sampleTB 2#}"
proof -
  let ?evs = "[\<lparr>evShardID = 0, evHeight = 1, evEth_height = 4\<rparr>, \<lparr>evShardID = 0, evHeight = 2, evEth_height = 5\<rparr>]"
  obtain b bc' where g: "generateEthChainBlock 7 ?evs (NewTBChain 2 1 0 1) = Inr (Some b, bc')"
    by (simp add: generateEthChainBlock_def NewTBChain_def takeEvent_def minHeight_def eventTB_def packShard_def
        lookupList_def Let_def)
  from eth_block_takes_events[OF g] show ?thesis
    by (intro exI[of _ b] exI[of _ bc'] conjI g)
      (simp add: gethOk_def NewTBChain_def waitingTBs_def eventTB_def sampleTB_def add.commute)
qed

theorem eth_confirm_height_zero_witness:
  "\<exists>outs bc c. runEvents (bcStep sampleCrypto sampleAbi id (\<lambda>_. True))
      [Tick 7 [\<lparr>evShardID = 0, evHeight = 1, evEth_height = 4\<rparr>, \<lparr>evShardID = 0, evHeight = 2, evEth_height = 5\<rparr>]]
      (NewTBChain 2 1 0 1) = Inr (outs, bc) \<and> c \<in> set (tbs bc 0) \<and> ctbConfirmHeight c = 0"
proof -
  obtain outs bc c where r: "runEvents (bcStep sampleCrypto sampleAbi id (\<lambda>_. True))
      [Tick 7 [\<lparr>evShardID = 0, evHeight = 1, evEth_height = 4\<rparr>, \<lparr>evShardID = 0, evHeight = 2, evEth_height = 5\<rparr>]]
      (NewTBChain 2 1 0 1) = Inr (outs, bc)" "c \<in> set (tbs bc 0)"
    by (simp add: bcStep_def loopTick_def GenerateBlock_def generateEthChainBlock_def NewTBChain_def takeEvent_def
        minHeight_def eventTB_def packShard_def lookupList_def toPushBlock_def Let_def)
  with eth_confirm_height_zero[OF r(1) _ r(2)] show ?thesis by auto
qed



end
