(* ===== verification/Result.thy ===== *)
theory Result
  imports Tx_Pool
begin

text \<open>
  \<^verbatim>\<open>src/result/result.go\<close> and \<^verbatim>\<open>src/result/txStatus.go\<close>: the statistics that the client keeps about its
  transactions. The package has one global \<^verbatim>\<open>res\<close>, which is the state the operations pass on.
  The progress bar and the csv file are output only. A quotient of floating point numbers is
  kept as the pair of its operands.
\<close>

definition getStatusStr :: "u64 \<Rightarrow> string" where
  "getStatusStr status =
    (if status = DefaultStatus then ''DefaultStatus''
     else if status = IntraSuccess then ''IntraSuccess''
     else if status = CrossTXType1Success then ''CrossTXType1Success''
     else if status = CrossTXType2Success then ''CrossTXType2Success''
     else if status = RollbackSuccess then ''RollbackSuccess''
     else if status = Dropped then ''Dropped''
     else if status = CrossTXType2Fail then ''CrossTXType2Fail''
     else if status = RollbackFail then ''RollbackFail''
     else ''Unknown'')"

definition checkTXFinished :: "u64 \<Rightarrow> bool" where
  "checkTXFinished status \<longleftrightarrow> status = IntraSuccess \<or> status = CrossTXType2Success"

definition getStatusListStr :: "u64 list \<Rightarrow> string" where
  "getStatusListStr statusList =
    (let str = concat (map (\<lambda>status. getStatusStr status @ '','') statusList)
     in if length str = 0 then ''[]'' else ''['' @ take (length str - 1) str @ '']'')"

record Result =
  Totalnum :: int
  allComplished :: int
  WorkLoad :: int
  BroadcastMap :: "u64 list"
  ConfirmMap :: "u64 list"
  AllTXStatus :: "u64 list list"
  allRollBack :: int
  workload4shard :: "int \<rightharpoonup> int"

definition NewResult :: Result where
  "NewResult = \<lparr>Totalnum = 0, allComplished = 0, WorkLoad = 0, BroadcastMap = [], ConfirmMap = [],
     AllTXStatus = [], allRollBack = 0, workload4shard = Map.empty\<rparr>"

definition SetTotalTXNum :: "int \<Rightarrow> Result \<Rightarrow> Result go" where
  "SetTotalTXNum totalnum res =
    (if totalnum < 0 then Inl (Panic ''makeslice: len out of range'')
     else Inr (res\<lparr>Totalnum := totalnum, WorkLoad := 0, allComplished := 0,
       BroadcastMap := replicate (nat totalnum) 0, ConfirmMap := replicate (nat totalnum) 0,
       AllTXStatus := replicate (nat totalnum) [], workload4shard := Map.empty\<rparr>))"

definition SetBroadcastMap :: "(u64 \<times> u64) list \<Rightarrow> Result \<Rightarrow> Result go" where
  "SetBroadcastMap table res =
    go_fold (\<lambda>(i, t) res. if length (BroadcastMap res) \<le> unat i then Inl (Panic ''index out of range'')
       else Inr (res\<lparr>BroadcastMap := (BroadcastMap res)[unat i := t]\<rparr>)) table res"

definition addLoad :: "int \<Rightarrow> (int \<rightharpoonup> int) \<Rightarrow> (int \<rightharpoonup> int)" where
  "addLoad shardID m = m(shardID \<mapsto> (case m shardID of None \<Rightarrow> 0 | Some n \<Rightarrow> n) + 1)"

text \<open>One entry of the table of receipts; the counter is the local \<^verbatim>\<open>complished\<close>.\<close>

definition receiptStep :: "u64 \<times> TXReceipt \<Rightarrow> int \<times> Result \<Rightarrow> (int \<times> Result) go" where
  "receiptStep kv st =
    (case (kv, st) of ((k, v), (complished, res)) \<Rightarrow>
     if rTxStatus v = DefaultStatus then Inl (Exit ''tx's status lost.'')
     else if length (AllTXStatus res) \<le> unat k then Inl (Panic ''index out of range'')
     else let res1 = res\<lparr>AllTXStatus := (AllTXStatus res)[unat k := AllTXStatus res ! unat k @ [rTxStatus v]],
                workload4shard := addLoad (rShardID v) (workload4shard res)\<rparr>
          in if checkTXFinished (rTxStatus v) then
               if length (ConfirmMap res1) \<le> unat k then Inl (Panic ''index out of range'')
               else Inr (complished + 1, res1\<lparr>ConfirmMap := (ConfirmMap res1)[unat k := rConfirmTimeStamp v]\<rparr>)
             else if rTxStatus v = RollbackSuccess
             then Inr (complished, res1\<lparr>allRollBack := allRollBack res1 + 1\<rparr>)
             else Inr (complished, res1))"

definition SetTXReceiptV2 :: "(u64 \<times> TXReceipt) list \<Rightarrow> Result \<Rightarrow> Result go" where
  "SetTXReceiptV2 table res =
    go_bind (go_fold receiptStep table (0, res)) (\<lambda>(complished, res').
    Inr (res'\<lparr>allComplished := allComplished res' + complished, WorkLoad := WorkLoad res' + int (length table)\<rparr>))"

section \<open>Latency\<close>

record LatencyStats =
  latencys :: "u64 list"
  latSum :: u64
  max_latency :: u64
  max_latency_id :: "nat option"
  min_latency :: u64
  min_latency_id :: "nat option"
  latEnd :: u64

definition latencyStep :: "Result \<Rightarrow> nat \<Rightarrow> LatencyStats \<Rightarrow> LatencyStats" where
  "latencyStep res i st =
    (if ConfirmMap res ! i = 0 then st
     else let l = ConfirmMap res ! i - BroadcastMap res ! i;
              st1 = st\<lparr>latencys := (latencys st)[i := l], latSum := latSum st + l\<rparr>;
              st2 = (if l > max_latency st1 then st1\<lparr>max_latency := l, max_latency_id := Some i\<rparr> else st1);
              st3 = (if l < min_latency st2 then st2\<lparr>min_latency := l, min_latency_id := Some i\<rparr> else st2)
          in if latEnd st3 < ConfirmMap res ! i then st3\<lparr>latEnd := ConfirmMap res ! i\<rparr> else st3)"

definition latencyStart :: "Result \<Rightarrow> LatencyStats" where
  "latencyStart res = \<lparr>latencys = replicate (nat (Totalnum res)) 0, latSum = 0, max_latency = 0,
     max_latency_id = None, min_latency = 100000, min_latency_id = None, latEnd = 0\<rparr>"

text \<open>The loop body indexes two slices.\<close>

definition latencyStats :: "Result \<Rightarrow> LatencyStats go" where
  "latencyStats res =
    go_fold (\<lambda>i st. if length (ConfirmMap res) \<le> i \<or> ConfirmMap res ! i \<noteq> 0 \<and> length (BroadcastMap res) \<le> i
                  then Inl (Panic ''index out of range'') else Inr (latencyStep res i st))
      [0..<nat (Totalnum res)] (latencyStart res)"

text \<open>
  The results are the operands of the throughput, of the average latency and of the rollback
  rate, and the load of each shard in the order of the shards. An identifier that was never set is -1.
\<close>

definition GetThroughtPutAndLatencyV2 ::
  "Result \<Rightarrow> ((int \<times> u64) \<times> (u64 \<times> int) \<times> (int \<times> int) \<times> int list) go" where
  "GetThroughtPutAndLatencyV2 res =
    (case BroadcastMap res of [] \<Rightarrow> Inl (Panic ''index out of range'')
     | begin # _ \<Rightarrow>
       if Totalnum res < 0 then Inl (Panic ''makeslice: len out of range'') else
       go_bind (latencyStats res) (\<lambda>st.
       let known = (\<lambda>txid. case txid of None \<Rightarrow> False | Some i \<Rightarrow> i < length (AllTXStatus res)) in
       if \<not> known (max_latency_id st) \<or> \<not> known (min_latency_id st) then Inl (Panic ''index out of range'')
       else Inr ((allComplished res, latEnd st - begin), (latSum st, allComplished res),
         (allRollBack res, allComplished res + allRollBack res),
         map (\<lambda>k. the (workload4shard res k)) (sorted_list_of_set (dom (workload4shard res))))))"

section \<open>The counters agree with the recorded statuses\<close>

definition statusCount :: "(u64 \<Rightarrow> bool) \<Rightarrow> Result \<Rightarrow> int" where
  "statusCount P res = int (length (filter P (concat (AllTXStatus res))))"

definition resultOk :: "Result \<Rightarrow> bool" where
  "resultOk res \<longleftrightarrow>
    length (AllTXStatus res) = nat (Totalnum res) \<and> length (ConfirmMap res) = nat (Totalnum res) \<and>
    length (BroadcastMap res) = nat (Totalnum res) \<and>
    allComplished res = statusCount checkTXFinished res \<and>
    allRollBack res = statusCount (\<lambda>s. s = RollbackSuccess) res \<and>
    WorkLoad res = statusCount (\<lambda>_. True) res \<and>
    finite (dom (workload4shard res)) \<and>
    WorkLoad res = (\<Sum>s\<in>dom (workload4shard res). the (workload4shard res s))"

lemma length_filter_concat_update:
  "i < length xss \<Longrightarrow> length (filter P (concat (xss[i := xss ! i @ [x]]))) =
    length (filter P (concat xss)) + (if P x then 1 else 0)"
proof (induction xss arbitrary: i)
  case (Cons xs xss)
  then show ?case by (cases i) auto
qed simp

lemma finite_addLoad: "finite (dom m) \<Longrightarrow> finite (dom (addLoad k m))"
  by (simp add: addLoad_def)

lemma sum_addLoad:
  assumes "finite (dom m)"
  shows "(\<Sum>s\<in>dom (addLoad k m). the (addLoad k m s)) = (\<Sum>s\<in>dom m. the (m s)) + 1"
proof -
  have "(\<Sum>s\<in>dom (addLoad k m). the (addLoad k m s)) =
      the (addLoad k m k) + (\<Sum>s\<in>dom m - {k}. the (addLoad k m s))"
    using sum.insert_remove[OF assms, of "\<lambda>s. the (addLoad k m s)" k] by (simp add: addLoad_def)
  also have "(\<Sum>s\<in>dom m - {k}. the (addLoad k m s)) = (\<Sum>s\<in>dom m - {k}. the (m s))"
    by (rule sum.cong) (auto simp: addLoad_def)
  also have "the (addLoad k m k) + \<dots> = (\<Sum>s\<in>dom m. the (m s)) + 1"
  proof (cases "m k")
    case None
    then have "dom m - {k} = dom m" by auto
    with None show ?thesis by (simp add: addLoad_def)
  qed (use assms in \<open>simp add: addLoad_def sum.remove[of "dom m" k] domI\<close>)
  finally show ?thesis .
qed

text \<open>The loop keeps the counters of statuses up to date, the local one included.\<close>

definition loopOk :: "nat \<Rightarrow> int \<times> Result \<Rightarrow> bool" where
  "loopOk n st \<longleftrightarrow> (case st of (complished, res) \<Rightarrow>
     resultOk (res\<lparr>allComplished := allComplished res + complished, WorkLoad := WorkLoad res + int n\<rparr>))"

lemma receiptStep_ok:
  assumes "receiptStep (k, v) (complished, res) = Inr st" "loopOk n (complished, res)"
  shows "loopOk (Suc n) st"
proof -
  have k: "unat k < length (AllTXStatus res)"
    using assms(1) by (auto simp: receiptStep_def split: if_splits)
  note upd = length_filter_concat_update[OF k]
  have all: "length (concat ((AllTXStatus res)[unat k := AllTXStatus res ! unat k @ [x]])) =
      Suc (length (concat (AllTXStatus res)))" for x using upd[of "\<lambda>_. True"] by simp
  have distinct: "\<not> checkTXFinished RollbackSuccess" by (simp add: checkTXFinished_def status_defs)
  show ?thesis
    using assms k distinct
    by (auto simp: receiptStep_def loopOk_def resultOk_def statusCount_def Let_def upd all sum_addLoad
        finite_addLoad simp del: length_concat split: if_splits)
qed

lemma receiptSteps_ok:
  "go_fold receiptStep table st = Inr st' \<Longrightarrow> loopOk n st \<Longrightarrow> loopOk (n + length table) st'"
proof (induction table arbitrary: st n)
  case (Cons kv table)
  obtain k v where kv: "kv = (k, v)" by force
  obtain c res where st: "st = (c, res)" by force
  from Cons.prems(1) obtain st1 where "receiptStep kv st = Inr st1" "go_fold receiptStep table st1 = Inr st'"
    by (auto simp: go_bind_eq_Inr_iff)
  with Cons.IH[of st1 "Suc n"] receiptStep_ok Cons.prems(2) kv st show ?case by fastforce
qed simp

lemma SetTXReceiptV2_ok: "SetTXReceiptV2 table res = Inr res' \<Longrightarrow> resultOk res \<Longrightarrow> resultOk res'"
  using receiptSteps_ok[of table "(0, res)" _ 0]
  by (auto simp: SetTXReceiptV2_def go_bind_eq_Inr_iff loopOk_def)

section \<open>The order of the receipts does not matter\<close>

lemma receiptStep_commute:
  assumes "receiptStep kv st = Inr st1" "receiptStep kw st1 = Inr st2" "fst kv \<noteq> fst kw"
  shows "\<exists>st1'. receiptStep kw st = Inr st1' \<and> receiptStep kv st1' = Inr st2"
proof -
  obtain k v k' w c res where e: "kv = (k, v)" "kw = (k', w)" "st = (c, res)" by (metis prod.collapse)
  have ne: "unat k \<noteq> unat k'" using assms(3) e by (simp add: word_unat_eq_iff)
  have load: "addLoad a (addLoad b m) = addLoad b (addLoad a m)" for a b m
    by (auto simp: addLoad_def fun_eq_iff split: option.splits)
  show ?thesis using assms(1,2) ne e
    by (auto simp: receiptStep_def Let_def list_update_swap[OF ne] load not_le split: if_splits)
qed

lemma go_fold_move:
  assumes "\<And>y s s1 s2. y \<in> set us \<Longrightarrow> f x s = Inr s1 \<Longrightarrow> f y s1 = Inr s2 \<Longrightarrow>
      \<exists>s1'. f y s = Inr s1' \<and> f x s1' = Inr s2"
  shows "go_fold f (x # us @ vs) s = Inr r \<Longrightarrow> go_fold f (us @ x # vs) s = Inr r"
  using assms
proof (induction us arbitrary: s)
  case (Cons y us)
  from Cons.prems(1) obtain s1 s2 where s: "f x s = Inr s1" "f y s1 = Inr s2" "go_fold f (us @ vs) s2 = Inr r"
    by (auto simp: go_bind_eq_Inr_iff)
  with Cons.prems(2)[of y s s1 s2] obtain s1' where t: "f y s = Inr s1'" "f x s1' = Inr s2" by auto
  with s(3) have "go_fold f (x # us @ vs) s1' = Inr r" by simp
  with Cons.IH[OF this] Cons.prems(2) t(1) show ?case by simp
qed simp

lemma go_fold_perm:
  assumes "\<And>x y s s1 s2. x \<in> set xs \<Longrightarrow> y \<in> set xs \<Longrightarrow> x \<noteq> y \<Longrightarrow> f x s = Inr s1 \<Longrightarrow> f y s1 = Inr s2 \<Longrightarrow>
      \<exists>s1'. f y s = Inr s1' \<and> f x s1' = Inr s2"
    and "mset xs = mset ys" "distinct xs" "go_fold f xs s = Inr r"
  shows "go_fold f ys s = Inr r"
  using assms
proof (induction xs arbitrary: ys s)
  case (Cons x xs)
  from Cons.prems(2) have "x \<in> set ys" by (metis list.set_intros(1) set_mset_mset)
  then obtain us vs where ys: "ys = us @ x # vs" by (metis split_list)
  from Cons.prems(4) obtain s1 where s1: "f x s = Inr s1" "go_fold f xs s1 = Inr r" by (auto simp: go_bind_eq_Inr_iff)
  have perm: "mset xs = mset (us @ vs)" using Cons.prems(2) ys by simp
  then have sub: "set us \<subseteq> set xs" by (metis Un_upper1 set_append set_mset_mset)
  have "go_fold f (us @ vs) s1 = Inr r"
    using Cons.IH[OF _ perm _ s1(2)] Cons.prems(1,3) by (meson distinct.simps(2) list.set_intros(2))
  then have "go_fold f (x # us @ vs) s = Inr r" using s1 by simp
  moreover have "x \<notin> set xs" using Cons.prems(3) by simp
  moreover have "\<exists>t'. f y t = Inr t' \<and> f x t' = Inr t2"
    if "y \<in> set us" "f x t = Inr t1" "f y t1 = Inr t2" for y t t1 t2
    using Cons.prems(1)[of x y t t1 t2] that sub \<open>x \<notin> set xs\<close> by auto
  ultimately show ?case unfolding ys by (intro go_fold_move)
qed simp

section \<open>When the statistics are reported\<close>

definition latencyOf :: "Result \<Rightarrow> nat \<Rightarrow> u64" where
  "latencyOf res i = ConfirmMap res ! i - BroadcastMap res ! i"

definition statsInv :: "Result \<Rightarrow> nat \<Rightarrow> LatencyStats \<Rightarrow> bool" where
  "statsInv res n st \<longleftrightarrow>
    (max_latency_id st = None \<longrightarrow> max_latency st = 0) \<and> (min_latency_id st = None \<longrightarrow> min_latency st = 100000) \<and>
    (\<forall>i. max_latency_id st = Some i \<or> min_latency_id st = Some i \<longrightarrow> i < n) \<and>
    (max_latency_id st \<noteq> None \<longleftrightarrow> (\<exists>i<n. ConfirmMap res ! i \<noteq> 0 \<and> 0 < latencyOf res i)) \<and>
    (min_latency_id st \<noteq> None \<longleftrightarrow> (\<exists>i<n. ConfirmMap res ! i \<noteq> 0 \<and> latencyOf res i < 100000))"

lemma latencyStep_inv:
  assumes "statsInv res n st" shows "statsInv res (Suc n) (latencyStep res n st)"
proof (cases "ConfirmMap res ! n = 0")
  case True
  with assms show ?thesis by (auto simp: statsInv_def latencyStep_def less_Suc_eq)
next
  case False
  define l where "l = latencyOf res n"
  have s: "max_latency_id (latencyStep res n st) = (if l > max_latency st then Some n else max_latency_id st)"
    "max_latency (latencyStep res n st) = (if l > max_latency st then l else max_latency st)"
    "min_latency_id (latencyStep res n st) = (if l < min_latency st then Some n else min_latency_id st)"
    "min_latency (latencyStep res n st) = (if l < min_latency st then l else min_latency st)"
    using False by (simp_all add: latencyStep_def l_def latencyOf_def Let_def)
  have inv: "max_latency_id st = None \<Longrightarrow> max_latency st = 0" "min_latency_id st = None \<Longrightarrow> min_latency st = 100000"
    "max_latency_id st \<noteq> None \<longleftrightarrow> (\<exists>i<n. ConfirmMap res ! i \<noteq> 0 \<and> 0 < latencyOf res i)"
    "min_latency_id st \<noteq> None \<longleftrightarrow> (\<exists>i<n. ConfirmMap res ! i \<noteq> 0 \<and> latencyOf res i < 100000)"
    using assms unfolding statsInv_def by blast+
  have "\<forall>i. max_latency_id (latencyStep res n st) = Some i \<or> min_latency_id (latencyStep res n st) = Some i \<longrightarrow> i < Suc n"
    using assms unfolding s statsInv_def by (auto intro: less_SucI)
  moreover have "max_latency_id (latencyStep res n st) \<noteq> None \<longleftrightarrow> max_latency_id st \<noteq> None \<or> 0 < l"
    using inv(1) by (cases "max_latency_id st") (auto simp: s)
  moreover have "min_latency_id (latencyStep res n st) \<noteq> None \<longleftrightarrow> min_latency_id st \<noteq> None \<or> l < 100000"
    using inv(2) by (cases "min_latency_id st") (auto simp: s)
  moreover have "max_latency_id (latencyStep res n st) = None \<Longrightarrow> max_latency (latencyStep res n st) = 0"
    "min_latency_id (latencyStep res n st) = None \<Longrightarrow> min_latency (latencyStep res n st) = 100000"
    using inv(1,2) by (simp_all add: s split: if_splits)
  ultimately show ?thesis using False inv(3,4) unfolding statsInv_def less_Suc_eq l_def by blast
qed

lemma latencyStats_inv:
  assumes "length (ConfirmMap res) = nat (Totalnum res)" "length (BroadcastMap res) = nat (Totalnum res)"
  shows "\<exists>st. latencyStats res = Inr st \<and> statsInv res (nat (Totalnum res)) st"
proof -
  have "\<exists>st. go_fold (\<lambda>i st. if length (ConfirmMap res) \<le> i \<or> ConfirmMap res ! i \<noteq> 0 \<and> length (BroadcastMap res) \<le> i
      then Inl (Panic ''index out of range'') else Inr (latencyStep res i st)) [0..<n] (latencyStart res) = Inr st \<and>
    statsInv res n st" if "n \<le> nat (Totalnum res)" for n
    using that
  proof (induction n)
    case 0
    show ?case by (simp add: statsInv_def latencyStart_def)
  next
    case (Suc n)
    with latencyStep_inv[of res n] assms show ?case by (auto simp: go_fold_append)
  qed
  then show ?thesis by (simp add: latencyStats_def)
qed

section \<open>Properties\<close>

text \<open>
  C38. The counters agree with the recorded statuses. However the receipts arrive, in any number of tables,
  the number of finished transactions, of rollbacks and the load are those of the statuses
  recorded for the transactions, and the load is the sum of the loads of the shards.
\<close>

theorem result_counters:
  assumes "SetTotalTXNum totalnum NewResult = Inr res0" "go_fold SetTXReceiptV2 tables res0 = Inr res"
  shows "allComplished res = int (length (filter checkTXFinished (concat (AllTXStatus res)))) \<and>
    allRollBack res = int (length (filter (\<lambda>s. s = RollbackSuccess) (concat (AllTXStatus res)))) \<and>
    WorkLoad res = int (length (concat (AllTXStatus res))) \<and>
    WorkLoad res = (\<Sum>s\<in>dom (workload4shard res). the (workload4shard res s))"
proof -
  have "resultOk res0"
    using assms(1) by (auto simp: SetTotalTXNum_def NewResult_def resultOk_def statusCount_def split: if_splits)
  with go_fold_invariant[OF assms(2), of resultOk] SetTXReceiptV2_ok have "resultOk res" by blast
  then show ?thesis by (simp add: resultOk_def statusCount_def)
qed

definition sampleReceipt :: "u64 \<Rightarrow> u64 \<Rightarrow> TXReceipt" where
  "sampleReceipt i status = \<lparr>rTxID = i, rConfirmTimeStamp = 9, rTxStatus = status, rShardID = 0, rBlockHeight = 1\<rparr>"

lemma replicate_two: "replicate 2 x = [x, x]"
  by (simp add: numeral_2_eq_2)

lemmas sampleResult_simps = replicate_two SetTotalTXNum_def NewResult_def SetTXReceiptV2_def receiptStep_def sampleReceipt_def
  checkTXFinished_def status_defs addLoad_def Let_def

theorem result_counters_witness:
  "\<exists>res0 res. SetTotalTXNum 2 NewResult = Inr res0 \<and>
    go_fold SetTXReceiptV2 [[(0, sampleReceipt 0 1)], [(1, sampleReceipt 1 2)], [(1, sampleReceipt 1 4)]] res0 = Inr res \<and>
    AllTXStatus res = [[1], [2, 4]] \<and> allComplished res = 1 \<and> allRollBack res = 1 \<and> WorkLoad res = 3"
proof -
  have "\<exists>res0 res. SetTotalTXNum 2 NewResult = Inr res0 \<and>
      go_fold SetTXReceiptV2 [[(0, sampleReceipt 0 1)], [(1, sampleReceipt 1 2)], [(1, sampleReceipt 1 4)]] res0 = Inr res \<and>
      AllTXStatus res = [[1], [2, 4]]"
    by (simp add: sampleResult_simps)
  then obtain res0 res where r: "SetTotalTXNum 2 NewResult = Inr res0"
    "go_fold SetTXReceiptV2 [[(0, sampleReceipt 0 1)], [(1, sampleReceipt 1 2)], [(1, sampleReceipt 1 4)]] res0 = Inr res"
    "AllTXStatus res = [[1], [2, 4]]"
    by blast
  from result_counters[OF r(1,2)] r show ?thesis by (auto simp: checkTXFinished_def status_defs)
qed

text \<open>
  C39. The order in which Go iterates over a table of receipts does not matter: whenever one order
  succeeds, every order succeeds with the same result.
\<close>

theorem receipts_order_independent:
  assumes "distinct (map fst table)" "mset table = mset table'" "SetTXReceiptV2 table res = Inr res'"
  shows "SetTXReceiptV2 table' res = Inr res'"
proof -
  from assms(3) obtain st where st: "go_fold receiptStep table (0, res) = Inr st"
    by (auto simp: SetTXReceiptV2_def go_bind_eq_Inr_iff)
  have "go_fold receiptStep table' (0, res) = Inr st"
  proof (rule go_fold_perm[OF _ assms(2) _ st])
    fix x y s s1 s2
    assume "x \<in> set table" "y \<in> set table" "x \<noteq> y" "receiptStep x s = Inr s1" "receiptStep y s1 = Inr s2"
    then show "\<exists>s1'. receiptStep y s = Inr s1' \<and> receiptStep x s1' = Inr s2"
      using receiptStep_commute assms(1) by (metis distinct_map inj_onD)
  qed (use assms(1) in \<open>simp add: distinct_map\<close>)
  moreover have "length table' = length table" using assms(2) by (metis mset_eq_length)
  ultimately show ?thesis using assms(3) st by (simp add: SetTXReceiptV2_def)
qed

theorem receipts_order_independent_witness:
  "\<exists>res0 res. SetTotalTXNum 2 NewResult = Inr res0 \<and>
    SetTXReceiptV2 [(0, sampleReceipt 0 1), (1, sampleReceipt 1 2)] res0 = Inr res \<and>
    SetTXReceiptV2 [(1, sampleReceipt 1 2), (0, sampleReceipt 0 1)] res0 = Inr res"
proof -
  have "\<exists>res0 res. SetTotalTXNum 2 NewResult = Inr res0 \<and>
      SetTXReceiptV2 [(0, sampleReceipt 0 1), (1, sampleReceipt 1 2)] res0 = Inr res"
    by (simp add: sampleResult_simps)
  then obtain res0 res where r: "SetTotalTXNum 2 NewResult = Inr res0"
    "SetTXReceiptV2 [(0, sampleReceipt 0 1), (1, sampleReceipt 1 2)] res0 = Inr res"
    by blast
  from receipts_order_independent[OF _ _ r(2), of "[(1, sampleReceipt 1 2), (0, sampleReceipt 0 1)]"] r
  show ?thesis by (auto simp: add_mset_commute)
qed

text \<open>
  C40. With one entry per transaction in the three slices, as \<^verbatim>\<open>SetTotalTXNum\<close> makes them, the statistics
  are reported exactly when some executed transaction took longer than 0 and some took less than
  100000 seconds; otherwise the index -1 of the slowest or of the fastest transaction ends the process.
\<close>

theorem latency_reported_iff:
  assumes "0 < Totalnum res" "length (BroadcastMap res) = nat (Totalnum res)"
    "length (ConfirmMap res) = nat (Totalnum res)" "length (AllTXStatus res) = nat (Totalnum res)"
  shows "(\<exists>r. GetThroughtPutAndLatencyV2 res = Inr r) \<longleftrightarrow>
    (\<exists>i<nat (Totalnum res). ConfirmMap res ! i \<noteq> 0 \<and> 0 < ConfirmMap res ! i - BroadcastMap res ! i) \<and>
    (\<exists>i<nat (Totalnum res). ConfirmMap res ! i \<noteq> 0 \<and> ConfirmMap res ! i - BroadcastMap res ! i < 100000)"
proof -
  obtain b bs where b: "BroadcastMap res = b # bs" using assms(1,2) by (cases "BroadcastMap res") auto
  obtain st where st: "latencyStats res = Inr st" "statsInv res (nat (Totalnum res)) st"
    using latencyStats_inv[OF assms(3,2)] by blast
  then have "(\<exists>r. GetThroughtPutAndLatencyV2 res = Inr r) \<longleftrightarrow> max_latency_id st \<noteq> None \<and> min_latency_id st \<noteq> None"
    using assms(1,4) b by (auto simp: GetThroughtPutAndLatencyV2_def statsInv_def Let_def split: option.splits)
  with st(2) show ?thesis by (simp only: statsInv_def latencyOf_def)
qed

theorem latency_reported_iff_witness:
  "\<exists>res0 res. SetTotalTXNum 1 NewResult = Inr res0 \<and> SetTXReceiptV2 [(0, sampleReceipt 0 1)] (res0\<lparr>BroadcastMap := [9]\<rparr>) = Inr res \<and>
    \<not> (\<exists>r. GetThroughtPutAndLatencyV2 res = Inr r)"
proof -
  have "\<exists>res0 res. SetTotalTXNum 1 NewResult = Inr res0 \<and>
      SetTXReceiptV2 [(0, sampleReceipt 0 1)] (res0\<lparr>BroadcastMap := [9]\<rparr>) = Inr res \<and>
      Totalnum res = 1 \<and>
      BroadcastMap res = [9] \<and>
      ConfirmMap res = [9] \<and> length (AllTXStatus res) = 1"
    by (simp add: sampleResult_simps)
  then obtain res0 res where r: "SetTotalTXNum 1 NewResult = Inr res0"
    "SetTXReceiptV2 [(0, sampleReceipt 0 1)] (res0\<lparr>BroadcastMap := [9]\<rparr>) = Inr res"
    "Totalnum res = 1" "BroadcastMap res = [9]" "ConfirmMap res = [9]" "length (AllTXStatus res) = 1"
    by blast
  with latency_reported_iff[of res] show ?thesis by (intro exI[of _ res0] exI[of _ res]) simp
qed

end
