(* ===== verification/Client.thy ===== *)
theory Client
  imports Beacon_Chain Result "HOL-Library.AList"
begin

text \<open>
  \<^verbatim>\<open>src/client/\<close>: the client injects transactions into the committees, follows the beacons, and drives
  every cross-shard transaction to its second half or to its rollback.

  A \<^verbatim>\<open>*core.Transaction\<close> of the client is the index of the transaction in \<^verbatim>\<open>txs\<close>, so that what is
  written through one pointer is seen through the other. Maps over which the code iterates are
  association lists. The variable \<^verbatim>\<open>resBroadcastMap\<close> belongs to the goroutine of \<^verbatim>\<open>InjectTXs\<close>; it is a
  field of the client here. This theory has the functions of the client, each run on its own;
  how the goroutines of the client interleave is in \<^verbatim>\<open>Client_Run\<close>.
\<close>

section \<open>State\<close>

record Client =
  exitMode :: int
  cid :: int
  rollbackHeight :: int
  shard_num :: nat
  txs :: "Transaction list"
  txs_map :: "u64 \<rightharpoonup> nat"
  injectCnt :: int
  InjectDoneMsgSent :: bool
  tx_reply :: "TXReceipt list"
  cross1_confirm_height_map :: "(u64 \<times> u64) list"
  cross2_txs :: "Transaction list"
  cross_tx_expired :: "u64 list"
  clTbs :: "u32 \<rightharpoonup> (u64 \<rightharpoonup> ConfirmedTB option)"
  shard_cur_heights :: "u32 \<rightharpoonup> u64"
  clTbchain_height :: u64
  injectSpeed :: int
  resBroadcastMap :: "(u64 \<times> u64) list"

datatype clientOut = InjectTX u32 "Transaction list" | SetInjectDone u32

definition NewClient :: "int \<Rightarrow> int \<Rightarrow> nat \<Rightarrow> int \<Rightarrow> Client" where
  "NewClient i rollback shardNum mode =
    \<lparr>exitMode = mode, cid = i, rollbackHeight = rollback, shard_num = shardNum, txs = [], txs_map = Map.empty,
     injectCnt = 0, InjectDoneMsgSent = False, tx_reply = [], cross1_confirm_height_map = [], cross2_txs = [],
     cross_tx_expired = [],
     clTbs = (\<lambda>s. if unat s < shardNum then Some Map.empty else None),
     shard_cur_heights = (\<lambda>s. if unat s < shardNum then Some 0 else None),
     clTbchain_height = 0, injectSpeed = 0, resBroadcastMap = []\<rparr>"

definition clientStart :: "int \<Rightarrow> Client \<Rightarrow> Client" where
  "clientStart speed c = c\<lparr>injectSpeed := speed\<rparr>"

text \<open>The zero value of a missing key.\<close>

definition curHeight :: "u32 \<Rightarrow> Client \<Rightarrow> u64" where
  "curHeight sid c = (case shard_cur_heights c sid of None \<Rightarrow> 0 | Some h \<Rightarrow> h)"

definition tbKnown :: "u32 \<Rightarrow> u64 \<Rightarrow> Client \<Rightarrow> ConfirmedTB option option" where
  "tbKnown sid height c = (case clTbs c sid of None \<Rightarrow> None | Some m \<Rightarrow> m height)"

section \<open>Receiving\<close>

definition Addtxs :: "Transaction list \<Rightarrow> Client \<Rightarrow> Client" where
  "Addtxs new c =
    (let all = txs c @ map (\<lambda>tx. tx\<lparr>RollbackHeight := word_of_int (rollbackHeight c)\<rparr>) new
     in c\<lparr>txs := all, txs_map := fold (\<lambda>i m. m(ID (all ! i) \<mapsto> i)) [0..<length all] (txs_map c)\<rparr>)"

definition AddTXReceipts :: "TXReceipt list \<Rightarrow> Client \<Rightarrow> Client" where
  "AddTXReceipts receipts c = c\<lparr>tx_reply := tx_reply c @ receipts\<rparr>"

text \<open>\<^verbatim>\<open>getTB\<close> is the query to the beacon chain; it may find no beacon, and the nil is stored.\<close>

definition GetTB :: "(u32 \<Rightarrow> u64 \<Rightarrow> ConfirmedTB option) \<Rightarrow> u32 \<Rightarrow> u64 \<Rightarrow> Client \<Rightarrow>
   (ConfirmedTB option \<times> Client) go" where
  "GetTB getTB sid height c =
    (case tbKnown sid height c of Some tb \<Rightarrow> Inr (tb, c)
     | None \<Rightarrow> (case clTbs c sid of None \<Rightarrow> Inl (Panic ''assignment to entry in nil map'')
       | Some m \<Rightarrow> let tb1 = getTB sid height
           in Inr (tb1, c\<lparr>clTbs := (clTbs c)(sid \<mapsto> m(height \<mapsto> tb1))\<rparr>)))"

definition maxHeight :: "u64 \<Rightarrow> u64 \<Rightarrow> u64" where
  "maxHeight a b = word_of_int (max (sint a) (sint b))"

definition addTB :: "u32 \<Rightarrow> ConfirmedTB \<Rightarrow> Client \<Rightarrow> Client go" where
  "addTB sid tb c =
    (case clTbs c sid of None \<Rightarrow> Inl (Panic ''assignment to entry in nil map'')
     | Some m \<Rightarrow> let h = tbHeight (ctbTimeBeacon tb) in
         Inr (c\<lparr>clTbs := (clTbs c)(sid \<mapsto> m(h \<mapsto> Some tb)),
                shard_cur_heights := (shard_cur_heights c)(sid \<mapsto> maxHeight (curHeight sid c) h)\<rparr>))"

definition addShardTBs :: "nat \<times> ConfirmedTB list \<Rightarrow> Client \<Rightarrow> Client go" where
  "addShardTBs entry c = go_fold (addTB (word_of_nat (fst entry))) (snd entry) c"

text \<open>
  One receipt whose beacon is known. The state is the table \<^verbatim>\<open>to_record\<close> and the client.
\<close>

definition cross2Of :: "Client \<Rightarrow> Transaction \<Rightarrow> Transaction" where
  "cross2Of c tx = tx\<lparr>TXtype := CrossTXType2, TXStatus := DefaultStatus, ConfirmHeight := clTbchain_height c,
     Cross1ConfirmHeight := curHeight (Recipient_sid tx) c\<rparr>"

definition handleReceipt ::
  "TXReceipt \<Rightarrow> (u64 \<times> TXReceipt) list \<times> Client \<Rightarrow> ((u64 \<times> TXReceipt) list \<times> Client) go" where
  "handleReceipt r st =
    (case st of (to_record, c) \<Rightarrow> let to_record' = AList.update (rTxID r) r to_record in
     if rTxStatus r = IntraSuccess then Inr (to_record', c)
     else if rTxStatus r = CrossTXType1Success then
       (case txs_map c (rTxID r) of None \<Rightarrow> Inl (Panic ''nil pointer dereference'')
        | Some i \<Rightarrow> let tx = txs c ! i in
            Inr (to_record', c\<lparr>cross2_txs := cross2_txs c @ [cross2Of c tx],
              cross1_confirm_height_map := AList.update (rTxID r) (curHeight (Recipient_sid tx) c)
                (cross1_confirm_height_map c)\<rparr>))
     else if rTxStatus r = CrossTXType2Success then
       if map_of (cross1_confirm_height_map c) (rTxID r) = None
       then Inl (Exit ''tx should be in c.cross1_confirm_height_map, but actually not in.'')
       else Inr (to_record', c\<lparr>cross1_confirm_height_map := AList.delete (rTxID r) (cross1_confirm_height_map c)\<rparr>)
     else Inr (to_record', c))"

text \<open>The list is walked once; a receipt whose beacon is not confirmed yet stays in it.\<close>

fun receiptLoop ::
  "TXReceipt list \<Rightarrow> (u64 \<times> TXReceipt) list \<times> Client \<Rightarrow>
   (TXReceipt list \<times> (u64 \<times> TXReceipt) list \<times> Client) go" where
  "receiptLoop [] st = Inr ([], st)"
| "receiptLoop (r # rs) st =
    (case tbKnown (word_of_int (rShardID r)) (rBlockHeight r) (snd st) of
       None \<Rightarrow> go_bind (receiptLoop rs st) (\<lambda>(keep, st'). Inr (r # keep, st'))
     | Some None \<Rightarrow> Inl (Panic ''nil pointer dereference'')
     | Some (Some tb) \<Rightarrow> go_bind (handleReceipt (r\<lparr>rConfirmTimeStamp := ctbConfirmTime tb\<rparr>) st) (receiptLoop rs))"

definition processTXReceipts :: "Client \<times> Result \<Rightarrow> (Client \<times> Result) go" where
  "processTXReceipts st =
    (case st of (c, res) \<Rightarrow>
     go_bind (receiptLoop (tx_reply c) ([], c)) (\<lambda>(keep, to_record, c').
     go_bind (SetTXReceiptV2 to_record res) (\<lambda>res'.
     Inr (c'\<lparr>tx_reply := keep\<rparr>, res'))))"

definition expiredAt :: "Client \<Rightarrow> Transaction \<Rightarrow> u64 \<Rightarrow> bool" where
  "expiredAt c tx confirmHeight \<longleftrightarrow> curHeight (Recipient_sid tx) c > confirmHeight + RollbackHeight tx"

fun expireLoop :: "Client \<Rightarrow> (u64 \<times> u64) list \<Rightarrow> (u64 list \<times> (u64 \<times> u64) list) go" where
  "expireLoop c [] = Inr ([], [])"
| "expireLoop c ((txid, confirmHeight) # es) =
    (case txs_map c txid of None \<Rightarrow> Inl (Panic ''nil pointer dereference'')
     | Some i \<Rightarrow> go_bind (expireLoop c es) (\<lambda>(expired, keep).
         if expiredAt c (txs c ! i) confirmHeight then Inr (txid # expired, keep)
         else Inr (expired, (txid, confirmHeight) # keep)))"

text \<open>
  The two critical sections of \<^verbatim>\<open>checkExpiredTXs\<close>: between them the expired transactions are only in a
  local variable.
\<close>

definition expireScan :: "Client \<Rightarrow> (u64 list \<times> Client) go" where
  "expireScan c =
    go_bind (expireLoop c (cross1_confirm_height_map c)) (\<lambda>(expired, keep).
    Inr (expired, c\<lparr>cross1_confirm_height_map := keep\<rparr>))"

definition expireQueue :: "u64 list \<Rightarrow> Client \<Rightarrow> Client" where
  "expireQueue expired c = c\<lparr>cross_tx_expired := cross_tx_expired c @ expired\<rparr>"

definition checkExpiredTXs :: "Client \<Rightarrow> Client go" where
  "checkExpiredTXs c = go_bind (expireScan c) (\<lambda>(expired, c'). Inr (expireQueue expired c'))"

text \<open>The first part of \<^verbatim>\<open>AddTBs\<close>, which takes no lock, and the whole handler.\<close>

definition storeTBs :: "TBBlock \<Rightarrow> Client \<Rightarrow> Client go" where
  "storeTBs tbblock c =
    go_bind (go_fold addShardTBs (enumerate 0 (tbbTbs tbblock)) c) (\<lambda>c'.
    Inr (c'\<lparr>clTbchain_height := tbbHeight tbblock\<rparr>))"

definition clientAddTBs :: "TBBlock \<Rightarrow> Client \<times> Result \<Rightarrow> (Client \<times> Result) go" where
  "clientAddTBs tbblock st =
    (case st of (c, res) \<Rightarrow>
     go_bind (storeTBs tbblock c) (\<lambda>c1.
     go_bind (processTXReceipts (c1, res)) (\<lambda>(c2, res').
     go_bind (checkExpiredTXs c2) (\<lambda>c3. Inr (c3, res')))))"

section \<open>Sending\<close>

definition CanStopV1 :: "Client \<Rightarrow> bool" where
  "CanStopV1 c \<longleftrightarrow> int (length (txs c)) = injectCnt c \<and> tx_reply c = [] \<and> cross_tx_expired c = [] \<and>
     cross2_txs c = [] \<and> cross1_confirm_height_map c = []"

definition CanStopV2 :: "Client \<Rightarrow> bool" where
  "CanStopV2 c \<longleftrightarrow> injectCnt c = int (length (txs c))"

definition putTx :: "u32 \<Rightarrow> Transaction \<Rightarrow> Transaction list list \<Rightarrow> Transaction list list go" where
  "putTx sid tx shardtxs =
    (if length shardtxs \<le> unat sid then Inl (Panic ''index out of range'')
     else Inr (shardtxs[unat sid := shardtxs ! unat sid @ [tx]]))"

definition injectAll :: "Transaction list list \<Rightarrow> clientOut list" where
  "injectAll shardtxs = map (\<lambda>i. InjectTX (word_of_nat i) (shardtxs ! i)) [0..<length shardtxs]"

definition rollbackOf :: "Transaction \<Rightarrow> Transaction" where
  "rollbackOf tx = tx\<lparr>TXtype := RollbackTXType, TXStatus := DefaultStatus\<rparr>"

definition putRollback :: "Client \<Rightarrow> u64 \<Rightarrow> Transaction list list \<Rightarrow> Transaction list list go" where
  "putRollback c txid shardtxs =
    (case txs_map c txid of None \<Rightarrow> Inl (Panic ''nil pointer dereference'')
     | Some i \<Rightarrow> let tx = rollbackOf (txs c ! i) in putTx (Sender_sid tx) tx shardtxs)"

definition sendRollbackTxs :: "int \<Rightarrow> Client \<Rightarrow> (int \<times> clientOut list \<times> Client) go" where
  "sendRollbackTxs maxTxNum2Pack c =
    (let cnt = min maxTxNum2Pack (int (length (cross_tx_expired c)))
     in if cnt = 0 then Inr (0, [], c)
        else if cnt < 0 then Inl (Panic ''slice bounds out of range'')
        else go_bind (go_fold (putRollback c) (take (nat cnt) (cross_tx_expired c)) (replicate (shard_num c) []))
               (\<lambda>shardtxs. Inr (cnt, injectAll shardtxs, c\<lparr>cross_tx_expired := drop (nat cnt) (cross_tx_expired c)\<rparr>)))"

definition sendCross2Txs :: "int \<Rightarrow> Client \<Rightarrow> (int \<times> clientOut list \<times> Client) go" where
  "sendCross2Txs maxTxNum2Pack c =
    (let cnt = min maxTxNum2Pack (int (length (cross2_txs c)))
     in if cnt = 0 then Inr (0, [], c)
        else if cnt < 0 then Inl (Panic ''slice bounds out of range'')
        else go_bind (go_fold (\<lambda>tx. putTx (Recipient_sid tx) tx) (take (nat cnt) (cross2_txs c))
                       (replicate (shard_num c) []))
               (\<lambda>shardtxs. Inr (cnt, injectAll shardtxs, c\<lparr>cross2_txs := drop (nat cnt) (cross2_txs c)\<rparr>)))"

text \<open>The transaction as \<^verbatim>\<open>sendPendingTxs\<close> fills it in.\<close>

definition prepareTx :: "int \<Rightarrow> u64 \<Rightarrow> Transaction \<Rightarrow> Transaction" where
  "prepareTx i now tx =
    tx\<lparr>TXtype := (if Sender_sid tx = Recipient_sid tx then IntraTXType else CrossTXType1),
       Timestamp := now, Cid := word_of_int i\<rparr>"

definition sendOne :: "u64 \<Rightarrow> int \<Rightarrow> Transaction list list \<times> Client \<Rightarrow> (Transaction list list \<times> Client) go" where
  "sendOne now i st =
    (case st of (shardtxs, c) \<Rightarrow>
     if i < 0 \<or> int (length (txs c)) \<le> i then Inl (Panic ''index out of range'')
     else let tx = prepareTx (cid c) now (txs c ! nat i)
          in go_bind (putTx (Sender_sid tx) tx shardtxs) (\<lambda>shardtxs'.
             Inr (shardtxs', c\<lparr>txs := (txs c)[nat i := tx],
                               resBroadcastMap := AList.update (ID tx) (Timestamp tx) (resBroadcastMap c)\<rparr>)))"

text \<open>Go's division rounds towards zero; a negative capacity is a run-time error.\<close>

definition badCapacity :: "int \<Rightarrow> Client \<Rightarrow> bool" where
  "badCapacity n c \<longleftrightarrow> 0 < shard_num c \<and> sgn n * ((\<bar>n\<bar> * 2) div int (shard_num c)) + 1 < 0"

definition sendPendingTxs :: "u64 \<Rightarrow> int \<Rightarrow> int \<Rightarrow> Client \<Rightarrow> (int \<times> clientOut list \<times> Client) go" where
  "sendPendingTxs now cnt maxTxNum2Pack c =
    (if maxTxNum2Pack = 0 then Inr (cnt, [], c)
     else let upperBound = min (cnt + maxTxNum2Pack) (int (length (txs c)))
          in if badCapacity maxTxNum2Pack c then Inl (Panic ''makeslice: cap out of range'')
             else go_bind (go_fold (sendOne now) [cnt..upperBound - 1] (replicate (shard_num c) [], c))
                    (\<lambda>(shardtxs, c'). Inr (upperBound, injectAll shardtxs, c')))"

definition injectStart :: "Client \<Rightarrow> Client" where
  "injectStart c = c\<lparr>injectCnt := 0, resBroadcastMap := [], InjectDoneMsgSent := False\<rparr>"

text \<open>The three queues in the order in which an iteration serves them.\<close>

definition sendQueues :: "u64 \<Rightarrow> Client \<Rightarrow> (clientOut list \<times> Client) go" where
  "sendQueues now c =
    go_bind (sendRollbackTxs (injectSpeed c) c) (\<lambda>(rollbackTxSentCnt, out1, c1).
    go_bind (sendCross2Txs (injectSpeed c - rollbackTxSentCnt) c1) (\<lambda>(cross2TxSentCnt, out2, c2).
    go_bind (sendPendingTxs now (injectCnt c2) (injectSpeed c - rollbackTxSentCnt - cross2TxSentCnt) c2)
      (\<lambda>(cnt, out3, c3). Inr (out1 @ out2 @ out3, c3\<lparr>injectCnt := cnt\<rparr>))))"

section \<open>Routing\<close>

text \<open>What a list of messages sends to one committee, in order.\<close>

definition sentTo :: "nat \<Rightarrow> clientOut list \<Rightarrow> Transaction list" where
  "sentTo i outs = concat (map (\<lambda>out. case out of InjectTX s ts \<Rightarrow> if unat s = i then ts else [] | _ \<Rightarrow> []) outs)"

lemma sentTo_append [simp]: "sentTo i (xs @ ys) = sentTo i xs @ sentTo i ys"
  by (simp add: sentTo_def)

lemma sentTo_Nil [simp]: "sentTo i [] = []"
  by (simp add: sentTo_def)

lemma sentTo_injectAll:
  assumes "length shardtxs \<le> 2 ^ 32"
  shows "sentTo i (injectAll shardtxs) = (if i < length shardtxs then shardtxs ! i else [])"
proof -
  have "concat (map (\<lambda>k. if unat (word_of_nat k :: u32) = i then shardtxs ! k else []) [0..<n]) =
      (if i < n then shardtxs ! i else [])" if "n \<le> length shardtxs" for n
    using that
  proof (induction n)
    case (Suc n)
    have "unat (word_of_nat n :: u32) = n" using Suc.prems assms by (subst unat_of_nat) simp
    with Suc show ?case by (auto simp: less_Suc_eq)
  qed simp
  from this[of "length shardtxs"] show ?thesis
    by (simp add: sentTo_def injectAll_def comp_def)
qed

lemma putTx_fold:
  assumes "go_fold (\<lambda>tx. putTx (route tx) tx) ts acc = Inr acc'"
  shows "length acc' = length acc \<and> (\<forall>tx\<in>set ts. unat (route tx) < length acc) \<and>
    (\<forall>i<length acc. acc' ! i = acc ! i @ filter (\<lambda>tx. unat (route tx) = i) ts)"
  using assms
proof (induction ts arbitrary: acc)
  case (Cons tx ts)
  then obtain acc1 where "putTx (route tx) tx acc = Inr acc1"
    "go_fold (\<lambda>tx. putTx (route tx) tx) ts acc1 = Inr acc'" by (auto simp: go_bind_eq_Inr_iff)
  moreover from this(1) have "unat (route tx) < length acc"
    "acc1 = acc[unat (route tx) := acc ! unat (route tx) @ [tx]]"
    by (auto simp: putTx_def split: if_splits)
  ultimately show ?case using Cons.IH[of acc1] by (auto simp: nth_list_update)
qed simp

lemma putTx_sentTo:
  assumes "go_fold (\<lambda>tx. putTx (route tx) tx) ts (replicate n []) = Inr acc" "n \<le> 2 ^ 32"
  shows "sentTo i (injectAll acc) = filter (\<lambda>tx. unat (route tx) = i) ts \<and> length acc = n"
proof -
  note f = putTx_fold[OF assms(1)]
  show ?thesis
  proof (cases "i < n")
    case False
    with f have "filter (\<lambda>tx. unat (route tx) = i) ts = []" by (auto simp: filter_empty_conv)
    with False f assms(2) show ?thesis by (simp add: sentTo_injectAll)
  qed (use f assms(2) in \<open>simp add: sentTo_injectAll\<close>)
qed

text \<open>The transaction behind an identifier.\<close>

definition txOf :: "Client \<Rightarrow> u64 \<Rightarrow> Transaction" where
  "txOf c txid = txs c ! the (txs_map c txid)"

lemma putRollback_fold:
  assumes "go_fold (putRollback c) ids acc = Inr acc'"
  shows "go_fold (\<lambda>tx. putTx (Sender_sid tx) tx) (map (rollbackOf \<circ> txOf c) ids) acc = Inr acc' \<and>
    (\<forall>txid\<in>set ids. txs_map c txid \<noteq> None)"
  using assms
proof (induction ids arbitrary: acc)
  case (Cons txid ids)
  then obtain acc1 where "putRollback c txid acc = Inr acc1" "go_fold (putRollback c) ids acc1 = Inr acc'"
    by (auto simp: go_bind_eq_Inr_iff)
  moreover from this(1) have "txs_map c txid \<noteq> None"
    "putTx (Sender_sid (rollbackOf (txOf c txid))) (rollbackOf (txOf c txid)) acc = Inr acc1"
    by (auto simp: putRollback_def Let_def txOf_def split: option.splits)
  ultimately show ?case using Cons.IH[of acc1] by simp
qed simp

lemma sendRollbackTxs_spec:
  assumes "sendRollbackTxs m c = Inr (cnt, outs, c')" "shard_num c \<le> 2 ^ 32" "0 \<le> m"
  shows "cnt = min m (int (length (cross_tx_expired c)))"
    "c' = c\<lparr>cross_tx_expired := drop (nat cnt) (cross_tx_expired c)\<rparr>"
    "\<And>i. sentTo i outs = filter (\<lambda>tx. unat (Sender_sid tx) = i)
       (map (rollbackOf \<circ> txOf c) (take (nat cnt) (cross_tx_expired c)))"
    "\<forall>txid\<in>set (take (nat cnt) (cross_tx_expired c)). txs_map c txid \<noteq> None"
proof -
  define n where "n = min m (int (length (cross_tx_expired c)))"
  have "cnt = n \<and> c' = c\<lparr>cross_tx_expired := drop (nat n) (cross_tx_expired c)\<rparr> \<and>
    (\<forall>i. sentTo i outs = filter (\<lambda>tx. unat (Sender_sid tx) = i)
       (map (rollbackOf \<circ> txOf c) (take (nat n) (cross_tx_expired c)))) \<and>
    (\<forall>txid\<in>set (take (nat n) (cross_tx_expired c)). txs_map c txid \<noteq> None)"
  proof (cases "n = 0")
    case True
    with assms(1) show ?thesis unfolding sendRollbackTxs_def Let_def n_def[symmetric] by auto
  next
    case False
    have "0 \<le> n" using assms(3) by (simp add: n_def)
    with False assms(1) obtain acc where
      a: "go_fold (putRollback c) (take (nat n) (cross_tx_expired c)) (replicate (shard_num c) []) = Inr acc"
      and "cnt = n" "outs = injectAll acc" "c' = c\<lparr>cross_tx_expired := drop (nat n) (cross_tx_expired c)\<rparr>"
      unfolding sendRollbackTxs_def Let_def n_def[symmetric] by (auto simp: go_bind_eq_Inr_iff)
    with putRollback_fold[OF a] putTx_sentTo[OF conjunct1[OF putRollback_fold[OF a]] assms(2)]
    show ?thesis by simp
  qed
  then show "cnt = min m (int (length (cross_tx_expired c)))"
    "c' = c\<lparr>cross_tx_expired := drop (nat cnt) (cross_tx_expired c)\<rparr>"
    "\<And>i. sentTo i outs = filter (\<lambda>tx. unat (Sender_sid tx) = i)
       (map (rollbackOf \<circ> txOf c) (take (nat cnt) (cross_tx_expired c)))"
    "\<forall>txid\<in>set (take (nat cnt) (cross_tx_expired c)). txs_map c txid \<noteq> None"
    by (simp_all add: n_def)
qed

lemma sendCross2Txs_spec:
  assumes "sendCross2Txs m c = Inr (cnt, outs, c')" "shard_num c \<le> 2 ^ 32" "0 \<le> m"
  shows "cnt = min m (int (length (cross2_txs c)))"
    "c' = c\<lparr>cross2_txs := drop (nat cnt) (cross2_txs c)\<rparr>"
    "\<And>i. sentTo i outs = filter (\<lambda>tx. unat (Recipient_sid tx) = i) (take (nat cnt) (cross2_txs c))"
proof -
  define n where "n = min m (int (length (cross2_txs c)))"
  have "cnt = n \<and> c' = c\<lparr>cross2_txs := drop (nat n) (cross2_txs c)\<rparr> \<and>
    (\<forall>i. sentTo i outs = filter (\<lambda>tx. unat (Recipient_sid tx) = i) (take (nat n) (cross2_txs c)))"
  proof (cases "n = 0")
    case True
    with assms(1) show ?thesis unfolding sendCross2Txs_def Let_def n_def[symmetric] by auto
  next
    case False
    have "0 \<le> n" using assms(3) by (simp add: n_def)
    with False assms(1) obtain acc where
      a: "go_fold (\<lambda>tx. putTx (Recipient_sid tx) tx) (take (nat n) (cross2_txs c)) (replicate (shard_num c) []) = Inr acc"
      and "cnt = n" "outs = injectAll acc" "c' = c\<lparr>cross2_txs := drop (nat n) (cross2_txs c)\<rparr>"
      unfolding sendCross2Txs_def Let_def n_def[symmetric] by (auto simp: go_bind_eq_Inr_iff)
    with putTx_sentTo[OF a assms(2)] show ?thesis by simp
  qed
  then show "cnt = min m (int (length (cross2_txs c)))" "c' = c\<lparr>cross2_txs := drop (nat cnt) (cross2_txs c)\<rparr>"
    "\<And>i. sentTo i outs = filter (\<lambda>tx. unat (Recipient_sid tx) = i) (take (nat cnt) (cross2_txs c))"
    by (simp_all add: n_def)
qed

lemma sendOne_fold:
  assumes "go_fold (sendOne now) js (acc, c) = Inr (acc', c')" "distinct js"
  shows "(\<forall>i\<in>set js. 0 \<le> i \<and> i < int (length (txs c))) \<and>
    go_fold (\<lambda>tx. putTx (Sender_sid tx) tx) (map (\<lambda>i. prepareTx (cid c) now (txs c ! nat i)) js) acc = Inr acc' \<and>
    (\<exists>ts bm. c' = c\<lparr>txs := ts, resBroadcastMap := bm\<rparr> \<and> length ts = length (txs c) \<and>
      (\<forall>j<length ts. ts ! j = (if int j \<in> set js then prepareTx (cid c) now (txs c ! j) else txs c ! j)))"
  using assms
proof (induction js arbitrary: acc c)
  case Nil
  then show ?case by (auto intro!: exI[of _ "txs c"] exI[of _ "resBroadcastMap c"])
next
  case (Cons i js)
  let ?tx = "prepareTx (cid c) now (txs c ! nat i)"
  let ?c1 = "c\<lparr>txs := (txs c)[nat i := ?tx], resBroadcastMap := AList.update (ID ?tx) (Timestamp ?tx) (resBroadcastMap c)\<rparr>"
  from Cons.prems(1) obtain st where st: "sendOne now i (acc, c) = Inr st" "go_fold (sendOne now) js st = Inr (acc', c')"
    by (auto simp: go_bind_eq_Inr_iff)
  then obtain acc1 where i: "0 \<le> i" "i < int (length (txs c))"
    and p: "putTx (Sender_sid ?tx) ?tx acc = Inr acc1" "st = (acc1, ?c1)"
    by (auto simp: sendOne_def Let_def go_bind_eq_Inr_iff split: if_splits)
  have ne: "nat j \<noteq> nat i" if "j \<in> set js" "0 \<le> j" for j
    using Cons.prems(2) that i by (auto simp: eq_nat_nat_iff)
  from Cons.IH[of acc1 ?c1] st(2) p(2) Cons.prems(2) obtain ts bm where IH:
    "\<forall>j\<in>set js. 0 \<le> j \<and> j < int (length (txs c))"
    "go_fold (\<lambda>tx. putTx (Sender_sid tx) tx) (map (\<lambda>j. prepareTx (cid c) now ((txs c)[nat i := ?tx] ! nat j)) js) acc1 = Inr acc'"
    "c' = ?c1\<lparr>txs := ts, resBroadcastMap := bm\<rparr>" "length ts = length (txs c)"
    "\<forall>j<length ts. ts ! j = (if int j \<in> set js then prepareTx (cid c) now ((txs c)[nat i := ?tx] ! j)
       else (txs c)[nat i := ?tx] ! j)" by auto
  have m: "map (\<lambda>j. prepareTx (cid c) now ((txs c)[nat i := ?tx] ! nat j)) js =
      map (\<lambda>j. prepareTx (cid c) now (txs c ! nat j)) js"
    using IH(1) ne by (intro map_cong refl) (metis nth_list_update_neq)
  note IH(2)[unfolded m]
  moreover have "ts ! j = (if int j \<in> set (i # js) then prepareTx (cid c) now (txs c ! j) else txs c ! j)"
    if "j < length ts" for j
    using IH(4,5) that i ne[of "int j"] Cons.prems(2) by (cases "int j = i") (auto simp: nth_list_update)
  ultimately show ?case using IH(1,3,4) p i by auto
qed

lemma map_slice:
  assumes "0 \<le> a" "b \<le> int (length xs)"
  shows "map (\<lambda>i. f (xs ! nat i)) [a..b - 1] = map f (take (nat (b - a)) (drop (nat a) xs))"
proof (rule nth_equalityI)
  show "length (map (\<lambda>i. f (xs ! nat i)) [a..b - 1]) = length (map f (take (nat (b - a)) (drop (nat a) xs)))"
    using assms by (simp add: min_def) linarith
  fix k
  assume "k < length (map (\<lambda>i. f (xs ! nat i)) [a..b - 1])"
  then have k: "int k < b - a" by simp
  then have "nat (a + int k) = nat a + k" using assms(1) by (simp add: nat_add_distrib)
  with k assms show "map (\<lambda>i. f (xs ! nat i)) [a..b - 1] ! k = map f (take (nat (b - a)) (drop (nat a) xs)) ! k"
    using nth_upto[of a k "b - 1"] by simp
qed

lemma sendPendingTxs_spec:
  assumes "sendPendingTxs now cnt m c = Inr (cnt', outs, c')" "shard_num c \<le> 2 ^ 32"
    "0 \<le> m" "0 \<le> cnt" "cnt \<le> int (length (txs c))"
  shows "cnt' = min (cnt + m) (int (length (txs c)))"
    "\<And>i. sentTo i outs = filter (\<lambda>tx. unat (Sender_sid tx) = i)
       (map (prepareTx (cid c) now) (take (nat (cnt' - cnt)) (drop (nat cnt) (txs c))))"
    "\<exists>ts bm. c' = c\<lparr>txs := ts, resBroadcastMap := bm\<rparr> \<and> length ts = length (txs c) \<and>
      (\<forall>j<length ts. ts ! j = (if cnt \<le> int j \<and> int j < cnt' then prepareTx (cid c) now (txs c ! j) else txs c ! j))"
proof -
  define ub where "ub = min (cnt + m) (int (length (txs c)))"
  have "cnt' = ub \<and> (\<forall>i. sentTo i outs = filter (\<lambda>tx. unat (Sender_sid tx) = i)
       (map (prepareTx (cid c) now) (take (nat (ub - cnt)) (drop (nat cnt) (txs c))))) \<and>
    (\<exists>ts bm. c' = c\<lparr>txs := ts, resBroadcastMap := bm\<rparr> \<and> length ts = length (txs c) \<and>
      (\<forall>j<length ts. ts ! j = (if cnt \<le> int j \<and> int j < ub then prepareTx (cid c) now (txs c ! j) else txs c ! j)))"
  proof (cases "m = 0")
    case True
    with assms have "cnt' = cnt" "outs = []" "c' = c" by (simp_all add: sendPendingTxs_def)
    moreover have "ub = cnt" using True assms by (simp add: ub_def)
    ultimately show ?thesis by (auto intro!: exI[of _ "txs c"] exI[of _ "resBroadcastMap c"])
  next
    case False
    with assms(1) obtain acc where
      a: "go_fold (sendOne now) [cnt..ub - 1] (replicate (shard_num c) [], c) = Inr (acc, c')"
      and o: "cnt' = ub" "outs = injectAll acc"
      unfolding sendPendingTxs_def Let_def ub_def[symmetric] by (auto simp: go_bind_eq_Inr_iff split: if_splits)
    note f = sendOne_fold[OF a]
    have "sentTo i outs = filter (\<lambda>tx. unat (Sender_sid tx) = i)
        (map (prepareTx (cid c) now) (take (nat (ub - cnt)) (drop (nat cnt) (txs c))))" for i
      using putTx_sentTo[of Sender_sid _ "shard_num c" acc i] f assms(2) o
        map_slice[of cnt ub "txs c" "prepareTx (cid c) now"] assms(4) by (simp add: ub_def)
    moreover have "int j \<in> set [cnt..ub - 1] \<longleftrightarrow> cnt \<le> int j \<and> int j < ub" for j by auto
    ultimately show ?thesis using f o by simp
  qed
  then show "cnt' = min (cnt + m) (int (length (txs c)))"
    "\<And>i. sentTo i outs = filter (\<lambda>tx. unat (Sender_sid tx) = i)
       (map (prepareTx (cid c) now) (take (nat (cnt' - cnt)) (drop (nat cnt) (txs c))))"
    "\<exists>ts bm. c' = c\<lparr>txs := ts, resBroadcastMap := bm\<rparr> \<and> length ts = length (txs c) \<and>
      (\<forall>j<length ts. ts ! j = (if cnt \<le> int j \<and> int j < cnt' then prepareTx (cid c) now (txs c ! j) else txs c ! j))"
    by (simp_all add: ub_def)
qed

section \<open>What the functions keep\<close>

definition mapOk :: "Client \<Rightarrow> bool" where
  "mapOk c \<longleftrightarrow> (\<forall>txid i. txs_map c txid = Some i \<longrightarrow> i < length (txs c) \<and> ID (txs c ! i) = txid)"

definition waitingIds :: "Client \<Rightarrow> u64 set" where
  "waitingIds c = fst ` set (cross1_confirm_height_map c)"

definition rolledBack :: "clientOut list \<Rightarrow> u64 \<Rightarrow> bool" where
  "rolledBack outs txid \<longleftrightarrow> (\<exists>s ts tx. InjectTX s ts \<in> set outs \<and> tx \<in> set ts \<and>
     TXtype tx = RollbackTXType \<and> ID tx = txid)"

definition hasReceipt :: "u64 \<Rightarrow> u64 \<Rightarrow> TXReceipt list \<Rightarrow> bool" where
  "hasReceipt txid status rs \<longleftrightarrow> (\<exists>r\<in>set rs. rTxID r = txid \<and> rTxStatus r = status)"

definition cfgOk :: "Client \<Rightarrow> bool" where
  "cfgOk c \<longleftrightarrow> shard_num c \<le> 2 ^ 32 \<and> 0 \<le> injectSpeed c \<and> 0 \<le> injectCnt c \<and> injectCnt c \<le> int (length (txs c))"

lemma cfgOk_frame [simp]:
  "cfgOk (c\<lparr>clTbchain_height := h\<rparr>) = cfgOk c" "cfgOk (c\<lparr>tx_reply := rs\<rparr>) = cfgOk c"
  "cfgOk (c\<lparr>cross1_confirm_height_map := m\<rparr>) = cfgOk c" "cfgOk (c\<lparr>cross_tx_expired := ids\<rparr>) = cfgOk c"
  by (simp_all add: cfgOk_def)

lemma hasReceipt_append: "hasReceipt t s (xs @ ys) \<longleftrightarrow> hasReceipt t s xs \<or> hasReceipt t s ys"
  by (auto simp: hasReceipt_def)

lemma Addtxs_mapOk: "mapOk c \<Longrightarrow> mapOk (Addtxs new c)"
proof -
  assume ok: "mapOk c"
  define all where "all = txs c @ map (\<lambda>tx. tx\<lparr>RollbackHeight := word_of_int (rollbackHeight c)\<rparr>) new"
  have "\<forall>txid i. fold (\<lambda>i m. m(ID (all ! i) \<mapsto> i)) [0..<n] (txs_map c) txid = Some i \<longrightarrow>
      i < length all \<and> ID (all ! i) = txid" if "n \<le> length all" for n
    using that
  proof (induction n)
    case 0
    from ok show ?case by (auto simp: mapOk_def all_def nth_append intro: trans_less_add1)
  qed auto
  from this[OF le_refl] show ?thesis by (simp add: mapOk_def Addtxs_def all_def[symmetric] Let_def)
qed

lemma handleReceipt_spec:
  assumes "handleReceipt r (rec, c) = Inr (rec', c')"
  shows "txs c' = txs c" "txs_map c' = txs_map c" "cross_tx_expired c' = cross_tx_expired c" "tx_reply c' = tx_reply c"
    "clTbs c' = clTbs c" "shard_cur_heights c' = shard_cur_heights c \<and> cfgOk c' = cfgOk c"
    "waitingIds c \<subseteq> waitingIds c' \<union> (if rTxStatus r = CrossTXType2Success then {rTxID r} else {})"
    "rTxStatus r = CrossTXType1Success \<Longrightarrow> rTxID r \<in> waitingIds c'"
proof -
  show "txs c' = txs c" "txs_map c' = txs_map c" "cross_tx_expired c' = cross_tx_expired c" "tx_reply c' = tx_reply c"
    "clTbs c' = clTbs c" "shard_cur_heights c' = shard_cur_heights c \<and> cfgOk c' = cfgOk c"
    using assms by (auto simp: handleReceipt_def Let_def cfgOk_def split: if_splits option.splits)
  show "waitingIds c \<subseteq> waitingIds c' \<union> (if rTxStatus r = CrossTXType2Success then {rTxID r} else {})"
    using assms
    by (auto simp: handleReceipt_def Let_def waitingIds_def dom_update delete_keys dom_map_of_conv_image_fst[symmetric]
        delete_conv' update_conv' split: if_splits option.splits)
  show "rTxStatus r = CrossTXType1Success \<Longrightarrow> rTxID r \<in> waitingIds c'"
    using assms
    by (auto simp: handleReceipt_def Let_def waitingIds_def dom_update status_defs
        split: if_splits option.splits)
qed

lemma receiptLoop_spec:
  assumes "receiptLoop rs (rec, c) = Inr (keep, rec', c')"
  shows "txs c' = txs c \<and> txs_map c' = txs_map c \<and> cross_tx_expired c' = cross_tx_expired c \<and>
    clTbs c' = clTbs c \<and> shard_cur_heights c' = shard_cur_heights c \<and> cfgOk c' = cfgOk c \<and>
    set keep \<subseteq> set rs \<and>
    (\<forall>txid\<in>waitingIds c. txid \<in> waitingIds c' \<or> hasReceipt txid CrossTXType2Success rs) \<and>
    (\<forall>txid. hasReceipt txid CrossTXType1Success rs \<longrightarrow> hasReceipt txid CrossTXType1Success keep \<or>
       txid \<in> waitingIds c' \<or> hasReceipt txid CrossTXType2Success rs)"
  using assms
proof (induction rs arbitrary: rec c keep)
  case (Cons r rs)
  show ?case
  proof (cases "tbKnown (word_of_int (rShardID r)) (rBlockHeight r) c")
    case None
    with Cons.prems obtain keep1 where "receiptLoop rs (rec, c) = Inr (keep1, rec', c')" "keep = r # keep1"
      by (auto simp: go_bind_eq_Inr_iff)
    with Cons.IH[of rec c keep1] show ?thesis by (auto simp: hasReceipt_def)
  next
    case (Some tb)
    with Cons.prems obtain tb1 where "tb = Some tb1" by (cases tb) auto
    with Some Cons.prems obtain rec1 c1 where
      h: "handleReceipt (r\<lparr>rConfirmTimeStamp := ctbConfirmTime tb1\<rparr>) (rec, c) = Inr (rec1, c1)"
      and l: "receiptLoop rs (rec1, c1) = Inr (keep, rec', c')"
      by (auto simp: go_bind_eq_Inr_iff)
    note hs = handleReceipt_spec[OF h]
    note IH = Cons.IH[OF l]
    have "\<forall>txid\<in>waitingIds c. txid \<in> waitingIds c' \<or> hasReceipt txid CrossTXType2Success (r # rs)"
      using IH hs(7) by (auto simp: hasReceipt_def split: if_splits)
    moreover have "hasReceipt txid CrossTXType1Success keep \<or> txid \<in> waitingIds c' \<or>
        hasReceipt txid CrossTXType2Success (r # rs)" if "hasReceipt txid CrossTXType1Success (r # rs)" for txid
      using that IH hs(8) by (auto simp: hasReceipt_def)
    ultimately show ?thesis using IH hs by auto
  qed
qed (simp add: hasReceipt_def)

lemma expireLoop_ids:
  "expireLoop c es = Inr (expired, keep) \<Longrightarrow> fst ` set es = set expired \<union> fst ` set keep"
proof (induction es arbitrary: expired keep)
  case (Cons e es)
  obtain t h where e: "e = (t, h)" by force
  with Cons.prems obtain ex kp i where "expireLoop c es = Inr (ex, kp)" "txs_map c t = Some i"
    "(expired, keep) = (if expiredAt c (txs c ! i) h then (t # ex, kp) else (ex, (t, h) # kp))"
    by (auto simp: go_bind_eq_Inr_iff split: option.splits if_splits)
  with Cons.IH[of ex kp] e show ?case by (auto split: if_splits)
qed simp

lemma addShardTBs_frame:
  assumes "go_fold addShardTBs es c = Inr c'"
  shows "txs c' = txs c \<and> txs_map c' = txs_map c \<and> cross_tx_expired c' = cross_tx_expired c \<and>
    tx_reply c' = tx_reply c \<and> cross1_confirm_height_map c' = cross1_confirm_height_map c \<and> cfgOk c' = cfgOk c"
proof (rule go_fold_invariant[OF assms])
  fix e c1 c2
  assume "addShardTBs e c1 = Inr c2" and I: "txs c1 = txs c \<and> txs_map c1 = txs_map c \<and>
    cross_tx_expired c1 = cross_tx_expired c \<and> tx_reply c1 = tx_reply c \<and>
    cross1_confirm_height_map c1 = cross1_confirm_height_map c \<and> cfgOk c1 = cfgOk c"
  from this(1) show "txs c2 = txs c \<and> txs_map c2 = txs_map c \<and> cross_tx_expired c2 = cross_tx_expired c \<and>
    tx_reply c2 = tx_reply c \<and> cross1_confirm_height_map c2 = cross1_confirm_height_map c \<and> cfgOk c2 = cfgOk c"
    unfolding addShardTBs_def using I
    by (rule go_fold_invariant) (auto simp: addTB_def Let_def cfgOk_def split: option.splits)
qed simp

lemma rolledBack_mono: "rolledBack outs txid \<Longrightarrow> rolledBack (outs @ outs2) txid"
  "rolledBack outs2 txid \<Longrightarrow> rolledBack (outs @ outs2) txid"
  by (auto simp: rolledBack_def)

lemma sendQueues_spec:
  assumes "sendQueues now c = Inr (outs, c')" "shard_num c \<le> 2 ^ 32" "0 \<le> injectSpeed c"
    "0 \<le> injectCnt c" "injectCnt c \<le> int (length (txs c))"
  defines "r \<equiv> min (injectSpeed c) (int (length (cross_tx_expired c)))"
  defines "k \<equiv> min (injectSpeed c - r) (int (length (cross2_txs c)))"
  defines "n \<equiv> min (injectSpeed c - r - k) (int (length (txs c)) - injectCnt c)"
  shows "injectCnt c' = injectCnt c + n" "cross_tx_expired c' = drop (nat r) (cross_tx_expired c)"
    "cross2_txs c' = drop (nat k) (cross2_txs c)"
    "tx_reply c' = tx_reply c" "txs_map c' = txs_map c" "length (txs c') = length (txs c)"
    "cross1_confirm_height_map c' = cross1_confirm_height_map c" "injectSpeed c' = injectSpeed c"
    "shard_num c' = shard_num c"
    "\<And>j. j < length (txs c) \<Longrightarrow> ID (txs c' ! j) = ID (txs c ! j)"
    "\<And>i. sentTo i outs =
       filter (\<lambda>tx. unat (Sender_sid tx) = i) (map (rollbackOf \<circ> txOf c) (take (nat r) (cross_tx_expired c))) @
       filter (\<lambda>tx. unat (Recipient_sid tx) = i) (take (nat k) (cross2_txs c)) @
       filter (\<lambda>tx. unat (Sender_sid tx) = i)
         (map (prepareTx (cid c) now) (take (nat n) (drop (nat (injectCnt c)) (txs c))))"
    "\<forall>txid\<in>set (take (nat r) (cross_tx_expired c)). txs_map c txid \<noteq> None"
    "\<forall>tx\<in>set (map (rollbackOf \<circ> txOf c) (take (nat r) (cross_tx_expired c))). \<exists>i. tx \<in> set (sentTo i outs)"
proof -
  from assms(1) obtain r' out1 c1 k' out2 c2 cnt out3 c3 where
    1: "sendRollbackTxs (injectSpeed c) c = Inr (r', out1, c1)" and
    2: "sendCross2Txs (injectSpeed c - r') c1 = Inr (k', out2, c2)" and
    3: "sendPendingTxs now (injectCnt c2) (injectSpeed c - r' - k') c2 = Inr (cnt, out3, c3)" and
    o: "outs = out1 @ out2 @ out3" "c' = c3\<lparr>injectCnt := cnt\<rparr>"
    by (auto simp: sendQueues_def go_bind_eq_Inr_iff)
  note s1 = sendRollbackTxs_spec[OF 1 assms(2,3)]
  have r: "r' = r" "0 \<le> r" "r \<le> injectSpeed c" using s1(1) assms(3) by (auto simp: r_def)
  have c1: "shard_num c1 = shard_num c" "cross2_txs c1 = cross2_txs c" "txs c1 = txs c" "cid c1 = cid c"
    "injectCnt c1 = injectCnt c" "txs_map c1 = txs_map c" using s1(2) by simp_all
  note s2 = sendCross2Txs_spec[OF 2]
  have k: "k' = k" "0 \<le> k" "k \<le> injectSpeed c - r" using s2(1) assms(2) r c1 by (auto simp: k_def)
  have c2: "c2 = c1\<lparr>cross2_txs := drop (nat k) (cross2_txs c1)\<rparr>" using s2(2) assms(2) r c1 k by simp
  have m: "0 \<le> injectSpeed c - r' - k'" using r k by simp
  note s3 = sendPendingTxs_spec[OF 3]
  have ok3: "shard_num c2 \<le> 2 ^ 32" "0 \<le> injectCnt c2" "injectCnt c2 \<le> int (length (txs c2))"
    using assms(2,4,5) c1 c2 by simp_all
  note s3 = sendPendingTxs_spec[OF 3 ok3(1) m ok3(2,3)]
  have n: "cnt = injectCnt c + n" using s3(1) c1 c2 r k by (simp add: n_def)
  obtain ts bm where t: "c3 = c2\<lparr>txs := ts, resBroadcastMap := bm\<rparr>" "length ts = length (txs c2)"
    "\<forall>j<length ts. ts ! j = (if injectCnt c2 \<le> int j \<and> int j < cnt then prepareTx (cid c2) now (txs c2 ! j) else txs c2 ! j)"
    using s3(3) by blast
  show "injectCnt c' = injectCnt c + n" "cross_tx_expired c' = drop (nat r) (cross_tx_expired c)"
    "cross2_txs c' = drop (nat k) (cross2_txs c)"
    "tx_reply c' = tx_reply c" "txs_map c' = txs_map c" "length (txs c') = length (txs c)"
    "cross1_confirm_height_map c' = cross1_confirm_height_map c" "injectSpeed c' = injectSpeed c"
    "shard_num c' = shard_num c"
    using o(2) t c2 c1 s1(2) r n by simp_all
  show "ID (txs c' ! j) = ID (txs c ! j)" if "j < length (txs c)" for j
    using that t o(2) c2 c1 by (simp add: prepareTx_def)
  show sent: "sentTo i outs =
       filter (\<lambda>tx. unat (Sender_sid tx) = i) (map (rollbackOf \<circ> txOf c) (take (nat r) (cross_tx_expired c))) @
       filter (\<lambda>tx. unat (Recipient_sid tx) = i) (take (nat k) (cross2_txs c)) @
       filter (\<lambda>tx. unat (Sender_sid tx) = i)
         (map (prepareTx (cid c) now) (take (nat n) (drop (nat (injectCnt c)) (txs c))))" for i
    using o(1) s1(3)[of i] s2(3)[of i] s3(2)[of i] assms(2) r k c1 c2 n by simp
  show "\<forall>txid\<in>set (take (nat r) (cross_tx_expired c)). txs_map c txid \<noteq> None" using s1(4) r by simp
  show "\<forall>tx\<in>set (map (rollbackOf \<circ> txOf c) (take (nat r) (cross_tx_expired c))). \<exists>i. tx \<in> set (sentTo i outs)"
    unfolding sent by fastforce
qed

lemma sentTo_in: "tx \<in> set (sentTo i outs) \<Longrightarrow> \<exists>s ts. InjectTX s ts \<in> set outs \<and> tx \<in> set ts"
  by (force simp: sentTo_def split: clientOut.splits if_splits)

text \<open>A client as the program starts it: configured, and given its transactions once.\<close>

definition freshClient :: "Client \<Rightarrow> bool" where
  "freshClient c \<longleftrightarrow> (\<exists>i rollback shardNum mode speed ts.
     c = Addtxs ts (clientStart speed (NewClient i rollback shardNum mode)) \<and> 0 \<le> speed \<and> shardNum \<le> 2 ^ 32)"

section \<open>Which transactions expire\<close>

lemma waitingIds_update: "fst ` set (AList.update k v m) = insert k (fst ` set m)"
  by (simp add: dom_update)

lemma waitingIds_delete: "fst ` set (AList.delete k m) = fst ` set m - {k}"
  unfolding dom_map_of_conv_image_fst[symmetric] delete_conv' by auto

lemma handleReceipt_map:
  assumes "handleReceipt r (rec, c) = Inr (rec', c')"
  shows "rTxStatus r = CrossTXType2Success \<Longrightarrow> rTxID r \<notin> waitingIds c'"
    "rTxStatus r \<noteq> CrossTXType1Success \<or> rTxID r \<noteq> t \<Longrightarrow>
      map_of (cross1_confirm_height_map c') t = Some h \<Longrightarrow> map_of (cross1_confirm_height_map c) t = Some h"
    "distinct (map fst (cross1_confirm_height_map c)) \<Longrightarrow> distinct (map fst (cross1_confirm_height_map c'))"
proof -
  show "rTxID r \<notin> waitingIds c'" if s: "rTxStatus r = CrossTXType2Success"
  proof -
    have "c' = c\<lparr>cross1_confirm_height_map := AList.delete (rTxID r) (cross1_confirm_height_map c)\<rparr>"
      using assms s by (auto simp: handleReceipt_def Let_def status_defs split: if_splits)
    then show ?thesis by (simp add: waitingIds_def waitingIds_delete)
  qed
  show "rTxStatus r \<noteq> CrossTXType1Success \<or> rTxID r \<noteq> t \<Longrightarrow>
      map_of (cross1_confirm_height_map c') t = Some h \<Longrightarrow> map_of (cross1_confirm_height_map c) t = Some h"
    using assms
    by (auto simp: handleReceipt_def Let_def update_conv' delete_conv' split: if_splits option.splits)
  show "distinct (map fst (cross1_confirm_height_map c)) \<Longrightarrow> distinct (map fst (cross1_confirm_height_map c'))"
    using assms
    by (auto simp: handleReceipt_def Let_def distinct_update distinct_delete split: if_splits option.splits)
qed

lemma waitingIds_iff: "t \<in> waitingIds c \<longleftrightarrow> (\<exists>h. map_of (cross1_confirm_height_map c) t = Some h)"
  by (auto simp: waitingIds_def dom_map_of_conv_image_fst[symmetric])

lemma receiptLoop_map:
  assumes "receiptLoop rs (rec, c) = Inr (keep, rec', c')" "\<not> hasReceipt t CrossTXType1Success rs"
  shows "map_of (cross1_confirm_height_map c') t = Some h \<Longrightarrow> map_of (cross1_confirm_height_map c) t = Some h \<and>
      \<not> (\<exists>r\<in>set rs. rTxID r = t \<and> rTxStatus r = CrossTXType2Success \<and>
           tbKnown (word_of_int (rShardID r)) (rBlockHeight r) c \<noteq> None)"
    "distinct (map fst (cross1_confirm_height_map c)) \<Longrightarrow> distinct (map fst (cross1_confirm_height_map c'))"
proof -
  have "(map_of (cross1_confirm_height_map c') t = Some h \<longrightarrow> map_of (cross1_confirm_height_map c) t = Some h \<and>
      \<not> (\<exists>r\<in>set rs. rTxID r = t \<and> rTxStatus r = CrossTXType2Success \<and>
           tbKnown (word_of_int (rShardID r)) (rBlockHeight r) c \<noteq> None)) \<and>
    (distinct (map fst (cross1_confirm_height_map c)) \<longrightarrow> distinct (map fst (cross1_confirm_height_map c')))"
    using assms
  proof (induction rs arbitrary: rec c keep)
    case (Cons r rs)
    have no: "\<not> hasReceipt t CrossTXType1Success rs" "rTxStatus r \<noteq> CrossTXType1Success \<or> rTxID r \<noteq> t"
      using Cons.prems(2) by (auto simp: hasReceipt_def)
    show ?case
    proof (cases "tbKnown (word_of_int (rShardID r)) (rBlockHeight r) c")
      case None
      with Cons.prems obtain keep1 where "receiptLoop rs (rec, c) = Inr (keep1, rec', c')"
        by (auto simp: go_bind_eq_Inr_iff)
      with Cons.IH[OF this no(1)] None show ?thesis by auto
    next
      case (Some tb)
      with Cons.prems obtain tb1 where "tb = Some tb1" by (cases tb) auto
      with Some Cons.prems obtain rec1 c1 where
        h: "handleReceipt (r\<lparr>rConfirmTimeStamp := ctbConfirmTime tb1\<rparr>) (rec, c) = Inr (rec1, c1)"
        and l: "receiptLoop rs (rec1, c1) = Inr (keep, rec', c')"
        by (auto simp: go_bind_eq_Inr_iff)
      have known: "tbKnown a b c1 = tbKnown a b c" for a b
        using handleReceipt_spec(5)[OF h] by (simp add: tbKnown_def)
      note hm = handleReceipt_map[OF h]
      show ?thesis using Cons.IH[OF l no(1)] hm(1) hm(2)[of t h] no(2) hm(3) known waitingIds_iff[of t c1] by auto
    qed
  qed auto
  then show "map_of (cross1_confirm_height_map c') t = Some h \<Longrightarrow> map_of (cross1_confirm_height_map c) t = Some h \<and>
      \<not> (\<exists>r\<in>set rs. rTxID r = t \<and> rTxStatus r = CrossTXType2Success \<and>
           tbKnown (word_of_int (rShardID r)) (rBlockHeight r) c \<noteq> None)"
    "distinct (map fst (cross1_confirm_height_map c)) \<Longrightarrow> distinct (map fst (cross1_confirm_height_map c'))" by blast+
qed

lemma expireLoop_expired:
  "expireLoop c es = Inr (expired, keep) \<Longrightarrow> t \<in> set expired \<Longrightarrow>
   \<exists>h i. (t, h) \<in> set es \<and> txs_map c t = Some i \<and> expiredAt c (txs c ! i) h"
proof (induction es arbitrary: expired keep)
  case (Cons e es)
  obtain u h where e: "e = (u, h)" by force
  with Cons.prems obtain ex kp i where "expireLoop c es = Inr (ex, kp)" "txs_map c u = Some i"
    "(expired, keep) = (if expiredAt c (txs c ! i) h then (u # ex, kp) else (ex, (u, h) # kp))"
    by (auto simp: go_bind_eq_Inr_iff split: option.splits if_splits)
  with Cons.IH[of ex kp] Cons.prems(2) e show ?case by (auto split: if_splits)
qed simp

text \<open>
  A transaction expires only past its deadline, and not when the receipt of its second half is
  there with a confirmed beacon.
\<close>

lemma clientAddTBs_expired:
  assumes "clientAddTBs b (c, res) = Inr (c', res')" "distinct (map fst (cross1_confirm_height_map c))"
    "\<not> hasReceipt t CrossTXType1Success (tx_reply c)"
  obtains ex where "cross_tx_expired c' = cross_tx_expired c @ ex"
    "t \<in> set ex \<longrightarrow> (\<exists>h. map_of (cross1_confirm_height_map c) t = Some h \<and>
       h + RollbackHeight (txOf c t) < curHeight (Recipient_sid (txOf c t)) c')"
    "t \<in> set ex \<longrightarrow> \<not> (\<exists>r\<in>set (tx_reply c). rTxID r = t \<and> rTxStatus r = CrossTXType2Success \<and>
           tbKnown (word_of_int (rShardID r)) (rBlockHeight r) c' \<noteq> None)"
proof -
  from assms(1) obtain c1 keep rec c2 expired keep' where
    a: "go_fold addShardTBs (enumerate 0 (tbbTbs b)) c = Inr c1"
    and l: "receiptLoop (tx_reply c1) ([], c1\<lparr>clTbchain_height := tbbHeight b\<rparr>) = Inr (keep, rec, c2)"
    and x: "expireLoop (c2\<lparr>tx_reply := keep\<rparr>) (cross1_confirm_height_map c2) = Inr (expired, keep')"
    and c': "c' = c2\<lparr>tx_reply := keep, cross1_confirm_height_map := keep',
      cross_tx_expired := cross_tx_expired c2 @ expired\<rparr>"
    by (auto simp: clientAddTBs_def processTXReceipts_def checkExpiredTXs_def storeTBs_def expireScan_def expireQueue_def
        go_bind_eq_Inr_iff)
  note A = addShardTBs_frame[OF a] and L = receiptLoop_spec[OF l]
  have no: "\<not> hasReceipt t CrossTXType1Success (tx_reply c1)" using assms(3) A by simp
  have same: "clTbs c' = clTbs c1" "shard_cur_heights c' = shard_cur_heights c1" using c' L by simp_all
  have dist: "distinct (map fst (cross1_confirm_height_map c2))"
    using receiptLoop_map(2)[OF l no] assms(2) A by simp
  have e: "\<exists>h. map_of (cross1_confirm_height_map c2) t = Some h \<and>
       h + RollbackHeight (txOf c t) < curHeight (Recipient_sid (txOf c t)) c'" if t: "t \<in> set expired"
  proof -
    from expireLoop_expired[OF x t] obtain h i where "(t, h) \<in> set (cross1_confirm_height_map c2)"
      "txs_map c2 t = Some i" "expiredAt (c2\<lparr>tx_reply := keep\<rparr>) (txs c2 ! i) h" by auto
    with dist L A c' show ?thesis by (auto simp: expiredAt_def curHeight_def txOf_def)
  qed
  show thesis
  proof (rule that[of expired])
    show "cross_tx_expired c' = cross_tx_expired c @ expired" using c' L A by simp
    show "t \<in> set expired \<longrightarrow> (\<exists>h. map_of (cross1_confirm_height_map c) t = Some h \<and>
       h + RollbackHeight (txOf c t) < curHeight (Recipient_sid (txOf c t)) c')"
      using e receiptLoop_map(1)[OF l no] A by auto
    show "t \<in> set expired \<longrightarrow> \<not> (\<exists>r\<in>set (tx_reply c). rTxID r = t \<and> rTxStatus r = CrossTXType2Success \<and>
           tbKnown (word_of_int (rShardID r)) (rBlockHeight r) c' \<noteq> None)"
      using e receiptLoop_map(1)[OF l no] A same by (auto simp: tbKnown_def)
  qed
qed

section \<open>Sample runs\<close>

definition sampleTx :: "u64 \<Rightarrow> u32 \<Rightarrow> Transaction" where
  "sampleTx i sid = (NewTransaction 0 [1] [2] 0 5)\<lparr>ID := i, Recipient_sid := sid\<rparr>"

definition sampleClient :: "int \<Rightarrow> Client" where
  "sampleClient speed = Addtxs [sampleTx 0 1, sampleTx 1 0] (clientStart speed (NewClient 0 3 2 0))"

definition sampleResult :: Result where
  "sampleResult = NewResult\<lparr>Totalnum := 2, BroadcastMap := [0, 0], ConfirmMap := [0, 0], AllTXStatus := [[], []]\<rparr>"

definition shardReceipt :: "int \<Rightarrow> u64 \<Rightarrow> TXReceipt" where
  "shardReceipt sid status = \<lparr>rTxID = 0, rConfirmTimeStamp = 0, rTxStatus = status, rShardID = sid, rBlockHeight = 1\<rparr>"

definition sampleBeacon :: "u32 \<Rightarrow> u64 \<Rightarrow> ConfirmedTB" where
  "sampleBeacon sid h = \<lparr>ctbTimeBeacon = \<lparr>tbShardID = sid, tbHeight = h, tbBlockHash = [], tbTxHash = [],
     tbStatusHash = []\<rparr>, ctbConfirmTime = 9, ctbConfirmHeight = 0\<rparr>"

lemmas sampleClient_simps = sampleClient_def sampleResult_def shardReceipt_def sampleBeacon_def
  sampleTx_def NewResult_def NewTransaction_def Addtxs_def clientStart_def NewClient_def injectStart_def
  sendQueues_def sendRollbackTxs_def sendCross2Txs_def sendPendingTxs_def badCapacity_def
  sendOne_def prepareTx_def putTx_def injectAll_def AddTXReceipts_def clientAddTBs_def addShardTBs_def addTB_def
  processTXReceipts_def storeTBs_def expireScan_def expireQueue_def checkExpiredTXs_def handleReceipt_def cross2Of_def curHeight_def tbKnown_def expiredAt_def
  SetTXReceiptV2_def receiptStep_def addLoad_def checkTXFinished_def CanStopV1_def CanStopV2_def maxHeight_def
  SetBroadcastMap_def status_defs txtype_defs Let_def enumerate_eq_zip replicate_two

lemma upto_01: "[0..1] = [0 :: int, 1]" "[0..0] = [0 :: int]" "[1..1] = [1 :: int]"
  by (simp_all add: upto.simps)

lemma freshClient_sample: "0 \<le> speed \<Longrightarrow> freshClient (sampleClient speed)"
  unfolding freshClient_def sampleClient_def
  by (intro exI[of _ 0] exI[of _ 3] exI[of _ 2] exI[of _ speed] exI[of _ "[sampleTx 0 1, sampleTx 1 0]"]) simp

text \<open>
  C14. What one iteration of the injection loop sends. It serves the expired transactions first, then
  the second halves, then new transactions, each queue from its front and at most
  \<^verbatim>\<open>injectSpeed\<close> transactions together; a rollback and a new transaction go to the committee of the
  sender, a second half to that of the recipient, in queue order; and what was sent leaves its queue.
\<close>

theorem client_iteration_sends:
  assumes "sendQueues now c = Inr (outs, c')" "shard_num c \<le> 2 ^ 32" "0 \<le> injectSpeed c"
    "0 \<le> injectCnt c" "injectCnt c \<le> int (length (txs c))"
    "r = min (injectSpeed c) (int (length (cross_tx_expired c)))"
    "k = min (injectSpeed c - r) (int (length (cross2_txs c)))"
    "n = min (injectSpeed c - r - k) (int (length (txs c)) - injectCnt c)"
  shows "injectCnt c' = injectCnt c + n \<and> cross_tx_expired c' = drop (nat r) (cross_tx_expired c) \<and>
    cross2_txs c' = drop (nat k) (cross2_txs c) \<and>
    (\<forall>i. sentTo i outs =
       filter (\<lambda>tx. unat (Sender_sid tx) = i) (map (rollbackOf \<circ> txOf c) (take (nat r) (cross_tx_expired c))) @
       filter (\<lambda>tx. unat (Recipient_sid tx) = i) (take (nat k) (cross2_txs c)) @
       filter (\<lambda>tx. unat (Sender_sid tx) = i)
         (map (prepareTx (cid c) now) (take (nat n) (drop (nat (injectCnt c)) (txs c)))))"
  using sendQueues_spec(1,2,3,11)[OF assms(1-5)] unfolding assms(6-8) by blast

theorem client_iteration_sends_witness:
  "\<exists>outs c'. sendQueues 5 (sampleClient 10) = Inr (outs, c') \<and> injectCnt c' = 2 \<and>
    sentTo 0 outs = map (prepareTx 0 5) (txs (sampleClient 10))"
proof -
  have "\<exists>outs c'. sendQueues 5 (sampleClient 10) = Inr (outs, c')"
    by (simp add: sampleClient_simps upto_01)
  then obtain outs c' where s: "sendQueues 5 (sampleClient 10) = Inr (outs, c')" by blast
  have c: "shard_num (sampleClient 10) = 2" "injectSpeed (sampleClient 10) = 10" "injectCnt (sampleClient 10) = 0"
    "cross_tx_expired (sampleClient 10) = []" "cross2_txs (sampleClient 10) = []" "cid (sampleClient 10) = 0"
    "txs (sampleClient 10) = map (\<lambda>tx. tx\<lparr>RollbackHeight := 3\<rparr>) [sampleTx 0 1, sampleTx 1 0]"
    by (simp_all add: sampleClient_def Addtxs_def clientStart_def NewClient_def Let_def)
  from client_iteration_sends[OF s _ _ _ _ refl refl refl] s c show ?thesis
    by (simp add: prepareTx_def sampleTx_def NewTransaction_def)
qed

end
