(* ===== verification/Client_Run.thy ===== *)
theory Client_Run
  imports Client
begin

text \<open>
  The goroutines of \<^verbatim>\<open>src/client/\<close>. The injection loop \<^verbatim>\<open>InjectTXs\<close> runs beside the handlers of
  receipts and beacons, and the locks make only parts of these functions atomic. A step of this
  theory is one such part: a function called under its lock, one of the two critical sections of
  \<^verbatim>\<open>checkExpiredTXs\<close>, or one of the reads of \<^verbatim>\<open>CanStopV1\<close>, which takes no lock at all. The first part
  of \<^verbatim>\<open>AddTBs\<close> and the counters of the injection loop are also read and written without a lock;
  each is one step. Where a goroutine stands is part of the state.

  The booter sends the contract once, so there is one injection loop: a second start while the loop
  runs is outside the model.
\<close>

section \<open>State and steps\<close>

text \<open>
  The injection loop: the calls with the number of transactions they may still send, the
  notification, and the reads of the queues in the order of \<^verbatim>\<open>CanStopV1\<close>.
\<close>

datatype injectPc = Stopped | AtRollback | AtCross2 int | AtPending int | AtNotify
  | TestReplies | TestExpired | TestCross2 | TestWaiting

text \<open>A call of \<^verbatim>\<open>AddTBs\<close> that has stored its beacons.\<close>

datatype handlerPc = AtProcess | AtScan | AtQueue "u64 list"

record ClientState =
  stClient :: Client
  stResult :: Result
  stInject :: injectPc
  stHandlers :: "handlerPc list"

definition injectEnd :: "ClientState \<Rightarrow> ClientState go" where
  "injectEnd s = go_bind (SetBroadcastMap (resBroadcastMap (stClient s)) (stResult s)) (\<lambda>res.
     Inr (s\<lparr>stResult := res, stInject := Stopped\<rparr>))"

definition InjectTXs_step :: "u64 \<Rightarrow> ClientState \<Rightarrow> (clientOut list \<times> ClientState) go" where
  "InjectTXs_step now s =
    (let c = stClient s; test = (\<lambda>ok next. Inr ([], s\<lparr>stInject := (if ok then next else AtRollback)\<rparr>)) in
     case stInject s of
       Stopped \<Rightarrow> Inr ([], s)
     | AtRollback \<Rightarrow> go_bind (sendRollbackTxs (injectSpeed c) c) (\<lambda>(n, out, c').
         Inr (out, s\<lparr>stClient := c', stInject := AtCross2 (injectSpeed c - n)\<rparr>))
     | AtCross2 m \<Rightarrow> go_bind (sendCross2Txs m c) (\<lambda>(n, out, c').
         Inr (out, s\<lparr>stClient := c', stInject := AtPending (m - n)\<rparr>))
     | AtPending m \<Rightarrow> go_bind (sendPendingTxs now (injectCnt c) m c) (\<lambda>(cnt, out, c').
         Inr (out, s\<lparr>stClient := c'\<lparr>injectCnt := cnt\<rparr>, stInject := AtNotify\<rparr>))
     | AtNotify \<Rightarrow>
         if CanStopV2 c \<and> \<not> InjectDoneMsgSent c then
           let s' = s\<lparr>stClient := c\<lparr>InjectDoneMsgSent := True\<rparr>\<rparr>; out = [SetInjectDone (word_of_int (cid c))] in
           if exitMode c = 1 then go_bind (injectEnd s') (\<lambda>s''. Inr (out, s''))
           else Inr (out, s'\<lparr>stInject := TestReplies\<rparr>)
         else Inr ([], s\<lparr>stInject := TestReplies\<rparr>)
     | TestReplies \<Rightarrow> test (int (length (txs c)) = injectCnt c \<and> tx_reply c = []) TestExpired
     | TestExpired \<Rightarrow> test (cross_tx_expired c = []) TestCross2
     | TestCross2 \<Rightarrow> test (cross2_txs c = []) TestWaiting
     | TestWaiting \<Rightarrow>
         if cross1_confirm_height_map c = [] then go_bind (injectEnd s) (\<lambda>s'. Inr ([], s'))
         else test False Stopped)"

definition AddTBs_step :: "nat \<Rightarrow> ClientState \<Rightarrow> (clientOut list \<times> ClientState) go" where
  "AddTBs_step i s =
    (let c = stClient s; hs = stHandlers s in
     if length hs \<le> i then Inr ([], s)
     else case hs ! i of
       AtProcess \<Rightarrow> go_bind (processTXReceipts (c, stResult s)) (\<lambda>(c', res).
         Inr ([], s\<lparr>stClient := c', stResult := res, stHandlers := hs[i := AtScan]\<rparr>))
     | AtScan \<Rightarrow> go_bind (expireScan c) (\<lambda>(ids, c').
         Inr ([], s\<lparr>stClient := c', stHandlers := hs[i := AtQueue ids]\<rparr>))
     | AtQueue ids \<Rightarrow>
         Inr ([], s\<lparr>stClient := expireQueue ids c, stHandlers := take i hs @ drop (Suc i) hs\<rparr>))"

datatype clientEvent = Receipts "TXReceipt list" | Beacons TBBlock | Handler nat | StartInject | Inject u64

definition clientStep :: "clientEvent \<Rightarrow> ClientState \<Rightarrow> (clientOut list \<times> ClientState) go" where
  "clientStep e s =
    (case e of
       Receipts rs \<Rightarrow> Inr ([], s\<lparr>stClient := AddTXReceipts rs (stClient s)\<rparr>)
     | Beacons b \<Rightarrow> go_bind (storeTBs b (stClient s)) (\<lambda>c'.
         Inr ([], s\<lparr>stClient := c', stHandlers := stHandlers s @ [AtProcess]\<rparr>))
     | Handler i \<Rightarrow> AddTBs_step i s
     | StartInject \<Rightarrow>
         if stInject s = Stopped
         then Inr ([], s\<lparr>stClient := injectStart (stClient s), stInject := AtRollback\<rparr>)
         else Inl (Err ''second injection loop'')
     | Inject now \<Rightarrow> InjectTXs_step now s)"

text \<open>Without interference a call of \<^verbatim>\<open>AddTBs\<close> is the function of \<^verbatim>\<open>Client\<close>.\<close>

lemma AddTBs_uninterrupted:
  assumes "clientAddTBs b (stClient s, stResult s) = Inr (c', res')" "n = length (stHandlers s)"
  shows "runEvents clientStep [Beacons b, Handler n, Handler n, Handler n] s =
    Inr ([], s\<lparr>stClient := c', stResult := res'\<rparr>)"
proof -
  from assms(1) obtain c1 c2 ids c3 where "storeTBs b (stClient s) = Inr c1"
    "processTXReceipts (c1, stResult s) = Inr (c2, res')" "expireScan c2 = Inr (ids, c3)" "c' = expireQueue ids c3"
    by (auto simp: clientAddTBs_def checkExpiredTXs_def go_bind_eq_Inr_iff)
  with assms(2) show ?thesis
    by (simp add: clientStep_def AddTBs_step_def Let_def nth_append list_update_append)
qed

text \<open>Without interference the four reads are \<^verbatim>\<open>CanStopV1\<close>.\<close>

lemma stop_test_uninterrupted:
  assumes "runEvents clientStep [Inject t1, Inject t2, Inject t3, Inject t4] s = Inr (outs, s')"
    "stInject s = TestReplies" "CanStopV1 (stClient s)"
  shows "stInject s' = Stopped \<and> outs = [] \<and> stClient s' = stClient s"
  using assms
  by (auto simp: clientStep_def InjectTXs_step_def injectEnd_def CanStopV1_def Let_def go_bind_eq_Inr_iff)

section \<open>Every confirmed first half is accounted for\<close>

fun received :: "clientEvent list \<Rightarrow> TXReceipt list" where
  "received [] = []"
| "received (Receipts rs # es) = rs @ received es"
| "received (_ # es) = received es"

fun isInject :: "clientEvent \<Rightarrow> bool" where
  "isInject (Inject _) \<longleftrightarrow> True"
| "isInject _ \<longleftrightarrow> False"

definition expiring :: "handlerPc list \<Rightarrow> u64 set" where
  "expiring hs = {t. \<exists>ids. AtQueue ids \<in> set hs \<and> t \<in> set ids}"

text \<open>
  What has become of a transaction whose first half was confirmed, given the receipts received and
  the messages sent so far.
\<close>

definition accounted :: "TXReceipt list \<Rightarrow> clientOut list \<Rightarrow> ClientState \<Rightarrow> u64 \<Rightarrow> bool" where
  "accounted rs outs s t \<longleftrightarrow> t \<in> waitingIds (stClient s) \<or> t \<in> set (cross_tx_expired (stClient s)) \<or>
     t \<in> expiring (stHandlers s) \<or> rolledBack outs t \<or> hasReceipt t CrossTXType2Success rs"

definition unprocessed :: "ClientState \<Rightarrow> u64 \<Rightarrow> bool" where
  "unprocessed s t \<longleftrightarrow> hasReceipt t CrossTXType1Success (tx_reply (stClient s))"

fun pcOk :: "injectPc \<Rightarrow> bool" where
  "pcOk (AtCross2 m) \<longleftrightarrow> 0 \<le> m"
| "pcOk (AtPending m) \<longleftrightarrow> 0 \<le> m"
| "pcOk _ \<longleftrightarrow> True"

definition stOk :: "ClientState \<Rightarrow> bool" where
  "stOk s \<longleftrightarrow> mapOk (stClient s) \<and> cfgOk (stClient s) \<and> pcOk (stInject s)"

text \<open>What one step keeps; \<^verbatim>\<open>rs\<close> is any list that has the receipts waiting in the client.\<close>

definition keeps :: "TXReceipt list \<Rightarrow> clientOut list \<Rightarrow> ClientState \<Rightarrow> ClientState \<Rightarrow> bool" where
  "keeps rs out s s' \<longleftrightarrow> stOk s' \<and>
    (\<forall>t. accounted rs [] s t \<longrightarrow> accounted rs out s' t) \<and>
    (\<forall>t. unprocessed s t \<longrightarrow> unprocessed s' t \<or> accounted rs out s' t)"

lemma received_append [simp]: "received (es @ fs) = received es @ received fs"
  by (induction es rule: received.induct) auto

lemma accounted_iff: "accounted rs outs s t \<longleftrightarrow> rolledBack outs t \<or> accounted rs [] s t"
  by (auto simp: accounted_def rolledBack_def)

lemma accounted_more:
  "accounted rs outs s t \<Longrightarrow> set rs \<subseteq> set rs' \<Longrightarrow> set outs \<subseteq> set outs' \<Longrightarrow> accounted rs' outs' s t"
  by (auto simp: accounted_def rolledBack_def hasReceipt_def)

text \<open>A step that leaves the queues of the client alone.\<close>

lemma keeps_frame:
  assumes "stOk s'" "cross1_confirm_height_map (stClient s') = cross1_confirm_height_map (stClient s)"
    "cross_tx_expired (stClient s') = cross_tx_expired (stClient s)"
    "set (tx_reply (stClient s)) \<subseteq> set (tx_reply (stClient s'))" "expiring (stHandlers s) \<subseteq> expiring (stHandlers s')"
  shows "keeps rs out s s'"
  using assms by (auto simp: keeps_def accounted_def unprocessed_def waitingIds_def hasReceipt_def rolledBack_def)

lemma injectEnd_eq:
  "injectEnd s = Inr s' \<Longrightarrow> \<exists>res. s' = s\<lparr>stResult := res, stInject := Stopped\<rparr>"
  by (auto simp: injectEnd_def go_bind_eq_Inr_iff)

lemma rollback_keeps:
  assumes "sendRollbackTxs (injectSpeed (stClient s)) (stClient s) = Inr (n, out, c')" "stOk s"
  shows "keeps rs out s (s\<lparr>stClient := c', stInject := AtCross2 (injectSpeed (stClient s) - n)\<rparr>)"
proof -
  let ?c = "stClient s"
  let ?s = "s\<lparr>stClient := c', stInject := AtCross2 (injectSpeed ?c - n)\<rparr>"
  have ok: "mapOk ?c" "shard_num ?c \<le> 2 ^ 32" "0 \<le> injectSpeed ?c"
    using assms(2) by (auto simp: stOk_def cfgOk_def)
  note sp = sendRollbackTxs_spec[OF assms(1) ok(2,3)]
  have gone: "rolledBack out t" if "t \<in> set (take (nat n) (cross_tx_expired ?c))" for t
  proof -
    let ?tx = "rollbackOf (txOf ?c t)"
    have "ID ?tx = t" "TXtype ?tx = RollbackTXType"
      using ok(1) bspec[OF sp(4) that] by (auto simp: mapOk_def txOf_def rollbackOf_def)
    moreover have "?tx \<in> set (sentTo (unat (Sender_sid ?tx)) out)" unfolding sp(3) using that by auto
    ultimately show ?thesis using sentTo_in unfolding rolledBack_def by blast
  qed
  have "cross_tx_expired c' = drop (nat n) (cross_tx_expired ?c)" using sp(2) by simp
  then have "rolledBack out t \<or> t \<in> set (cross_tx_expired c')" if "t \<in> set (cross_tx_expired ?c)" for t
    using that gone[of t] by (metis Un_iff append_take_drop_id set_append)
  moreover have "stOk ?s" using assms(2) sp(1,2) by (auto simp: stOk_def mapOk_def cfgOk_def)
  ultimately show ?thesis
    using sp(2) by (auto simp: keeps_def accounted_def unprocessed_def waitingIds_def rolledBack_def)
qed

lemma pending_keeps:
  assumes "sendPendingTxs now (injectCnt (stClient s)) m (stClient s) = Inr (cnt, out, c')" "stOk s" "0 \<le> m"
  shows "keeps rs out s (s\<lparr>stClient := c'\<lparr>injectCnt := cnt\<rparr>, stInject := AtNotify\<rparr>)"
proof -
  let ?c = "stClient s"
  have ok: "mapOk ?c" "shard_num ?c \<le> 2 ^ 32" "0 \<le> injectCnt ?c" "injectCnt ?c \<le> int (length (txs ?c))"
    using assms(2) by (auto simp: stOk_def cfgOk_def)
  note sp = sendPendingTxs_spec[OF assms(1) ok(2) assms(3) ok(3,4)]
  obtain ts bm where t: "c' = ?c\<lparr>txs := ts, resBroadcastMap := bm\<rparr>" "length ts = length (txs ?c)"
    "\<forall>j<length ts. ts ! j = (if injectCnt ?c \<le> int j \<and> int j < cnt then prepareTx (cid ?c) now (txs ?c ! j) else txs ?c ! j)"
    using sp(3) by blast
  have "mapOk (c'\<lparr>injectCnt := cnt\<rparr>)" using ok(1) t by (auto simp: mapOk_def prepareTx_def)
  moreover have "cfgOk (c'\<lparr>injectCnt := cnt\<rparr>)" using assms(2,3) sp(1) t by (auto simp: stOk_def cfgOk_def)
  ultimately show ?thesis using t(1) by (intro keeps_frame) (simp_all add: stOk_def)
qed

lemma InjectDone_frame [simp]:
  "mapOk (c\<lparr>InjectDoneMsgSent := b\<rparr>) = mapOk c" "cfgOk (c\<lparr>InjectDoneMsgSent := b\<rparr>) = cfgOk c"
  by (simp_all add: mapOk_def cfgOk_def)

lemma inject_keeps:
  assumes "InjectTXs_step now s = Inr (out, s')" "stOk s"
  shows "keeps rs out s s' \<and> stHandlers s' = stHandlers s \<and> tx_reply (stClient s') = tx_reply (stClient s)"
proof (cases "stInject s")
  case AtRollback
  with assms(1) obtain n c' where r: "sendRollbackTxs (injectSpeed (stClient s)) (stClient s) = Inr (n, out, c')"
    "s' = s\<lparr>stClient := c', stInject := AtCross2 (injectSpeed (stClient s) - n)\<rparr>"
    by (auto simp: InjectTXs_step_def Let_def go_bind_eq_Inr_iff)
  moreover have "tx_reply c' = tx_reply (stClient s)"
    using sendRollbackTxs_spec(2)[OF r(1)] assms(2) by (simp add: stOk_def cfgOk_def)
  ultimately show ?thesis using rollback_keeps[OF r(1) assms(2)] by simp
next
  case (AtCross2 m)
  with assms(1) obtain n c' where r: "sendCross2Txs m (stClient s) = Inr (n, out, c')"
    "s' = s\<lparr>stClient := c', stInject := AtPending (m - n)\<rparr>"
    by (auto simp: InjectTXs_step_def Let_def go_bind_eq_Inr_iff)
  have m: "0 \<le> m" "shard_num (stClient s) \<le> 2 ^ 32" using assms(2) AtCross2 by (auto simp: stOk_def cfgOk_def)
  from sendCross2Txs_spec(1,2)[OF r(1) m(2,1)] r(2) assms(2) m(1) show ?thesis
    by (auto intro!: keeps_frame simp: stOk_def mapOk_def cfgOk_def)
next
  case (AtPending m)
  with assms(1) obtain cnt c' where r: "sendPendingTxs now (injectCnt (stClient s)) m (stClient s) = Inr (cnt, out, c')"
    "s' = s\<lparr>stClient := c'\<lparr>injectCnt := cnt\<rparr>, stInject := AtNotify\<rparr>"
    by (auto simp: InjectTXs_step_def Let_def go_bind_eq_Inr_iff)
  have m: "0 \<le> m" using assms(2) AtPending by (auto simp: stOk_def)
  have "tx_reply c' = tx_reply (stClient s)"
    using sendPendingTxs_spec(3)[OF r(1) _ m] assms(2) by (auto simp: stOk_def cfgOk_def)
  with pending_keeps[OF r(1) assms(2) m] r(2) show ?thesis by simp
qed (use assms in \<open>auto intro!: keeps_frame simp: stOk_def InjectTXs_step_def Let_def go_bind_eq_Inr_iff
      dest!: injectEnd_eq split: if_splits\<close>)

lemma expiring_update:
  assumes "\<nexists>ids. hs ! i = AtQueue ids"
  shows "expiring hs \<subseteq> expiring (hs[i := h])"
proof
  fix t assume "t \<in> expiring hs"
  then obtain ids j where j: "j < length hs" "hs ! j = AtQueue ids" "t \<in> set ids"
    by (auto simp: expiring_def in_set_conv_nth)
  with assms have "j \<noteq> i" by metis
  with j have "hs[i := h] ! j = AtQueue ids" "j < length (hs[i := h])" by simp_all
  with j(3) show "t \<in> expiring (hs[i := h])" unfolding expiring_def by (metis (mono_tags) mem_Collect_eq nth_mem)
qed

lemma expiring_set: "i < length hs \<Longrightarrow> set ids \<subseteq> expiring (hs[i := AtQueue ids])"
  unfolding expiring_def by (blast intro: set_update_memI)

lemma expiring_remove:
  assumes "i < length hs" "hs ! i = AtQueue ids"
  shows "expiring hs \<subseteq> set ids \<union> expiring (take i hs @ drop (Suc i) hs)"
proof -
  have "set hs = insert (AtQueue ids) (set (take i hs @ drop (Suc i) hs))"
    using id_take_nth_drop[OF assms(1)] assms(2) by (metis list.set(2) set_append Un_insert_right)
  then show ?thesis unfolding expiring_def by auto
qed

lemma process_keeps:
  assumes "processTXReceipts (stClient s, stResult s) = Inr (c', res)" "stOk s"
    "set (tx_reply (stClient s)) \<subseteq> set rs" "i < length (stHandlers s)" "stHandlers s ! i = AtProcess"
  shows "keeps rs [] s (s\<lparr>stClient := c', stResult := res, stHandlers := (stHandlers s)[i := AtScan]\<rparr>)"
    "set (tx_reply c') \<subseteq> set (tx_reply (stClient s))" "cross_tx_expired c' = cross_tx_expired (stClient s)"
proof -
  let ?c = "stClient s"
  let ?s = "s\<lparr>stClient := c', stResult := res, stHandlers := (stHandlers s)[i := AtScan]\<rparr>"
  from assms(1) obtain keep rec c2 where l: "receiptLoop (tx_reply ?c) ([], ?c) = Inr (keep, rec, c2)"
    "c' = c2\<lparr>tx_reply := keep\<rparr>" by (auto simp: processTXReceipts_def go_bind_eq_Inr_iff)
  note L = receiptLoop_spec[OF l(1)]
  have w: "waitingIds c' = waitingIds c2" by (simp add: l(2) waitingIds_def)
  have rc: "hasReceipt t st (tx_reply ?c) \<Longrightarrow> hasReceipt t st rs" for t st using assms(3) by (auto simp: hasReceipt_def)
  have ex: "expiring (stHandlers s) \<subseteq> expiring ((stHandlers s)[i := AtScan])"
    by (rule expiring_update) (simp add: assms(5))
  have "stOk ?s" using assms(2) L l(2) by (simp add: stOk_def mapOk_def)
  moreover have "accounted rs [] ?s t" if "accounted rs [] s t" for t
    using that L w rc ex l(2) unfolding accounted_def by auto
  moreover have "unprocessed ?s t \<or> accounted rs [] ?s t" if "unprocessed s t" for t
    using that L w rc l(2) unfolding accounted_def unprocessed_def by auto
  ultimately show "keeps rs [] s ?s" unfolding keeps_def by blast
  show "set (tx_reply c') \<subseteq> set (tx_reply ?c)" "cross_tx_expired c' = cross_tx_expired ?c" using L l(2) by simp_all
qed

lemma scan_keeps:
  assumes "expireScan (stClient s) = Inr (ids, c')" "stOk s" "i < length (stHandlers s)" "stHandlers s ! i = AtScan"
  shows "keeps rs [] s (s\<lparr>stClient := c', stHandlers := (stHandlers s)[i := AtQueue ids]\<rparr>)"
    "tx_reply c' = tx_reply (stClient s)" "cross_tx_expired c' = cross_tx_expired (stClient s)"
proof -
  let ?c = "stClient s"
  let ?s = "s\<lparr>stClient := c', stHandlers := (stHandlers s)[i := AtQueue ids]\<rparr>"
  from assms(1) obtain keep where x: "expireLoop ?c (cross1_confirm_height_map ?c) = Inr (ids, keep)"
    "c' = ?c\<lparr>cross1_confirm_height_map := keep\<rparr>" by (auto simp: expireScan_def go_bind_eq_Inr_iff)
  have w: "waitingIds ?c = set ids \<union> waitingIds c'" using expireLoop_ids[OF x(1)] x(2) by (simp add: waitingIds_def)
  have ex: "expiring (stHandlers s) \<union> set ids \<subseteq> expiring ((stHandlers s)[i := AtQueue ids])"
    using expiring_update[of "stHandlers s" i] expiring_set[OF assms(3)] assms(4) by auto
  have "stOk ?s" using assms(2) x(2) by (simp add: stOk_def mapOk_def)
  moreover have "accounted rs [] ?s t" if "accounted rs [] s t" for t
    using that w ex x(2) unfolding accounted_def by auto
  ultimately show "keeps rs [] s ?s" unfolding keeps_def unprocessed_def by (simp add: x(2))
  show "tx_reply c' = tx_reply ?c" "cross_tx_expired c' = cross_tx_expired ?c" using x(2) by simp_all
qed

lemma handler_keeps:
  assumes "AddTBs_step i s = Inr (out, s')" "stOk s" "set (tx_reply (stClient s)) \<subseteq> set rs"
  shows "keeps rs out s s' \<and> out = [] \<and> stInject s' = stInject s \<and>
    set (tx_reply (stClient s')) \<subseteq> set (tx_reply (stClient s))"
proof (cases "length (stHandlers s) \<le> i")
  case True
  with assms show ?thesis by (auto intro!: keeps_frame simp: AddTBs_step_def)
next
  case False
  then have i: "i < length (stHandlers s)" by simp
  show ?thesis
  proof (cases "stHandlers s ! i")
    case AtProcess
    with assms(1) i obtain c' res where "processTXReceipts (stClient s, stResult s) = Inr (c', res)" "out = []"
      "s' = s\<lparr>stClient := c', stResult := res, stHandlers := (stHandlers s)[i := AtScan]\<rparr>"
      by (auto simp: AddTBs_step_def Let_def go_bind_eq_Inr_iff)
    with process_keeps[OF this(1) assms(2,3) i AtProcess] show ?thesis by simp
  next
    case AtScan
    with assms(1) i obtain ids c' where "expireScan (stClient s) = Inr (ids, c')" "out = []"
      "s' = s\<lparr>stClient := c', stHandlers := (stHandlers s)[i := AtQueue ids]\<rparr>"
      by (auto simp: AddTBs_step_def Let_def go_bind_eq_Inr_iff)
    with scan_keeps[OF this(1) assms(2) i AtScan] show ?thesis by simp
  next
    case (AtQueue ids)
    with assms(1) i have s': "out = []" "s' = s\<lparr>stClient := expireQueue ids (stClient s),
        stHandlers := take i (stHandlers s) @ drop (Suc i) (stHandlers s)\<rparr>"
      by (auto simp: AddTBs_step_def Let_def)
    with expiring_remove[OF i AtQueue] assms(2) show ?thesis
      by (auto simp: keeps_def accounted_def unprocessed_def waitingIds_def stOk_def mapOk_def expireQueue_def)
  qed
qed

lemma storeTBs_frame:
  assumes "storeTBs b c = Inr c'"
  shows "txs c' = txs c \<and> txs_map c' = txs_map c \<and> cross_tx_expired c' = cross_tx_expired c \<and>
    tx_reply c' = tx_reply c \<and> cross1_confirm_height_map c' = cross1_confirm_height_map c \<and> cfgOk c' = cfgOk c"
  using assms by (auto simp: storeTBs_def go_bind_eq_Inr_iff dest!: addShardTBs_frame)

lemma step_keeps:
  assumes "clientStep e s = Inr (out, s')" "stOk s" "set (tx_reply (stClient s)) \<subseteq> set rs"
  shows "keeps rs out s s'"
    "set (tx_reply (stClient s')) \<subseteq> set (tx_reply (stClient s)) \<union> set (received [e])"
    "\<not> isInject e \<Longrightarrow> stInject s' = stInject s \<or> stInject s = Stopped \<and> stInject s' = AtRollback"
proof -
  have "keeps rs out s s' \<and> set (tx_reply (stClient s')) \<subseteq> set (tx_reply (stClient s)) \<union> set (received [e]) \<and>
    (\<not> isInject e \<longrightarrow> stInject s' = stInject s \<or> stInject s = Stopped \<and> stInject s' = AtRollback)"
  proof (cases e)
    case (Receipts rs')
    with assms show ?thesis
      by (auto intro!: keeps_frame simp: clientStep_def AddTXReceipts_def stOk_def mapOk_def)
  next
    case (Beacons b)
    with assms(1) obtain c' where c': "storeTBs b (stClient s) = Inr c'"
      "s' = s\<lparr>stClient := c', stHandlers := stHandlers s @ [AtProcess]\<rparr>"
      by (auto simp: clientStep_def go_bind_eq_Inr_iff)
    with storeTBs_frame[OF c'(1)] assms(2) show ?thesis
      by (auto intro!: keeps_frame simp: stOk_def mapOk_def expiring_def)
  next
    case (Handler i)
    with assms(1) have h: "AddTBs_step i s = Inr (out, s')" by (simp add: clientStep_def)
    from handler_keeps[OF h assms(2,3)] show ?thesis by blast
  next
    case StartInject
    with assms show ?thesis
      by (auto intro!: keeps_frame simp: clientStep_def injectStart_def stOk_def mapOk_def cfgOk_def split: if_splits)
  next
    case (Inject now)
    with assms(1) have h: "InjectTXs_step now s = Inr (out, s')" by (simp add: clientStep_def)
    from inject_keeps[OF h assms(2), of rs] Inject show ?thesis by simp
  qed
  then show "keeps rs out s s'"
    "set (tx_reply (stClient s')) \<subseteq> set (tx_reply (stClient s)) \<union> set (received [e])"
    "\<not> isInject e \<Longrightarrow> stInject s' = stInject s \<or> stInject s = Stopped \<and> stInject s' = AtRollback" by blast+
qed

text \<open>Only a beacon handler adds to the queue of expired transactions.\<close>

lemma step_expired:
  assumes "clientStep e s = Inr (out, s')" "\<not> isInject e" "\<nexists>i. e = Handler i"
  shows "cross_tx_expired (stClient s') = cross_tx_expired (stClient s)"
  using assms
  by (cases e) (auto simp: clientStep_def AddTXReceipts_def injectStart_def go_bind_eq_Inr_iff
      dest!: storeTBs_frame split: if_splits)

section \<open>Stopping\<close>

text \<open>How many of the reads of the test for stopping have been passed.\<close>

fun testsPassed :: "injectPc \<Rightarrow> nat" where
  "testsPassed TestExpired = 1"
| "testsPassed TestCross2 = 2"
| "testsPassed TestWaiting = 3"
| "testsPassed _ = 0"

definition testOk :: "clientEvent list \<Rightarrow> clientOut list \<Rightarrow> ClientState \<Rightarrow> bool" where
  "testOk es outs s \<longleftrightarrow> 0 < testsPassed (stInject s) \<longrightarrow> (\<exists>es1 es2. es = es1 @ es2 \<and>
     length (filter isInject es2) = testsPassed (stInject s) \<and>
     (\<forall>t. hasReceipt t CrossTXType1Success (received es1) \<longrightarrow> accounted (received es) outs s t) \<and>
     (1 < testsPassed (stInject s) \<and> cross_tx_expired (stClient s) \<noteq> [] \<longrightarrow> (\<exists>i. Handler i \<in> set es2)))"

definition clInv :: "clientEvent list \<Rightarrow> clientOut list \<Rightarrow> ClientState \<Rightarrow> bool" where
  "clInv es outs s \<longleftrightarrow> stOk s \<and> set (tx_reply (stClient s)) \<subseteq> set (received es) \<and>
     (\<forall>t. hasReceipt t CrossTXType1Success (received es) \<longrightarrow> unprocessed s t \<or> accounted (received es) outs s t) \<and>
     testOk es outs s"

lemma accounted_step:
  assumes "keeps (received es) out s s'" "accounted (received es) outs s t"
  shows "accounted (received (es @ [e])) (outs @ out) s' t"
proof -
  from assms have "rolledBack outs t \<or> accounted (received es) out s' t"
    by (auto simp: keeps_def accounted_iff[of _ outs])
  then show ?thesis
    using rolledBack_mono[of outs t out] accounted_more[of "received es" out s' t "received (es @ [e])" "outs @ out"]
    by (auto simp: accounted_iff[of _ "outs @ out"])
qed

text \<open>The injection loop passes a read of the test.\<close>

lemma inject_test:
  assumes "InjectTXs_step now s = Inr (out, s')" "0 < testsPassed (stInject s')"
  shows "stClient s' = stClient s \<and> testsPassed (stInject s') = Suc (testsPassed (stInject s)) \<and>
    (testsPassed (stInject s') = 1 \<longrightarrow> tx_reply (stClient s) = []) \<and>
    (testsPassed (stInject s') = 2 \<longrightarrow> cross_tx_expired (stClient s) = [])"
  using assms
  by (cases "stInject s") (auto simp: InjectTXs_step_def Let_def go_bind_eq_Inr_iff dest!: injectEnd_eq split: if_splits)

lemma testOk_inject:
  assumes "clInv es outs s" "InjectTXs_step now s = Inr (out, s')" "keeps (received es) out s s'"
  shows "testOk (es @ [Inject now]) (outs @ out) s'"
  unfolding testOk_def
proof
  assume p: "0 < testsPassed (stInject s')"
  note t = inject_test[OF assms(2) p]
  have step: "accounted (received es) outs s t \<Longrightarrow> accounted (received (es @ [Inject now])) (outs @ out) s' t" for t
    by (rule accounted_step[OF assms(3)])
  show "\<exists>es1 es2. es @ [Inject now] = es1 @ es2 \<and> length (filter isInject es2) = testsPassed (stInject s') \<and>
     (\<forall>t. hasReceipt t CrossTXType1Success (received es1) \<longrightarrow> accounted (received (es @ [Inject now])) (outs @ out) s' t) \<and>
     (1 < testsPassed (stInject s') \<and> cross_tx_expired (stClient s') \<noteq> [] \<longrightarrow> (\<exists>i. Handler i \<in> set es2))"
  proof (cases "testsPassed (stInject s)")
    case 0
    with t have "tx_reply (stClient s) = []" by simp
    then have "accounted (received es) outs s t" if "hasReceipt t CrossTXType1Success (received es)" for t
      using assms(1) that by (auto simp: clInv_def unprocessed_def hasReceipt_def)
    with step 0 t show ?thesis by (intro exI[of _ es] exI[of _ "[Inject now]"]) auto
  next
    case (Suc n)
    then have "0 < testsPassed (stInject s)" "testOk es outs s" using assms(1) by (simp_all add: clInv_def)
    then obtain es1 es2 where h: "es = es1 @ es2" "length (filter isInject es2) = testsPassed (stInject s)"
      "\<forall>t. hasReceipt t CrossTXType1Success (received es1) \<longrightarrow> accounted (received es) outs s t"
      "1 < testsPassed (stInject s) \<and> cross_tx_expired (stClient s) \<noteq> [] \<longrightarrow> (\<exists>i. Handler i \<in> set es2)"
      unfolding testOk_def by blast
    have "1 < testsPassed (stInject s') \<and> cross_tx_expired (stClient s') \<noteq> [] \<longrightarrow> (\<exists>i. Handler i \<in> set es2)"
      using h(4) t Suc by auto
    with h step t show ?thesis by (intro exI[of _ es1] exI[of _ "es2 @ [Inject now]"]) auto
  qed
qed

lemma testOk_other:
  assumes "clInv es outs s" "clientStep e s = Inr (out, s')" "keeps (received es) out s s'" "\<not> isInject e"
    "stInject s' = stInject s \<or> stInject s = Stopped \<and> stInject s' = AtRollback"
  shows "testOk (es @ [e]) (outs @ out) s'"
  unfolding testOk_def
proof
  assume p: "0 < testsPassed (stInject s')"
  with assms(5) have pc: "stInject s' = stInject s" by auto
  have "testOk es outs s" using assms(1) by (simp add: clInv_def)
  with p pc obtain es1 es2 where h: "es = es1 @ es2" "length (filter isInject es2) = testsPassed (stInject s)"
    "\<forall>t. hasReceipt t CrossTXType1Success (received es1) \<longrightarrow> accounted (received es) outs s t"
    "1 < testsPassed (stInject s) \<and> cross_tx_expired (stClient s) \<noteq> [] \<longrightarrow> (\<exists>i. Handler i \<in> set es2)"
    unfolding testOk_def by metis
  have "1 < testsPassed (stInject s') \<and> cross_tx_expired (stClient s') \<noteq> [] \<longrightarrow> (\<exists>i. Handler i \<in> set (es2 @ [e]))"
    using h(4) pc step_expired[OF assms(2,4)] by (metis in_set_conv_decomp list.set_intros(1) UnCI set_append)
  moreover have "\<forall>t. hasReceipt t CrossTXType1Success (received es1) \<longrightarrow>
      accounted (received (es @ [e])) (outs @ out) s' t" using h(3) accounted_step[OF assms(3)] by blast
  ultimately show "\<exists>es1 es2. es @ [e] = es1 @ es2 \<and> length (filter isInject es2) = testsPassed (stInject s') \<and>
     (\<forall>t. hasReceipt t CrossTXType1Success (received es1) \<longrightarrow> accounted (received (es @ [e])) (outs @ out) s' t) \<and>
     (1 < testsPassed (stInject s') \<and> cross_tx_expired (stClient s') \<noteq> [] \<longrightarrow> (\<exists>i. Handler i \<in> set es2))"
    using h(1,2) pc assms(4) by (intro exI[of _ es1] exI[of _ "es2 @ [e]"]) simp
qed

lemma clInv_step:
  assumes "clInv es outs s" "clientStep e s = Inr (out, s')"
  shows "clInv (es @ [e]) (outs @ out) s'"
proof -
  have ok: "stOk s" "set (tx_reply (stClient s)) \<subseteq> set (received es)" using assms(1) by (simp_all add: clInv_def)
  note k = step_keeps[OF assms(2) ok]
  have "testOk (es @ [e]) (outs @ out) s'"
  proof (cases e)
    case (Inject now)
    with assms(2) testOk_inject[OF assms(1) _ k(1)] show ?thesis by (simp add: clientStep_def)
  qed (use testOk_other[OF assms k(1)] k(3) in simp_all)
  moreover have "unprocessed s' t \<or> accounted (received (es @ [e])) (outs @ out) s' t"
    if "hasReceipt t CrossTXType1Success (received (es @ [e]))" for t
  proof (cases "hasReceipt t CrossTXType1Success (received es)")
    case True
    then consider "unprocessed s t" | "accounted (received es) outs s t" using assms(1) by (auto simp: clInv_def)
    then show ?thesis
    proof cases
      case 1
      with k(1) have "unprocessed s' t \<or> accounted (received es) out s' t" by (simp add: keeps_def)
      then show ?thesis
        using accounted_more[of "received es" out s' t "received (es @ [e])" "outs @ out"] by auto
    qed (use accounted_step[OF k(1)] in blast)
  next
    case False
    with that obtain rs where e: "e = Receipts rs" "hasReceipt t CrossTXType1Success rs"
      by (cases e) (auto simp: hasReceipt_append hasReceipt_def)
    with assms(2) show ?thesis
      by (auto simp: clientStep_def AddTXReceipts_def unprocessed_def hasReceipt_append)
  qed
  ultimately show ?thesis using k(1,2) ok(2) by (auto simp: clInv_def keeps_def)
qed

text \<open>A client as the program starts it, before its goroutines run.\<close>

definition freshState :: "ClientState \<Rightarrow> bool" where
  "freshState s \<longleftrightarrow> freshClient (stClient s) \<and> stInject s = Stopped \<and> stHandlers s = []"

interpretation client: event_machine clientStep freshState clInv
proof
  show "clInv [] [] s" if "freshState s" for s
  proof -
    from that obtain i rollback shardNum mode speed ts where
      c: "stClient s = Addtxs ts (clientStart speed (NewClient i rollback shardNum mode))" "0 \<le> speed" "shardNum \<le> 2 ^ 32"
      by (auto simp: freshState_def freshClient_def)
    have "mapOk (clientStart speed (NewClient i rollback shardNum mode))"
      by (simp add: mapOk_def clientStart_def NewClient_def)
    from Addtxs_mapOk[OF this] c that show ?thesis
      by (simp add: clInv_def stOk_def testOk_def freshState_def cfgOk_def hasReceipt_def Addtxs_def clientStart_def
          NewClient_def Let_def)
  qed
qed (rule clInv_step)

section \<open>Sending everything at once\<close>

text \<open>After the loop has stopped, and unless it is started again, nothing is sent.\<close>

lemma stopped_silent:
  assumes "runEvents clientStep fs s = Inr (outs, s')" "stInject s = Stopped" "StartInject \<notin> set fs"
  shows "outs = [] \<and> stInject s' = Stopped"
  using assms
proof (induction fs arbitrary: s outs)
  case (Cons e fs)
  then obtain out s1 outs1 where r: "clientStep e s = Inr (out, s1)" "runEvents clientStep fs s1 = Inr (outs1, s')"
    "outs = out @ outs1" by (auto simp: go_bind_eq_Inr_iff)
  from r(1) Cons.prems(2,3) have "out = [] \<and> stInject s1 = Stopped"
    by (cases e) (auto simp: clientStep_def AddTBs_step_def InjectTXs_step_def Let_def go_bind_eq_Inr_iff
        split: if_splits handlerPc.splits)
  with Cons.IH[OF r(2)] Cons.prems(3) r(3) show ?case by simp
qed simp

text \<open>The three sending steps, when nothing but new transactions is left to send.\<close>

lemma iteration_sends_all:
  assumes "runEvents clientStep [Inject t1, Inject t2, Inject now] s = Inr (outs, s')" "stInject s = AtRollback"
    "stOk s" "cross_tx_expired (stClient s) = []" "cross2_txs (stClient s) = []"
    "int (length (txs (stClient s))) \<le> injectCnt (stClient s) + injectSpeed (stClient s)"
  shows "stInject s' = AtNotify \<and> stHandlers s' = stHandlers s \<and>
    injectCnt (stClient s') = int (length (txs (stClient s'))) \<and>
    tx_reply (stClient s') = tx_reply (stClient s) \<and> cross_tx_expired (stClient s') = [] \<and> cross2_txs (stClient s') = [] \<and>
    cross1_confirm_height_map (stClient s') = cross1_confirm_height_map (stClient s) \<and>
    (\<forall>i. sentTo i outs = filter (\<lambda>tx. unat (Sender_sid tx) = i)
       (map (prepareTx (cid (stClient s)) now) (drop (nat (injectCnt (stClient s))) (txs (stClient s)))))"
proof -
  let ?c = "stClient s"
  have ok: "shard_num ?c \<le> 2 ^ 32" "0 \<le> injectSpeed ?c" "0 \<le> injectCnt ?c" "injectCnt ?c \<le> int (length (txs ?c))"
    using assms(3) by (auto simp: stOk_def cfgOk_def)
  have "sendRollbackTxs (injectSpeed ?c) ?c = Inr (0, [], ?c)" "sendCross2Txs (injectSpeed ?c) ?c = Inr (0, [], ?c)"
    using assms(4,5) ok(2) by (simp_all add: sendRollbackTxs_def sendCross2Txs_def)
  with assms(1,2) obtain cnt c' where p: "sendPendingTxs now (injectCnt ?c) (injectSpeed ?c) ?c = Inr (cnt, outs, c')"
    "s' = s\<lparr>stClient := c'\<lparr>injectCnt := cnt\<rparr>, stInject := AtNotify\<rparr>"
    by (auto simp: clientStep_def InjectTXs_step_def Let_def go_bind_eq_Inr_iff)
  note sp = sendPendingTxs_spec[OF p(1) ok]
  have cnt: "cnt = int (length (txs ?c))" using sp(1) assms(6) by simp
  then have "nat (cnt - injectCnt ?c) = length (drop (nat (injectCnt ?c)) (txs ?c))" using ok by simp
  then have "take (nat (cnt - injectCnt ?c)) (drop (nat (injectCnt ?c)) (txs ?c)) = drop (nat (injectCnt ?c)) (txs ?c)"
    by simp
  with sp(2,3) cnt p(2) assms(4,5) show ?thesis by auto
qed

section \<open>Sample runs\<close>

definition sampleState :: "int \<Rightarrow> ClientState" where
  "sampleState speed = \<lparr>stClient = sampleClient speed, stResult = sampleResult, stInject = Stopped, stHandlers = []\<rparr>"

lemma freshState_sample: "0 \<le> speed \<Longrightarrow> freshState (sampleState speed)"
  by (simp add: freshState_def sampleState_def freshClient_sample)

definition sampleTBs :: "u64 \<Rightarrow> ConfirmedTB list list \<Rightarrow> clientEvent list" where
  "sampleTBs h beacons = [Beacons \<lparr>tbbTime = 9, tbbHeight = h, tbbTbs = beacons\<rparr>, Handler 0, Handler 0]"

text \<open>
  The client sends a transaction, learns that its first half was executed, sends the second half,
  sends its other transaction, and is about to leave the loop.
\<close>

definition sampleSettled :: "clientEvent list" where
  "sampleSettled = [StartInject, Inject 5, Inject 5, Inject 5, Inject 5, Inject 5,
     Receipts [shardReceipt 0 CrossTXType1Success]] @ sampleTBs 1 [[sampleBeacon 0 1], []] @ [Handler 0,
     Inject 6, Inject 6, Inject 6, Inject 6, Inject 6,
     Receipts [shardReceipt 1 CrossTXType2Success]] @ sampleTBs 2 [[], [sampleBeacon 1 1]] @ [Handler 0,
     Inject 7, Inject 7, Inject 7, Inject 7, Inject 7, Inject 7, Inject 7]"

lemmas sampleState_simps = sampleState_def sampleTBs_def clientStep_def InjectTXs_step_def AddTBs_step_def injectEnd_def

lemma sampleSettled_run:
  "\<exists>outs s. runEvents clientStep sampleSettled (sampleState 1) = Inr (outs, s) \<and> stInject s = TestWaiting \<and>
    (\<exists>s'. clientStep (Inject 8) s = Inr ([], s') \<and> stInject s' = Stopped \<and> stHandlers s' = [] \<and>
       cross_tx_expired (stClient s') = [])"
  by (simp add: sampleSettled_def sampleState_simps sampleClient_simps upto_01)

text \<open>
  A transaction expires while the loop tests whether it can stop: the handler has removed it from the
  table of waiting transactions and not yet put it into the queue, and the loop ends before
  its rollback is sent.
\<close>

lemma stop_race:
  "\<exists>outs s. runEvents clientStep ([StartInject, Inject 5, Inject 5, Inject 5,
      Receipts [shardReceipt 0 CrossTXType1Success]] @ sampleTBs 1 [[sampleBeacon 0 1], []] @ [Handler 0,
      Inject 6, Inject 6, Inject 6, Inject 6, Inject 7, Inject 7, Inject 7, Inject 7, Inject 7, Inject 7] @
      sampleTBs 2 [[], [sampleBeacon 1 4]] @ [Inject 7, Inject 7, Handler 0]) (sampleState 10) = Inr (outs, s) \<and>
    stInject s = Stopped \<and> cross_tx_expired (stClient s) = [0]"
  by (simp add: sampleState_simps sampleClient_simps upto_01 word_less_nat_alt)

section \<open>Properties\<close>



text \<open>
  C37. The client may stop with all its transactions in flight. Whenever an iteration begins with the
  other queues empty, no receipt waiting and no more transactions left than one iteration may
  send, and is not interrupted, it sends all of them, each to the committee of its sender, and
  the loop stops without waiting for a receipt of any of them. Whatever receipts and
  beacons come later, no second half and no rollback is sent unless the loop is started again.
\<close>

theorem client_stops_in_flight:
  assumes "runEvents clientStep es s0 = Inr (outs0, s)" "freshState s0" "stInject s = AtRollback"
    "cross_tx_expired (stClient s) = []" "cross2_txs (stClient s) = []" "tx_reply (stClient s) = []"
    "cross1_confirm_height_map (stClient s) = []"
    "int (length (txs (stClient s))) \<le> injectCnt (stClient s) + injectSpeed (stClient s)"
    "runEvents clientStep (map Inject [t1, t2, now, t4, t5, t6, t7, t8]) s = Inr (outs, s')"
    "runEvents clientStep fs s' = Inr (outs', s'')" "StartInject \<notin> set fs"
  shows "stInject s' = Stopped \<and> outs' = [] \<and>
    (\<forall>i. sentTo i outs = filter (\<lambda>tx. unat (Sender_sid tx) = i)
       (map (prepareTx (cid (stClient s)) now) (drop (nat (injectCnt (stClient s))) (txs (stClient s)))))"
proof -
  have ok: "stOk s" using client.hinv_run[OF assms(1,2)] by (simp add: clInv_def)
  have "map Inject [t1, t2, now, t4, t5, t6, t7, t8] =
      [Inject t1, Inject t2, Inject now] @ [Inject t4] @ map Inject [t5, t6, t7, t8]" by simp
  with assms(9) obtain o1 s1 o2 s2 o3 where
    r: "runEvents clientStep [Inject t1, Inject t2, Inject now] s = Inr (o1, s1)" "clientStep (Inject t4) s1 = Inr (o2, s2)"
    "runEvents clientStep (map Inject [t5, t6, t7, t8]) s2 = Inr (o3, s')" "outs = o1 @ o2 @ o3"
    unfolding runEvents_append by (auto simp: go_bind_eq_Inr_iff)
  note i = iteration_sends_all[OF r(1) assms(3) ok assms(4,5,8)]
  from r(2) i have n: "sentTo k o2 = []" "stInject s2 = Stopped \<or> stInject s2 = TestReplies \<and> CanStopV1 (stClient s2)" for k
    using assms(6,7)
    by (auto simp: clientStep_def InjectTXs_step_def Let_def sentTo_def CanStopV1_def go_bind_eq_Inr_iff
        dest!: injectEnd_eq split: if_splits)
  have "stInject s' = Stopped \<and> o3 = []"
    using n(2) stopped_silent[OF r(3)] stop_test_uninterrupted[of t5 t6 t7 t8 s2 o3 s'] r(3) by auto
  with stopped_silent[OF assms(10) _ assms(11)] i n(1) r(4) show ?thesis by simp
qed

theorem client_stops_in_flight_witness:
  "\<exists>s outs s' outs' s''. runEvents clientStep [StartInject] (sampleState 10) = Inr ([], s) \<and>
    runEvents clientStep (map Inject [1, 1, 1, 1, 1, 1, 1, 1]) s = Inr (outs, s') \<and> stInject s' = Stopped \<and>
    sentTo 0 outs = map (prepareTx 0 1) (txs (sampleClient 10)) \<and>
    runEvents clientStep (Receipts [shardReceipt 0 CrossTXType1Success] # sampleTBs 1 [[sampleBeacon 0 1], []] @ [Inject 9])
      s' = Inr (outs', s'') \<and> outs' = [] \<and> length (cross2_txs (stClient s'')) = 1"
proof -
  let ?fs = "Receipts [shardReceipt 0 CrossTXType1Success] # sampleTBs 1 [[sampleBeacon 0 1], []] @ [Inject 9]"
  obtain s outs s' outs' s'' where r: "runEvents clientStep [StartInject] (sampleState 10) = Inr ([], s)"
    "stClient s = injectStart (sampleClient 10)" "stInject s = AtRollback"
    "runEvents clientStep (map Inject [1, 1, 1, 1, 1, 1, 1, 1]) s = Inr (outs, s')"
    "runEvents clientStep ?fs s' = Inr (outs', s'')" "length (cross2_txs (stClient s'')) = 1"
    by (simp add: sampleState_simps sampleClient_simps upto_01)
  have c: "cross_tx_expired (stClient s) = []" "cross2_txs (stClient s) = []" "tx_reply (stClient s) = []"
    "cross1_confirm_height_map (stClient s) = []" "injectCnt (stClient s) = 0" "injectSpeed (stClient s) = 10"
    "cid (stClient s) = 0" "txs (stClient s) = txs (sampleClient 10)" "length (txs (sampleClient 10)) = 2"
    "\<forall>tx\<in>set (txs (sampleClient 10)). Sender_sid tx = 0"
    by (simp_all add: r(2) injectStart_def sampleClient_def Addtxs_def clientStart_def NewClient_def sampleTx_def
        NewTransaction_def Let_def)
  have "StartInject \<notin> set ?fs" by (simp add: sampleTBs_def)
  from client_stops_in_flight[OF r(1) freshState_sample r(3) c(1-4) _ r(4,5) this] c
  have "stInject s' = Stopped \<and> outs' = [] \<and> sentTo 0 outs = map (prepareTx 0 1) (txs (sampleClient 10))"
    by (simp add: filter_map comp_def prepareTx_def)
  with r show ?thesis by blast
qed

end
