(* ===== verification/Spec2Isabelle.thy ===== *)
theory Spec2Isabelle
  imports Rebuild Trie_Proof Prelude Hex_Encoding Core_Types Tx_Pool Executor Go_Gob Pbft Multi_Sign Beacon_Chain Result Client Client_Run
begin

text \<open>
  A verification of LessChain (\<^verbatim>\<open>src/\<close>), a sharded blockchain in Go. Every shard holds the accounts of
  its addresses; a committee, re-elected by lot, executes the transactions of a shard
  without holding its state: it fetches the accounts it needs with Merkle proofs, executes a block, agrees
  on it by PBFT and sends it back. Committees publish signed time beacons of their blocks on a beacon
  chain. A transfer between shards is a debit in one and a credit in the other; if the
  credit is late, the client has the debit rolled back.

  \<^bold>\<open>Conventions.\<close> A function that may end the process (\<^verbatim>\<open>log.Error\<close> and \<^verbatim>\<open>log.Crit\<close> call \<^verbatim>\<open>os.Exit\<close>),
  panic, return an error or block forever returns \<^typ>\<open>'a go\<close> (\<^verbatim>\<open>Prelude\<close>). Structs are records, message handlers
  are functions on the state of their component that return the messages they send, and a run is a
  list of events (\<^const>\<open>runEvents\<close>); an invariant of runs is an interpretation of the locale
  \<^verbatim>\<open>event_machine\<close>. Integers have their Go width where they can wrap. Code outside the repository (rlp, Keccak, elliptic
  curves, the ABI encoder, StateDB, the Ethereum node) is a parameter, with what is needed
  of it as a named hypothesis or locale.

  \<^bold>\<open>Theories and sources.\<close>
  \<^item> \<^verbatim>\<open>Core_Types\<close>: transactions, receipts, headers, blocks, accounts (\<^verbatim>\<open>core/transaction.go\<close>, \<^verbatim>\<open>block.go\<close>,
    \<^verbatim>\<open>state_account.go\<close>, \<^verbatim>\<open>result/txStatus.go\<close>).
  \<^item> \<^verbatim>\<open>Tx_Pool\<close> (\<^verbatim>\<open>committee/txpool.go\<close>): what a block contains, that packing returns, that no expired credit is packed.
  \<^item> \<^verbatim>\<open>Executor\<close> (\<^verbatim>\<open>committee/worker.go\<close>, \<^verbatim>\<open>shard/shard.go\<close>, \<^verbatim>\<open>shard/msgHandler.go\<close>): execution by the committee
    on fetched accounts agrees with execution by the shard; a rollback undoes its debit; value is conserved;
    a block with another state root is refused.
  \<^item> \<^verbatim>\<open>Go_Gob\<close> and \<^verbatim>\<open>Pbft\<close> (\<^verbatim>\<open>pbft/\<close>): the digest identifies a request; quorums behind commit and reply;
    the recovery of old requests.
  \<^item> \<^verbatim>\<open>Multi_Sign\<close> (\<^verbatim>\<open>committee/multisign.go\<close>, \<^verbatim>\<open>node/account.go\<close>, \<^verbatim>\<open>beaconChain/shardContract.go\<close>): the signatures
    a leader collects are accepted by the contract, unless one is for another beacon; an honest round ends.
  \<^item> \<^verbatim>\<open>Beacon_Chain\<close> (\<^verbatim>\<open>beaconChain/\<close>): confirmed beacons were submitted and verified; blocks are pushed in
    order and only when they are deep enough.
  \<^item> \<^verbatim>\<open>Result\<close> and \<^verbatim>\<open>Client\<close> (\<^verbatim>\<open>result/\<close>, \<^verbatim>\<open>client/\<close>): receipts, expiry, rollback, what the client sends, statistics.
  \<^item> \<^verbatim>\<open>Client_Run\<close> (\<^verbatim>\<open>client/\<close>): the goroutines of the client, with one step per critical section: what is
    settled when the injection loop stops, and what is not.
  \<^item> \<^verbatim>\<open>Hex_Encoding\<close> (\<^verbatim>\<open>trie/encoding.go\<close>): encodings of trie keys and their round trips.
  \<^item> \<^verbatim>\<open>Rlp\<close>: the interface of the rlp package as a record of its operations, the locale \<^verbatim>\<open>rlp_codec\<close> of the laws
    that the trie needs, and an implementation of the format that satisfies them.
  \<^item> \<^verbatim>\<open>Plain_Trie\<close>: the Patricia trie without caches, hashes and database. Insertion and deletion implement a finite
    map (locale \<^verbatim>\<open>kv_store\<close>), and a canonical tree is determined by its map.
  \<^item> \<^verbatim>\<open>Trie_Node\<close> (\<^verbatim>\<open>trie/node.go\<close>, \<^verbatim>\<open>node_enc.go\<close>): nodes, their encoding and decoding; decoding inverts encoding.
  \<^item> \<^verbatim>\<open>Trie_Core\<close> (\<^verbatim>\<open>trie/trie.go\<close>): operations on nodes that are loaded on demand. The relation \<^const>\<open>absN\<close> between a
    node and a plain tree covers cached hashes and nodes that are still in the database; every operation
    is shown to refine the one on plain trees.
  \<^item> \<^verbatim>\<open>Trie_Hash\<close> (\<^verbatim>\<open>trie/hasher.go\<close>): hashing; the root hash identifies the contents.
  \<^item> \<^verbatim>\<open>Trie_Proof\<close> (\<^verbatim>\<open>trie/proof.go\<close>, \<^verbatim>\<open>committee/proof.go\<close>): proofs are complete and sound.
  \<^item> \<^verbatim>\<open>Rebuild\<close> (\<^verbatim>\<open>committee/worker.go\<close>: \<^verbatim>\<open>analyseStates\<close>, \<^verbatim>\<open>rebuildTrie\<close>, \<^verbatim>\<open>rebuildHelper\<close>, \<^verbatim>\<open>Finalize\<close>): from the
    nodes of the proofs alone the worker computes the root hash that the whole trie has after the
    block. The map of nodes is threaded through the recursion because the code overwrites the nodes in it; this is
    why no two places of the trie may hold the same subtree. Keys have 65 nibbles, so 65 levels of recursion
    are enough.
  \<^item> This theory: atomicity of cross-shard transactions, across pool, client and beacon chain.

  \<^bold>\<open>Fuel.\<close> A recursion that passes through the database or through untrusted bytes runs on fuel: a
  trie operation on a key of \<open>n\<close> nibbles takes at most \<open>2 * n + 2\<close> steps (each nibble costs at most one
  node and one load), the verifier of a proof \<open>n + 1\<close> rounds, the decoder the length of its
  input. The refinement lemmas show that these are enough.

  \<^bold>\<open>Hash functions.\<close> Collision resistance is never assumed globally: a theorem that needs it asks for injectivity on the
  finite set of byte strings that it is about.

  \<^bold>\<open>Not modelled.\<close> Network transport and message dispatch (\<^verbatim>\<open>messageHub/\<close>), files, flags and start-up
  (\<^verbatim>\<open>cfg/\<close>, \<^verbatim>\<open>controller/\<close>, \<^verbatim>\<open>main.go\<close>, \<^verbatim>\<open>data/\<close>, \<^verbatim>\<open>node/\<close>), logging (\<^verbatim>\<open>log/\<close>), the JSON-RPC client of the Ethereum node
  (\<^verbatim>\<open>eth_chain/\<close>), storage (\<^verbatim>\<open>core/database.go\<close>, \<^verbatim>\<open>genesis.go\<close>) and the database, iterator and synchronisation
  of the trie: they are input and output around the modelled handlers. Handlers of one component run one
  at a time in the model. In \<^verbatim>\<open>Client_Run\<close> the steps are smaller, because the client's locks protect
  only parts of its handlers. Elsewhere the code is as coarse as the model where one lock or one goroutine guards a
  handler (the pool, the beacon chain's maps, the PBFT handlers of votes and replies); accesses that the code
  leaves unguarded (\<^verbatim>\<open>Propose\<close> and the handlers of old requests beside the other PBFT handlers,
  \<^verbatim>\<open>initMultiSign\<close> beside \<^verbatim>\<open>HandleMultiSignReply\<close>, the shard, which has no locks) are taken to be atomic.
\<close>

section \<open>Atomicity of cross-shard transactions\<close>

text \<open>
  The recipient committee packs a second half only up to its deadline (\<^verbatim>\<open>Pending\<close>), and the client
  rolls a transaction back only when it has seen a beacon past the deadline (\<^verbatim>\<open>AddTBs\<close>).
\<close>

lemma Pending_cross2_live:
  assumes "Pending m p pool = Inr (block, addrs, pool')" "0 \<le> m" "poolOk pool" "tx \<in> set block"
    "TXtype tx = CrossTXType2"
  shows "bigUint64 p + 1 \<le> Cross1ConfirmHeight tx + RollbackHeight tx"
proof -
  obtain rtxs pre where q: "pendingRollback pool = rtxs @ pendingRollback pool'"
    "block = rtxs @ filter (\<lambda>tx. \<not> cross2Expired p tx) pre" using Pending_queues[OF assms(1,2)] by blast
  have "tx \<notin> set rtxs" using assms(3,5) q(1) by (auto simp: poolOk_def txtype_distinct)
  with q(2) assms(4) have "\<not> cross2Expired p tx" by auto
  with assms(5) show ?thesis by (simp add: cross2Expired_def not_less)
qed

text \<open>
  C3. A credited transaction is not rolled back. If the recipient committee packed the second half of a
  transaction into the block on height \<open>p\<close>, the client has its receipt when the
  beacons of a block arrive, and beacons arrive in the order of heights, then the client does not
  let the transaction expire.
\<close>

theorem credit_excludes_rollback:
  assumes "Pending maxBlockSize p pool = Inr (block, addrs, pool')" "0 \<le> maxBlockSize" "poolOk pool"
    "t \<in> set block" "TXtype t = CrossTXType2"
    "clientAddTBs b (c, res) = Inr (c', res')" "distinct (map fst (cross1_confirm_height_map c))"
    "map_of (cross1_confirm_height_map c) (ID t) = Some (Cross1ConfirmHeight t)"
    "RollbackHeight (txOf c (ID t)) = RollbackHeight t" "Recipient_sid (txOf c (ID t)) = Recipient_sid t"
    "r \<in> set (tx_reply c)" "rTxID r = ID t" "rTxStatus r = CrossTXType2Success"
    "word_of_int (rShardID r) = Recipient_sid t" "rBlockHeight r = bigUint64 p + 1"
    "\<not> hasReceipt (ID t) CrossTXType1Success (tx_reply c)"
    "bigUint64 p + 1 \<le> curHeight (Recipient_sid t) c' \<Longrightarrow> tbKnown (Recipient_sid t) (bigUint64 p + 1) c' \<noteq> None"
  shows "\<exists>ex. cross_tx_expired c' = cross_tx_expired c @ ex \<and> ID t \<notin> set ex"
proof -
  obtain ex where ex: "cross_tx_expired c' = cross_tx_expired c @ ex"
    "ID t \<in> set ex \<longrightarrow> (\<exists>h. map_of (cross1_confirm_height_map c) (ID t) = Some h \<and>
       h + RollbackHeight (txOf c (ID t)) < curHeight (Recipient_sid (txOf c (ID t))) c')"
    "ID t \<in> set ex \<longrightarrow> \<not> (\<exists>r\<in>set (tx_reply c). rTxID r = ID t \<and> rTxStatus r = CrossTXType2Success \<and>
           tbKnown (word_of_int (rShardID r)) (rBlockHeight r) c' \<noteq> None)"
    by (rule clientAddTBs_expired[OF assms(6,7,16)])
  have live: "bigUint64 p + 1 \<le> Cross1ConfirmHeight t + RollbackHeight t"
    by (rule Pending_cross2_live[OF assms(1-5)])
  have "ID t \<notin> set ex"
  proof
    assume e: "ID t \<in> set ex"
    with ex(2) assms(8-10) have "Cross1ConfirmHeight t + RollbackHeight t < curHeight (Recipient_sid t) c'" by auto
    with live have "bigUint64 p + 1 \<le> curHeight (Recipient_sid t) c'" by simp
    with assms(17) ex(3) e assms(11-15) show False by auto
  qed
  with ex(1) show ?thesis by blast
qed

definition sampleWaiting :: "TXReceipt list \<Rightarrow> Client" where
  "sampleWaiting rs = (sampleClient 1)\<lparr>cross1_confirm_height_map := [(0, 0)], tx_reply := rs\<rparr>"

definition sampleCross2 :: Transaction where
  "sampleCross2 = (sampleTx 0 1)\<lparr>TXtype := CrossTXType2, RollbackHeight := 3\<rparr>"

definition sampleCross2Pool :: TxPool where
  "sampleCross2Pool = \<lparr>pending = [sampleCross2], pendingRollback = []\<rparr>"

lemma sampleWaiting_facts:
  "cross1_confirm_height_map (sampleWaiting rs) = [(0, 0)]" "tx_reply (sampleWaiting rs) = rs"
  "txOf (sampleWaiting rs) 0 = (sampleTx 0 1)\<lparr>RollbackHeight := 3\<rparr>" "cross_tx_expired (sampleWaiting rs) = []"
  "ID sampleCross2 = 0" "TXtype sampleCross2 = CrossTXType2" "RollbackHeight sampleCross2 = 3"
  "Cross1ConfirmHeight sampleCross2 = 0" "Recipient_sid sampleCross2 = 1" "poolOk sampleCross2Pool"
  by (simp_all add: sampleWaiting_def sampleClient_def Addtxs_def clientStart_def NewClient_def Let_def txOf_def
      sampleCross2_def sampleTx_def NewTransaction_def poolOk_def sampleCross2Pool_def txtype_defs)

lemma sampleCross2_packed: "\<exists>addrs pool'. Pending 10 0 sampleCross2Pool = Inr ([sampleCross2], addrs, pool')"
  by (simp add: Pending_def sampleCross2Pool_def getTxRelatedAddrs_def txAddrs_def sampleCross2_def sampleTx_def
      NewTransaction_def cross2Expired_def bigUint64_def txtype_defs word_less_nat_alt)

lemma sampleCross2_late: "\<exists>addrs pool'. Pending 10 4 sampleCross2Pool = Inr ([], addrs, pool')"
  by (simp add: Pending_def sampleCross2Pool_def getTxRelatedAddrs_def txAddrs_def sampleCross2_def sampleTx_def
      NewTransaction_def cross2Expired_def bigUint64_def txtype_defs word_less_nat_alt)

theorem credit_excludes_rollback_witness:
  "\<exists>c' res' ex. clientAddTBs \<lparr>tbbTime = 9, tbbHeight = 1, tbbTbs = [[], [sampleBeacon 1 1]]\<rparr>
      (sampleWaiting [shardReceipt 1 CrossTXType2Success], sampleResult) = Inr (c', res') \<and>
    cross_tx_expired c' = cross_tx_expired (sampleWaiting [shardReceipt 1 CrossTXType2Success]) @ ex \<and> 0 \<notin> set ex"
proof -
  let ?c = "sampleWaiting [shardReceipt 1 CrossTXType2Success]"
  obtain addrs pool' where p: "Pending 10 0 sampleCross2Pool = Inr ([sampleCross2], addrs, pool')"
    using sampleCross2_packed by blast
  have "\<exists>c' res'. clientAddTBs \<lparr>tbbTime = 9, tbbHeight = 1, tbbTbs = [[], [sampleBeacon 1 1]]\<rparr>
      (?c, sampleResult) = Inr (c', res') \<and> tbKnown 1 1 c' \<noteq> None"
    by (simp add: sampleWaiting_def sampleClient_simps)
  then obtain c' res' where a: "clientAddTBs \<lparr>tbbTime = 9, tbbHeight = 1, tbbTbs = [[], [sampleBeacon 1 1]]\<rparr>
      (?c, sampleResult) = Inr (c', res')" "tbKnown 1 1 c' \<noteq> None" by blast
  have "\<exists>ex. cross_tx_expired c' = cross_tx_expired ?c @ ex \<and> ID sampleCross2 \<notin> set ex"
    by (rule credit_excludes_rollback[OF p _ _ _ _ a(1), where r = "shardReceipt 1 CrossTXType2Success"])
      (use a(2) in \<open>simp_all add: sampleWaiting_facts shardReceipt_def sampleTx_def bigUint64_def hasReceipt_def status_defs\<close>)
  with a(1) show ?thesis by (auto simp: sampleWaiting_facts)
qed

text \<open>
  C4. A rolled back transaction is not credited later. Once the client lets a transaction expire on beacons up to a
  height of the recipient shard, no block that the recipient committee builds on that or a later
  height contains its second half.
\<close>

theorem rollback_excludes_credit:
  assumes "clientAddTBs b (c, res) = Inr (c', res')" "distinct (map fst (cross1_confirm_height_map c))"
    "\<not> hasReceipt i CrossTXType1Success (tx_reply c)"
    "i \<in> set (drop (length (cross_tx_expired c)) (cross_tx_expired c'))"
    "Pending maxBlockSize p pool = Inr (block, addrs, pool')" "0 \<le> maxBlockSize" "poolOk pool"
    "curHeight (Recipient_sid (txOf c i)) c' \<le> bigUint64 p" "bigUint64 p + 1 \<noteq> 0"
    "TXtype t = CrossTXType2" "map_of (cross1_confirm_height_map c) i = Some (Cross1ConfirmHeight t)"
    "RollbackHeight t = RollbackHeight (txOf c i)"
  shows "t \<notin> set block"
proof
  assume t: "t \<in> set block"
  obtain ex where ex: "cross_tx_expired c' = cross_tx_expired c @ ex"
    "i \<in> set ex \<longrightarrow> (\<exists>h. map_of (cross1_confirm_height_map c) i = Some h \<and>
       h + RollbackHeight (txOf c i) < curHeight (Recipient_sid (txOf c i)) c')"
    "i \<in> set ex \<longrightarrow> \<not> (\<exists>r\<in>set (tx_reply c). rTxID r = i \<and> rTxStatus r = CrossTXType2Success \<and>
           tbKnown (word_of_int (rShardID r)) (rBlockHeight r) c' \<noteq> None)"
    by (rule clientAddTBs_expired[OF assms(1-3)])
  with assms(4,11,12) have "Cross1ConfirmHeight t + RollbackHeight t < curHeight (Recipient_sid (txOf c i)) c'" by auto
  also have "\<dots> \<le> bigUint64 p" by fact
  also have "\<dots> < bigUint64 p + 1" using assms(9) by unat_arith
  finally show False using Pending_cross2_live[OF assms(5-7) t assms(10)] by simp
qed

theorem rollback_excludes_credit_witness:
  "\<exists>c' res' block addrs pool'. clientAddTBs \<lparr>tbbTime = 9, tbbHeight = 1, tbbTbs = [[], [sampleBeacon 1 4]]\<rparr>
      (sampleWaiting [], sampleResult) = Inr (c', res') \<and> cross_tx_expired c' = [0] \<and>
    Pending 10 4 sampleCross2Pool = Inr (block, addrs, pool') \<and> sampleCross2 \<notin> set block"
proof -
  let ?b = "\<lparr>tbbTime = 9, tbbHeight = 1, tbbTbs = [[], [sampleBeacon 1 4]]\<rparr>"
  obtain block addrs pool' where p: "Pending 10 4 sampleCross2Pool = Inr (block, addrs, pool')"
    using sampleCross2_late by blast
  have "\<exists>c' res'. clientAddTBs ?b (sampleWaiting [], sampleResult) = Inr (c', res') \<and>
      cross_tx_expired c' = [0] \<and> curHeight 1 c' = 4"
    by (simp add: sampleWaiting_def sampleClient_simps word_less_nat_alt)
  then obtain c' res' where a: "clientAddTBs ?b (sampleWaiting [], sampleResult) = Inr (c', res')"
    "cross_tx_expired c' = [0]" "curHeight 1 c' = 4" by blast
  have "sampleCross2 \<notin> set block"
    by (rule rollback_excludes_credit[OF a(1) _ _ _ p, where i = 0])
      (simp_all add: sampleWaiting_facts a(2,3) sampleTx_def bigUint64_def hasReceipt_def)
  with a p show ?thesis by blast
qed

end
